(* ===== verification/Mumq_Prelude.thy ===== *)
theory Mumq_Prelude
  imports Main "HOL-Library.Word"
begin

unbundle bit_operations_syntax

text \<open>
  Vocabulary shared by every component: the machine integers of the C code, unsigned
  \<open>size_t\<close> subtraction, bounds-checked reads, C strings, the outcome of \<open>malloc\<close>,
  and splitting of a topic at its separators.  Reads outside an object are never given a
  value: they are the value \<^const>\<open>None\<close> of the reading function.
\<close>

section \<open>Machine integers\<close>

type_synonym u8 = "8 word"
type_synonym u16 = "16 word"
type_synonym u32 = "32 word"

text \<open>
  The collections: \<open>wire\<close> holds the byte-level evaluation rules of the parser and the
  serialiser, \<open>mem\<close> the rules on memory reads and allocation.
\<close>

named_theorems wire
named_theorems mem

text \<open>
  \<open>size_t\<close> values are natural numbers below $2^{64}$; the subtraction \<open>a - b\<close> of the code
  wraps around when \<open>b\<close> is larger, and is written out.
\<close>

definition size_minus :: "nat \<Rightarrow> nat \<Rightarrow> nat" where
  "size_minus a b = (if b \<le> a then a - b else 2 ^ 64 + a - b)"

lemma size_minus_le [simp]: "b \<le> a \<Longrightarrow> size_minus a b = a - b"
  by (simp add: size_minus_def)

lemma unat_u8_less [simp]: "unat (b :: u8) < 256"
  using unsigned_less [of b] by simp

lemma unat_u8_le [simp]: "unat (b :: u8) \<le> 255"
  using unat_u8_less [of b] by linarith

lemma unat_u16_less [simp]: "unat (w :: u16) < 65536"
  using unsigned_less [of w] by simp

lemma unat_u32_less [simp]: "unat (w :: u32) < 4294967296"
  using unsigned_less [of w] by simp

lemma unat_of_nat_u8: "unat (of_nat n :: u8) = n mod 256"
  by (simp add: unat_of_nat)

lemma unat_of_nat_u16: "unat (of_nat n :: u16) = n mod 65536"
  by (simp add: unat_of_nat)

lemma unat_of_nat_u32: "unat (of_nat n :: u32) = n mod 4294967296"
  by (simp add: unat_of_nat)

lemma unat_of_nat_u32_small [simp]: "n < 4294967296 \<Longrightarrow> unat (of_nat n :: u32) = n"
  by (simp add: unat_of_nat_u32)

lemma unat_of_nat_u8_small [simp]: "n < 256 \<Longrightarrow> unat (of_nat n :: u8) = n"
  by (simp add: unat_of_nat_u8)

lemma unat_of_nat_u16_small [simp]: "n < 65536 \<Longrightarrow> unat (of_nat n :: u16) = n"
  by (simp add: unat_of_nat_u16)

text \<open>Offsets of the wire format in one normal form.\<close>

lemma offset_norm:
  "Suc (Suc (Suc n)) = 3 + n" "Suc (3 + n) = 4 + n" "Suc (4 + n) = 5 + n" "Suc (5 + n) = 6 + n"
  "Suc (6 + n) = 7 + n" "Suc (7 + n) = 8 + n"
  by simp_all

section \<open>Memory reads\<close>

text \<open>
  A C object is the list of its bytes.  A pointer into an object is the list of the bytes
  from it to the end of the object, so that a read past the end has no byte to return.
\<close>

definition rd :: "'a list \<Rightarrow> nat \<Rightarrow> 'a option" where
  "rd xs i = (if i < length xs then Some (xs ! i) else None)"

lemma rd_Some [mem]: "i < length xs \<Longrightarrow> rd xs i = Some (xs ! i)"
  by (simp add: rd_def)

lemma rd_None [mem]: "length xs \<le> i \<Longrightarrow> rd xs i = None"
  by (simp add: rd_def)

lemma rd_eq_None [simp]: "rd xs i = None \<longleftrightarrow> length xs \<le> i"
  by (auto simp: rd_def)

lemma rd_SomeD: "rd xs i = Some b \<Longrightarrow> i < length xs \<and> b = xs ! i"
  by (auto simp: rd_def split: if_splits)

text \<open>\<open>memcpy (dst, p, n)\<close> reads \<open>n\<close> bytes from \<open>p\<close>; a null pointer has no byte.\<close>

definition mem_read :: "u8 list option \<Rightarrow> nat \<Rightarrow> u8 list option" where
  "mem_read p n =
     (if n = 0 then Some []
      else case p of None \<Rightarrow> None
           | Some bs \<Rightarrow> (if n \<le> length bs then Some (take n bs) else None))"

lemma mem_read_0 [simp]: "mem_read p 0 = Some []"
  by (simp add: mem_read_def)

lemma mem_read_Some [mem]: "n \<le> length bs \<Longrightarrow> mem_read (Some bs) n = Some (take n bs)"
  by (simp add: mem_read_def)

lemma mem_read_length: "mem_read p n = Some bs \<Longrightarrow> length bs = n"
  by (auto simp: mem_read_def split: if_splits option.splits)

text \<open>
  A \<open>char *\<close> read by the string functions of the C library is the bytes before the first
  zero byte; \<open>None\<close> when the object holds none, because \<open>strlen\<close> would leave it.
\<close>

definition cstr :: "u8 list \<Rightarrow> u8 list" where
  "cstr bs = takeWhile (\<lambda>b. b \<noteq> 0) bs"

lemma cstr_no_nul: "0 \<notin> set (cstr bs)"
  by (auto simp: cstr_def dest: set_takeWhileD)

lemma cstr_id [simp]: "0 \<notin> set bs \<Longrightarrow> cstr bs = bs"
  by (auto simp: cstr_def intro: takeWhile_eq_all_conv [THEN iffD2])

lemma cstr_append_nul [simp]: "0 \<notin> set bs \<Longrightarrow> cstr (bs @ 0 # rest) = bs"
  by (induction bs) (auto simp: cstr_def)

lemma cstr_snoc [simp]: "cstr (bs @ [0]) = cstr bs"
  by (induction bs) (auto simp: cstr_def)

lemma length_cstr: "length (cstr bs) \<le> length bs"
  by (simp add: cstr_def length_takeWhile_le)

section \<open>Allocation\<close>

text \<open>
  Whether a \<open>malloc\<close>, \<open>strdup\<close>, \<open>calloc\<close> or \<open>realloc\<close> succeeds is decided outside the
  program.  The components that test the result take the outcomes as a list, one per call
  in the order the code makes them; past its end every call succeeds.  \<open>[]\<close> is therefore
  a run with enough memory.
\<close>

type_synonym alloc = "bool list"

fun malloc :: "alloc \<Rightarrow> bool \<times> alloc" where
  "malloc [] = (True, [])"
| "malloc (b # bs) = (b, bs)"

section \<open>Outcomes of an operation\<close>

text \<open>
  An operation on shared state ends in a value, in a memory access outside its object
  (\<open>Fault\<close>: undefined behaviour of the C program, after which nothing is known), or waiting
  for a lock that nobody will release (\<open>Blocked\<close>).
\<close>

datatype 'a outcome = Ok 'a | Fault | Blocked

fun obind :: "'a outcome \<Rightarrow> ('a \<Rightarrow> 'b outcome) \<Rightarrow> 'b outcome" where
  "obind (Ok x) f = f x"
| "obind Fault f = Fault"
| "obind Blocked f = Blocked"

lemma obind_Ok [simp]: "obind x Ok = x"
  by (cases x) auto

lemma obind_assoc: "obind (obind x f) g = obind x (\<lambda>y. obind (f y) g)"
  by (cases x) auto

lemma obind_eq_Ok: "obind x f = Ok y \<longleftrightarrow> (\<exists>z. x = Ok z \<and> f z = Ok y)"
  by (cases x) auto

text \<open>Dereferencing a pointer into a heap.\<close>

definition deref :: "('a \<Rightarrow> 'b option) \<Rightarrow> 'a option \<Rightarrow> 'b outcome" where
  "deref h p = (case p of None \<Rightarrow> Fault
                | Some a \<Rightarrow> (case h a of None \<Rightarrow> Fault | Some x \<Rightarrow> Ok x))"

lemma deref_simps [simp]:
  "deref h None = Fault"
  "h a = Some x \<Longrightarrow> deref h (Some a) = Ok x"
  "h a = None \<Longrightarrow> deref h (Some a) = Fault"
  by (simp_all add: deref_def)

section \<open>Splitting at a separator\<close>

text \<open>The levels of a topic: the maximal runs between separators, empty ones included.\<close>

fun split_at :: "'a \<Rightarrow> 'a list \<Rightarrow> 'a list list" where
  "split_at s [] = [[]]"
| "split_at s (x # xs) =
     (if x = s then [] # split_at s xs
      else case split_at s xs of [] \<Rightarrow> [[x]] | l # ls \<Rightarrow> (x # l) # ls)"

lemma split_at_ne [simp]: "split_at s xs \<noteq> []"
  by (induction xs) (auto split: list.splits)

lemma split_at_no_sep: "\<forall>l \<in> set (split_at s xs). s \<notin> set l"
proof (induction xs)
  case (Cons x xs)
  then show ?case by (cases "split_at s xs") auto
qed simp

lemma split_at_atom: "s \<notin> set xs \<Longrightarrow> split_at s xs = [xs]"
  by (induction xs) auto

lemma split_at_append: "s \<notin> set xs \<Longrightarrow> split_at s (xs @ s # ys) = xs # split_at s ys"
  by (induction xs) auto

fun join_with :: "'a \<Rightarrow> 'a list list \<Rightarrow> 'a list" where
  "join_with s [] = []"
| "join_with s [l] = l"
| "join_with s (l # ls) = l @ s # join_with s ls"

lemma join_with_Cons: "ls \<noteq> [] \<Longrightarrow> join_with s (l # ls) = l @ s # join_with s ls"
  by (cases ls) auto

lemma join_split: "join_with s (split_at s xs) = xs"
proof (induction xs)
  case (Cons x xs)
  show ?case
  proof (cases "split_at s xs")
    case (Cons l ls)
    with Cons.IH show ?thesis by (cases ls) (auto simp: join_with_Cons)
  qed simp
qed simp

lemma split_join:
  "ls \<noteq> [] \<Longrightarrow> (\<forall>l \<in> set ls. s \<notin> set l) \<Longrightarrow> split_at s (join_with s ls) = ls"
  by (induction s ls rule: join_with.induct) (auto simp: split_at_atom split_at_append)

lemma split_at_inj: "split_at s xs = split_at s ys \<longleftrightarrow> xs = ys"
  by (metis join_split)

end
