(* ===== verification/Mqtt_Types.thy ===== *)
theory Mqtt_Types
  imports Mumq_Prelude
begin

text \<open>
  The data of \<open>broker/mqtt.h\<close>: message types, parser states and results, and the message
  itself.  The C message is a union whose variants share their storage; a message is
  zeroed when it is made and only the variant of its own type is used afterwards, so the
  variants are fields of one record here.  That the parser keeps to the variant of the
  message type is proved in the parser's theory.
\<close>

section \<open>Enumerations\<close>

text \<open>
  Enumerations that hold bits taken off the wire are unsigned integers in the code (a type
  nibble need not be one of the named types); the named values are abbreviations.
\<close>

abbreviation (input) MQTT_TYPE_CONNECT :: u32 where "MQTT_TYPE_CONNECT \<equiv> 1"
abbreviation (input) MQTT_TYPE_CONNACK :: u32 where "MQTT_TYPE_CONNACK \<equiv> 2"
abbreviation (input) MQTT_TYPE_PUBLISH :: u32 where "MQTT_TYPE_PUBLISH \<equiv> 3"
abbreviation (input) MQTT_TYPE_SUBSCRIBE :: u32 where "MQTT_TYPE_SUBSCRIBE \<equiv> 8"
abbreviation (input) MQTT_TYPE_SUBACK :: u32 where "MQTT_TYPE_SUBACK \<equiv> 9"
abbreviation (input) MQTT_TYPE_UNSUBSCRIBE :: u32 where "MQTT_TYPE_UNSUBSCRIBE \<equiv> 10"
abbreviation (input) MQTT_TYPE_UNSUBACK :: u32 where "MQTT_TYPE_UNSUBACK \<equiv> 11"
abbreviation (input) MQTT_TYPE_PINGREQ :: u32 where "MQTT_TYPE_PINGREQ \<equiv> 12"
abbreviation (input) MQTT_TYPE_PINGRESP :: u32 where "MQTT_TYPE_PINGRESP \<equiv> 13"
abbreviation (input) MQTT_TYPE_DISCONNECT :: u32 where "MQTT_TYPE_DISCONNECT \<equiv> 14"

datatype mqtt_error =
    MQTT_ERROR_NONE
  | MQTT_ERROR_PARSER_INVALID_STATE
  | MQTT_ERROR_PARSER_INVALID_REMAINING_LENGTH
  | MQTT_ERROR_PARSER_INVALID_MESSAGE_ID
  | MQTT_ERROR_SERIALISER_INVALID_MESSAGE_ID

datatype mqtt_parser_rc =
    MQTT_PARSER_RC_ERROR
  | MQTT_PARSER_RC_CONTINUE
  | MQTT_PARSER_RC_INCOMPLETE
  | MQTT_PARSER_RC_MORE_READ
  | MQTT_PARSER_RC_DONE
  | MQTT_PARSER_RC_WANT_MEMORY

datatype mqtt_parser_state =
    MQTT_PARSER_STATE_INITIAL
  | MQTT_PARSER_STATE_REMAINING_LENGTH
  | MQTT_PARSER_STATE_VARIABLE_HEADER
  | MQTT_PARSER_STATE_CONNECT
  | MQTT_PARSER_STATE_CONNECT_PROTOCOL_NAME
  | MQTT_PARSER_STATE_CONNECT_PROTOCOL_VERSION
  | MQTT_PARSER_STATE_CONNECT_FLAGS
  | MQTT_PARSER_STATE_CONNECT_KEEP_ALIVE
  | MQTT_PARSER_STATE_CONNECT_CLIENT_IDENTIFIER
  | MQTT_PARSER_STATE_CONNECT_WILL_TOPIC
  | MQTT_PARSER_STATE_CONNECT_WILL_MESSAGE
  | MQTT_PARSER_STATE_CONNECT_USERNAME
  | MQTT_PARSER_STATE_CONNECT_PASSWORD
  | MQTT_PARSER_STATE_CONNACK
  | MQTT_PARSER_STATE_PUBLISH
  | MQTT_PARSER_STATE_PUBLISH_TOPIC_NAME
  | MQTT_PARSER_STATE_PUBLISH_MESSAGE_ID
  | MQTT_PARSER_STATE_PUBLISH_MESSAGE
  | MQTT_PARSER_STATE_PUBACK
  | MQTT_PARSER_STATE_PUBREC
  | MQTT_PARSER_STATE_PUBREL
  | MQTT_PARSER_STATE_PUBCOMP
  | MQTT_PARSER_STATE_SUBSCRIBE
  | MQTT_PARSER_STATE_SUBSCRIBE_TOPIC_NAME
  | MQTT_PARSER_STATE_PINGREQ

datatype mqtt_serialiser_rc =
    MQTT_SERIALISER_RC_ERROR
  | MQTT_SERIALISER_RC_SUCCESS

section \<open>Structures\<close>

text \<open>\<open>bdata\<close> is the bytes from the buffer's pointer to the end of the object it points into.\<close>

record mqtt_buffer =
  blen :: u32
  bdata :: "u8 list option"

record mqtt_topicpair =
  tp_name :: mqtt_buffer
  tp_qos :: u32

record connect_flags =
  username_follows :: u8
  password_follows :: u8
  will_retain :: u8
  will_qos :: u8
  will :: u8
  clean_session :: u8

record mqtt_connect =
  protocol_name :: mqtt_buffer
  protocol_version :: u8
  flags :: connect_flags
  keep_alive :: u16
  client_id :: mqtt_buffer
  will_topic :: mqtt_buffer
  will_message :: mqtt_buffer
  username :: mqtt_buffer
  password :: mqtt_buffer

record mqtt_connack =
  ca_unused :: u8
  ca_return_code :: u8

record mqtt_publish =
  topic_name :: mqtt_buffer
  pub_message_id :: u16
  content :: mqtt_buffer

record mqtt_subscribe =
  sub_message_id :: u16
  topics :: "mqtt_topicpair option"

record mqtt_suback =
  sa_message_id :: u16
  sa_return_code :: u8

record mqtt_message =
  m_retain :: u32
  m_qos :: u32
  m_dup :: u32
  m_type :: u32
  m_length :: u32
  m_connect :: mqtt_connect
  m_connack :: mqtt_connack
  m_publish :: mqtt_publish
  m_subscribe :: mqtt_subscribe
  m_suback :: mqtt_suback

record mqtt_parser =
  p_rc :: mqtt_parser_rc
  p_state :: mqtt_parser_state
  p_error :: mqtt_error
  p_buffer_pending :: u8
  p_buffer :: "u8 list option"
  p_buffer_length :: nat
  p_pay_length :: nat

section \<open>Zeroed storage\<close>

definition buffer0 :: mqtt_buffer where
  "buffer0 = \<lparr>blen = 0, bdata = None\<rparr>"

definition topicpair0 :: mqtt_topicpair where
  "topicpair0 = \<lparr>tp_name = buffer0, tp_qos = 0\<rparr>"

definition connect0 :: mqtt_connect where
  "connect0 = \<lparr>protocol_name = buffer0, protocol_version = 0,
     flags = \<lparr>username_follows = 0, password_follows = 0, will_retain = 0, will_qos = 0,
              will = 0, clean_session = 0\<rparr>,
     keep_alive = 0, client_id = buffer0, will_topic = buffer0, will_message = buffer0,
     username = buffer0, password = buffer0\<rparr>"

definition message0 :: mqtt_message where
  "message0 = \<lparr>m_retain = 0, m_qos = 0, m_dup = 0, m_type = 0, m_length = 0,
     m_connect = connect0,
     m_connack = \<lparr>ca_unused = 0, ca_return_code = 0\<rparr>,
     m_publish = \<lparr>topic_name = buffer0, pub_message_id = 0, content = buffer0\<rparr>,
     m_subscribe = \<lparr>sub_message_id = 0, topics = None\<rparr>,
     m_suback = \<lparr>sa_message_id = 0, sa_return_code = 0\<rparr>\<rparr>"

text \<open>\<open>memset (parser, 0)\<close>: the enumerators with value zero.\<close>

definition parser0 :: mqtt_parser where
  "parser0 = \<lparr>p_rc = MQTT_PARSER_RC_ERROR, p_state = MQTT_PARSER_STATE_INITIAL,
     p_error = MQTT_ERROR_NONE, p_buffer_pending = 0, p_buffer = None,
     p_buffer_length = 0, p_pay_length = 0\<rparr>"

text \<open>\<open>mqtt_message_init\<close> makes a zeroed message, \<open>free_mqtt_msg\<close> leaves a null pointer.\<close>

definition mqtt_message_init :: "mqtt_message option" where
  "mqtt_message_init = Some message0"

definition free_mqtt_msg :: "mqtt_message option \<Rightarrow> mqtt_message option" where
  "free_mqtt_msg msg = (case msg of None \<Rightarrow> msg | Some _ \<Rightarrow> None)"

lemma free_mqtt_msg_None [simp]: "free_mqtt_msg msg = None"
  by (simp add: free_mqtt_msg_def split: option.splits)

lemmas zero_defs = buffer0_def topicpair0_def connect0_def message0_def parser0_def

text \<open>The fields of zeroed storage that the examples look at.\<close>

lemma zero_fields:
  "m_type message0 = 0" "m_qos message0 = 0" "m_length message0 = 0"
  "topics (m_subscribe message0) = None" "p_state parser0 = MQTT_PARSER_STATE_INITIAL"
  "parser0\<lparr>p_state := MQTT_PARSER_STATE_INITIAL\<rparr> = parser0"
  by (simp_all add: message0_def parser0_def)

end
