(* ===== verification/Uthash.thy ===== *)
theory Uthash
  imports Mumq_Prelude
begin

text \<open>
  The hash table of \<open>broker/uthash.h\<close>, whose macros are expanded for one element type: every
  element has a handle with its links in application order (\<open>prev\<close>, \<open>next_el\<close> for \<open>next\<close>)
  and its links in the chain of its bucket (\<open>hh_prev\<close>, \<open>hh_next\<close>).  A pointer to an element or
  to its handle is the element.  The table is reached through the head of the list, \<open>tbl\<close>
  being \<^const>\<open>None\<close> once it is freed.  Unsigned counters are natural numbers, with the
  wrap-around of a decrement written out; bucket numbers stay far below $2^{32}$.  The Bloom
  filter and the integrity check are compiled out, as in this build, and \<open>uthash_fatal\<close> exits.
\<close>

unbundle bit_operations_syntax

section \<open>Data\<close>

record 'e ut_hash_handle =
  prev :: "'e option"
  next_el :: "'e option"
  hh_prev :: "'e option"
  hh_next :: "'e option"
  hashv :: u32

record 'e ut_hash_bucket =
  hh_head :: "'e option"
  bkt_count :: nat
  expand_mult :: nat

record 'e ut_hash_table =
  buckets :: "'e ut_hash_bucket list"
  num_buckets :: nat
  log2_num_buckets :: nat
  num_items :: nat
  tail :: 'e
  ideal_chain_maxlen :: nat
  nonideal_items :: nat
  ineff_expands :: nat
  noexpand :: nat

type_synonym 'e handles = "'e \<Rightarrow> 'e ut_hash_handle"

record 'e hash_state =
  handles :: "'e handles"
  head :: "'e option"
  tbl :: "'e ut_hash_table option"

definition handle0 :: "'e ut_hash_handle" where
  "handle0 = \<lparr>prev = None, next_el = None, hh_prev = None, hh_next = None, hashv = 0\<rparr>"

definition bucket0 :: "'e ut_hash_bucket" where
  "bucket0 = \<lparr>hh_head = None, bkt_count = 0, expand_mult = 0\<rparr>"

abbreviation (input) HASH_INITIAL_NUM_BUCKETS :: nat where "HASH_INITIAL_NUM_BUCKETS \<equiv> 32"
abbreviation (input) HASH_INITIAL_NUM_BUCKETS_LOG2 :: nat where "HASH_INITIAL_NUM_BUCKETS_LOG2 \<equiv> 5"
abbreviation (input) HASH_BKT_CAPACITY_THRESH :: nat where "HASH_BKT_CAPACITY_THRESH \<equiv> 10"

definition dec32 :: "nat \<Rightarrow> nat" where
  "dec32 n = (if n = 0 then 4294967295 else n - 1)"

section \<open>The Jenkins hash\<close>

definition hash_jen_mix :: "u32 \<times> u32 \<times> u32 \<Rightarrow> u32 \<times> u32 \<times> u32" where
  "hash_jen_mix = (\<lambda>(a, b, c).
     let a = a - b - c; a = a XOR drop_bit 13 c;
         b = b - c - a; b = b XOR push_bit 8 a;
         c = c - a - b; c = c XOR drop_bit 13 b;
         a = a - b - c; a = a XOR drop_bit 12 c;
         b = b - c - a; b = b XOR push_bit 16 a;
         c = c - a - b; c = c XOR drop_bit 5 b;
         a = a - b - c; a = a XOR drop_bit 3 c;
         b = b - c - a; b = b XOR push_bit 10 a;
         c = c - a - b; c = c XOR drop_bit 15 b
     in (a, b, c))"

text \<open>The bytes \<open>i, i + 1, \<dots>\<close> of the key as a little-endian word; missing bytes count as zero.\<close>

definition le_word :: "u8 list \<Rightarrow> nat \<Rightarrow> nat \<Rightarrow> u32" where
  "le_word key i n = sum_list (map (\<lambda>j. if i + j < length key
     then push_bit (8 * j) (ucast (key ! (i + j))) else 0) [0..<n])"

text \<open>
  The loop over blocks of twelve bytes, and the switch over the bytes left: its cases fall
  through, so that every byte left is added at its place, the last block one byte higher.
\<close>

function hash_jen_loop :: "u8 list \<Rightarrow> u32 \<times> u32 \<times> u32 \<Rightarrow> u8 list \<times> u32 \<times> u32 \<times> u32" where
  "hash_jen_loop key (i, j, hv) =
     (if 12 \<le> length key
      then hash_jen_loop (drop 12 key)
             (hash_jen_mix (i + le_word key 0 4, j + le_word key 4 4, hv + le_word key 8 4))
      else (key, i, j, hv))"
  by pat_completeness auto
termination
  by (relation "measure (\<lambda>(key, _). length key)") auto

declare hash_jen_loop.simps [simp del]

definition hash_jen :: "u8 list \<Rightarrow> u32" where
  "hash_jen key =
     (case hash_jen_loop key (0x9e3779b9, 0x9e3779b9, 0xfeedbeef) of
        (rest, i, j, hv) \<Rightarrow>
          (case hash_jen_mix (i + le_word rest 0 4, j + le_word rest 4 4,
                  hv + of_nat (length key) + push_bit 8 (le_word rest 8 3)) of
             (_, _, hv) \<Rightarrow> hv))"

section \<open>Buckets\<close>

definition hash_to_bkt :: "u32 \<Rightarrow> nat \<Rightarrow> nat" where
  "hash_to_bkt hv num_bkts = (unat hv AND (num_bkts - 1))"

text \<open>Putting a handle at the front of a bucket's chain.\<close>

definition set_hh :: "'e \<Rightarrow> ('e ut_hash_handle \<Rightarrow> 'e ut_hash_handle) \<Rightarrow> 'e handles \<Rightarrow> 'e handles" where
  "set_hh e f hs = hs(e := f (hs e))"

definition push_bkt :: "'e \<Rightarrow> 'e handles \<Rightarrow> 'e ut_hash_bucket \<Rightarrow> 'e handles \<times> 'e ut_hash_bucket" where
  "push_bkt e hs b =
     (let hs = set_hh e (\<lambda>h. h\<lparr>hh_next := hh_head b, hh_prev := None\<rparr>) hs;
          hs = (case hh_head b of None \<Rightarrow> hs | Some x \<Rightarrow> set_hh x (\<lambda>h. h\<lparr>hh_prev := Some e\<rparr>) hs)
      in (hs, b\<lparr>hh_head := Some e\<rparr>))"

text \<open>
  \<open>HASH_EXPAND_BUCKETS\<close>: the chain of one old bucket is moved to the new buckets.  A chain
  with more elements than the table has would be a cycle, on which the code loops for ever.
\<close>

fun expand_chain ::
  "nat \<Rightarrow> 'e option \<Rightarrow> nat \<Rightarrow> nat \<Rightarrow> 'e handles \<times> 'e ut_hash_bucket list \<times> nat \<Rightarrow>
   ('e handles \<times> 'e ut_hash_bucket list \<times> nat) outcome" where
  "expand_chain fuel None num ideal st = Ok st"
| "expand_chain 0 (Some e) num ideal st = Blocked"
| "expand_chain (Suc fuel) (Some e) num ideal (hs, bs, nonideal) =
     (let nxt = hh_next (hs e); i = hash_to_bkt (hashv (hs e)) num; b = bs ! i;
          b = b\<lparr>bkt_count := bkt_count b + 1\<rparr>;
          (nonideal, b) = (if ideal < bkt_count b
             then (nonideal + 1, b\<lparr>expand_mult := bkt_count b div ideal\<rparr>) else (nonideal, b));
          (hs, b) = push_bkt e hs b
      in expand_chain fuel nxt num ideal (hs, bs[i := b], nonideal))"

fun expand_all ::
  "nat \<Rightarrow> 'e ut_hash_bucket list \<Rightarrow> nat \<Rightarrow> nat \<Rightarrow> 'e handles \<times> 'e ut_hash_bucket list \<times> nat \<Rightarrow>
   ('e handles \<times> 'e ut_hash_bucket list \<times> nat) outcome" where
  "expand_all fuel [] num ideal st = Ok st"
| "expand_all fuel (b # bs) num ideal st =
     obind (expand_chain fuel (hh_head b) num ideal st) (expand_all fuel bs num ideal)"

definition hash_expand_buckets ::
  "'e handles \<Rightarrow> 'e ut_hash_table \<Rightarrow> ('e handles \<times> 'e ut_hash_table) outcome" where
  "hash_expand_buckets hs t =
     (let num = num_buckets t * 2;
          ideal = drop_bit (log2_num_buckets t + 1) (num_items t) +
            (if num_items t AND (num - 1) \<noteq> 0 then 1 else 0)
      in obind (expand_all (num_items t) (buckets t) num ideal (hs, replicate num bucket0, 0))
           (\<lambda>(hs, bs, nonideal).
              let ineff = (if drop_bit 1 (num_items t) < nonideal then ineff_expands t + 1 else 0)
              in Ok (hs, t\<lparr>buckets := bs, num_buckets := num, log2_num_buckets := log2_num_buckets t + 1,
                     ideal_chain_maxlen := ideal, nonideal_items := nonideal, ineff_expands := ineff,
                     noexpand := (if 1 < ineff then 1 else noexpand t)\<rparr>)))"

definition hash_add_to_bkt ::
  "nat \<Rightarrow> 'e \<Rightarrow> 'e handles \<Rightarrow> 'e ut_hash_table \<Rightarrow> ('e handles \<times> 'e ut_hash_table) outcome" where
  "hash_add_to_bkt i e hs t =
     (let b = buckets t ! i;
          (hs, b) = push_bkt e hs (b\<lparr>bkt_count := bkt_count b + 1\<rparr>);
          t = t\<lparr>buckets := (buckets t)[i := b]\<rparr>
      in if (expand_mult b + 1) * HASH_BKT_CAPACITY_THRESH \<le> bkt_count b \<and> noexpand t \<noteq> 1
         then hash_expand_buckets hs t else Ok (hs, t))"

definition hash_del_in_bkt :: "'e \<Rightarrow> 'e handles \<Rightarrow> 'e ut_hash_bucket \<Rightarrow> 'e handles \<times> 'e ut_hash_bucket" where
  "hash_del_in_bkt e hs b =
     (let b = b\<lparr>bkt_count := dec32 (bkt_count b)\<rparr>;
          b = (if hh_head b = Some e then b\<lparr>hh_head := hh_next (hs e)\<rparr> else b);
          hs = (case hh_prev (hs e) of None \<Rightarrow> hs
                | Some x \<Rightarrow> set_hh x (\<lambda>h. h\<lparr>hh_next := hh_next (hs e)\<rparr>) hs);
          hs = (case hh_next (hs e) of None \<Rightarrow> hs
                | Some x \<Rightarrow> set_hh x (\<lambda>h. h\<lparr>hh_prev := hh_prev (hs e)\<rparr>) hs)
      in (hs, b))"

section \<open>The operations\<close>

definition hash_make_table :: "'e \<Rightarrow> 'e ut_hash_table" where
  "hash_make_table e = \<lparr>buckets = replicate HASH_INITIAL_NUM_BUCKETS bucket0,
     num_buckets = HASH_INITIAL_NUM_BUCKETS, log2_num_buckets = HASH_INITIAL_NUM_BUCKETS_LOG2,
     num_items = 0, tail = e, ideal_chain_maxlen = 0, nonideal_items = 0, ineff_expands = 0,
     noexpand = 0\<rparr>"

text \<open>\<open>key\<close> is the bytes of the key field of \<open>e\<close> at the time of the call.\<close>

definition hash_add :: "u8 list \<Rightarrow> 'e \<Rightarrow> 'e hash_state \<Rightarrow> 'e hash_state outcome" where
  "hash_add key e H =
     (let hs = set_hh e (\<lambda>h. h\<lparr>next_el := None\<rparr>) (handles H)
      in obind
           (case head H of
              None \<Rightarrow> Ok (Some e, set_hh e (\<lambda>h. h\<lparr>prev := None\<rparr>) hs, hash_make_table e)
            | Some h0 \<Rightarrow>
                (case tbl H of None \<Rightarrow> Fault
                 | Some t \<Rightarrow>
                     let hs = set_hh (tail t) (\<lambda>h. h\<lparr>next_el := Some e\<rparr>) hs
                     in Ok (Some h0, set_hh e (\<lambda>h. h\<lparr>prev := Some (tail t)\<rparr>) hs, t\<lparr>tail := e\<rparr>)))
           (\<lambda>(h0, hs, t).
              let t = t\<lparr>num_items := num_items t + 1\<rparr>;
                  hs = set_hh e (\<lambda>h. h\<lparr>hashv := hash_jen key\<rparr>) hs
              in obind (hash_add_to_bkt (hash_to_bkt (hash_jen key) (num_buckets t)) e hs t)
                   (\<lambda>(hs, t). Ok \<lparr>handles = hs, head = h0, tbl = Some t\<rparr>)))"

text \<open>The patch-up of the list in application order.\<close>

definition app_unlink :: "'e \<Rightarrow> 'e handles \<Rightarrow> 'e handles" where
  "app_unlink e hs =
     (let hs = (case prev (hs e) of None \<Rightarrow> hs
                | Some x \<Rightarrow> set_hh x (\<lambda>h. h\<lparr>next_el := next_el (hs e)\<rparr>) hs)
      in case next_el (hs e) of None \<Rightarrow> hs
         | Some x \<Rightarrow> set_hh x (\<lambda>h. h\<lparr>prev := prev (hs e)\<rparr>) hs)"

text \<open>
  \<open>HASH_DELETE\<close>.  The first test looks only at the links of \<open>e\<close>: it takes any element with
  two null links for the only one of the table and frees the table.  (A tail without
  predecessor would make the new tail a wild pointer.)
\<close>

definition hash_delete :: "'e \<Rightarrow> 'e hash_state \<Rightarrow> 'e hash_state outcome" where
  "hash_delete e H =
     (case (head H, tbl H) of
        (Some h0, Some t) \<Rightarrow>
          (let hs = handles H; p = prev (hs e); n = next_el (hs e)
           in if p = None \<and> n = None then Ok (H\<lparr>head := None, tbl := None\<rparr>)
              else if e = tail t \<and> p = None then Fault
              else
                let t = (if e = tail t then t\<lparr>tail := the p\<rparr> else t);
                    h0 = (if p \<noteq> None then Some h0 else n);
                    hs = app_unlink e hs;
                    i = hash_to_bkt (hashv (hs e)) (num_buckets t);
                    (hs, b) = hash_del_in_bkt e hs (buckets t ! i)
                in Ok \<lparr>handles = hs, head = h0,
                     tbl = Some (t\<lparr>buckets := (buckets t)[i := b], num_items := dec32 (num_items t)\<rparr>)\<rparr>)
      | _ \<Rightarrow> Fault)"

text \<open>\<open>key\<close> gives the bytes an element's key pointer refers to at the time of the call.\<close>

fun hash_find_in_bkt :: "nat \<Rightarrow> ('e \<Rightarrow> u8 list) \<Rightarrow> 'e handles \<Rightarrow> u8 list \<Rightarrow> 'e option \<Rightarrow> 'e option outcome" where
  "hash_find_in_bkt fuel key hs k None = Ok None"
| "hash_find_in_bkt 0 key hs k (Some e) = Blocked"
| "hash_find_in_bkt (Suc fuel) key hs k (Some e) =
     (if key e = k then Ok (Some e) else hash_find_in_bkt fuel key hs k (hh_next (hs e)))"

definition hash_find :: "('e \<Rightarrow> u8 list) \<Rightarrow> u8 list \<Rightarrow> 'e hash_state \<Rightarrow> 'e option outcome" where
  "hash_find key k H =
     (case head H of None \<Rightarrow> Ok None
      | Some _ \<Rightarrow> (case tbl H of None \<Rightarrow> Fault
        | Some t \<Rightarrow> hash_find_in_bkt (num_items t) key (handles H) k
            (hh_head (buckets t ! hash_to_bkt (hash_jen k) (num_buckets t)))))"

definition hash_cnt :: "'e hash_state \<Rightarrow> nat outcome" where
  "hash_cnt H = (case head H of None \<Rightarrow> Ok 0
     | Some _ \<Rightarrow> (case tbl H of None \<Rightarrow> Fault | Some t \<Rightarrow> Ok (num_items t)))"

definition hash_clear :: "'e hash_state \<Rightarrow> 'e hash_state outcome" where
  "hash_clear H = (case head H of None \<Rightarrow> Ok H
     | Some _ \<Rightarrow> (case tbl H of None \<Rightarrow> Fault | Some t \<Rightarrow> Ok (H\<lparr>head := None, tbl := None\<rparr>)))"

text \<open>The application-order loop \<open>for (el = head; el != NULL; el = el->hh.next)\<close>, as the elements visited.\<close>

fun hash_walk :: "nat \<Rightarrow> 'e handles \<Rightarrow> 'e option \<Rightarrow> 'e list outcome" where
  "hash_walk fuel hs None = Ok []"
| "hash_walk 0 hs (Some e) = Blocked"
| "hash_walk (Suc fuel) hs (Some e) = obind (hash_walk fuel hs (next_el (hs e))) (\<lambda>es. Ok (e # es))"

end
