(* ===== verification/Broker_Types.thy ===== *)
theory Broker_Types
  imports Mqtt_Types Uthash
begin

text \<open>
  The data of \<open>broker/client.h\<close>, \<open>broker/substree.h\<close>, \<open>broker/event_io.h\<close> and
  \<open>broker/broker.h\<close>.  A \<open>struct client *\<close> is the index of its slot in the broker's array
  \<open>clients\<close>; a \<open>struct subhier *\<close> held by a client is the path of the node from the root.
  The packets a client has allocated form a heap of their own, so that the links between
  them are the pointers of the code.  Locks are left out except \<open>root_lock\<close>: a handler
  is one step here, and the theories \<open>Queue_Threads\<close> and \<open>Tree_Threads\<close> break into steps what
  several threads share; counters that the code never reads are left out.
\<close>

type_synonym token = "u8 list"
type_synonym slot = nat
type_synonym addr = nat

section \<open>Packets and clients\<close>

record packet =
  send_buf :: "u8 list"
  wcur :: u32
  wlen :: u32
  pnext :: "addr option"

datatype client_state =
    cs_new | cs_connected | cs_disconnecting | cs_connect_async | cs_connect_pending
  | cs_connect_srv | cs_disconnect_ws | cs_disconnected | cs_expiring

text \<open>
  \<open>cid\<close> is the array \<open>char id[24]\<close>.  \<open>subs\<close> is the array the code keeps with its length
  \<open>sub_count\<close>.  \<open>hh\<close> is the client's handle in the hash table of all clients of a thread.
\<close>

record client =
  sock :: int
  epoll_id :: int
  cid :: "u8 list"
  last_mid :: u16
  cstate :: client_state
  in_packet :: "mqtt_message option"
  in_parser :: mqtt_parser
  out_packet :: "mqtt_message option"
  snd_num :: u32
  packets :: "addr \<Rightarrow> packet option"
  next_addr :: addr
  sending_packet :: "addr option"
  sending_packet_tail :: "addr option"
  sending_cur_packet :: "addr option"
  num_sending_pack :: int
  remaining_count :: int
  remaining_mult :: u32
  in_payload :: "u8 list option"
  in_to_process :: u32
  in_cur :: u32
  is_subscribe :: bool
  subs :: "token list option list"
  hh :: "slot ut_hash_handle"
  itself :: "slot option"

definition client0 :: client where
  "client0 = \<lparr>sock = 0, epoll_id = 0, cid = replicate 24 0, last_mid = 0, cstate = cs_new,
     in_packet = None, in_parser = parser0, out_packet = None, snd_num = 0,
     packets = (\<lambda>_. None), next_addr = 0, sending_packet = None, sending_packet_tail = None,
     sending_cur_packet = None, num_sending_pack = 0, remaining_count = 0, remaining_mult = 0,
     in_payload = None, in_to_process = 0, in_cur = 0, is_subscribe = False, subs = [],
     hh = handle0, itself = None\<rparr>"

section \<open>Subscriptions\<close>

record subleaf =
  l_context :: slot
  l_qos :: int

datatype subhier =
  Subhier (sh_topic: token) (sh_subs: "subleaf list") (sh_children: "subhier list")

section \<open>Threads and the broker\<close>

text \<open>
  \<open>contexts_by_ptr\<close> is the head of the thread's hash table of clients and \<open>ctx_tbl\<close> the table
  behind it; \<open>watched\<close> is the list of descriptors registered with the thread's epoll instance
  and \<open>open_fds\<close> the sockets the thread has opened and not closed.  The array \<open>fds\<close> is
  left out: the loop reads the events of a descriptor right after it has stored them there.
\<close>

record epollop =
  epfd :: u32
  num_events :: int
  l_sock :: int
  base_sock :: nat
  th_id :: int
  contexts_by_ptr :: "slot option"
  ctx_tbl :: "slot ut_hash_table option"
  watched :: "int list"
  open_fds :: "int list"

record broker =
  clients :: "slot \<Rightarrow> client"
  subs_children :: "subhier list"
  root_lock :: bool
  mem_alloc :: alloc

text \<open>
  \<open>init_database\<close>: the broker structure and the clients are zeroed; the result of the
  second \<open>malloc\<close>, that of the clients, is not tested and is cleared at once.  The tree starts
  with one node, for the empty first token.
\<close>

definition broker0 :: "alloc \<Rightarrow> broker" where
  "broker0 al = \<lparr>clients = (\<lambda>_. client0), subs_children = [], root_lock = False, mem_alloc = al\<rparr>"

definition init_database :: "alloc \<Rightarrow> (int \<times> broker option) outcome" where
  "init_database al =
     (let (ok, al) = malloc al
      in if \<not> ok then Ok (-1, None)
         else let (ok, al) = malloc al
         in if \<not> ok then Fault
         else let (ok, al) = malloc al
         in if \<not> ok then Ok (-1, Some (broker0 al))
         else let (ok, al) = malloc al
         in if \<not> ok then Ok (-1, Some (broker0 al))
         else Ok (0, Some ((broker0 al)\<lparr>subs_children := [Subhier [] [] []]\<rparr>)))"

text \<open>\<open>broker/config.h\<close>.\<close>

abbreviation (input) MAX_FD_PER_LOOP :: nat where "MAX_FD_PER_LOOP \<equiv> 32200"
abbreviation (input) LOOP_COUNT :: nat where "LOOP_COUNT \<equiv> 16"
abbreviation (input) MAX_EVENT_PER_LOOP :: nat where "MAX_EVENT_PER_LOOP \<equiv> MAX_FD_PER_LOOP * 3"

end
