(* ===== verification/Client_Queue.thy ===== *)
theory Client_Queue
  imports Broker_Types
begin

text \<open>
  The queue of packets that wait to be sent to a client: a singly linked list with a tail
  pointer in the client (\<open>sending_packet\<close>, \<open>sending_packet_tail\<close>), filled by
  \<open>publish_msg\<close> and \<open>ack_msg\<close> of \<open>broker/hand_mqtt.c\<close> and emptied by the sending part of
  \<open>loop_run\<close> in \<open>broker/event_io.c\<close>.  A pointer to a packet is an address in the client's
  heap of packets; following a null or dangling pointer is \<^const>\<open>Fault\<close>.
\<close>

section \<open>Operations\<close>

definition new_packet :: "u8 list \<Rightarrow> u32 \<Rightarrow> packet" where
  "new_packet buf len = \<lparr>send_buf = buf, wcur = 0, wlen = len, pnext = None\<rparr>"

definition enqueue :: "packet \<Rightarrow> client \<Rightarrow> client outcome" where
  "enqueue pk c =
     (let a = next_addr c; c = c\<lparr>packets := (packets c)(a \<mapsto> pk), next_addr := a + 1\<rparr>
      in obind
           (case sending_packet_tail c of
              None \<Rightarrow> Ok (c\<lparr>sending_packet := Some a\<rparr>)
            | Some t \<Rightarrow> obind (deref (packets c) (Some t))
                (\<lambda>p. Ok (c\<lparr>packets := (packets c)(t \<mapsto> p\<lparr>pnext := Some a\<rparr>)\<rparr>)))
           (\<lambda>c. Ok (c\<lparr>sending_packet_tail := Some a,
                      num_sending_pack := num_sending_pack c + 1\<rparr>)))"

definition take_packet :: "client \<Rightarrow> client outcome" where
  "take_packet c =
     obind
       (if sending_packet c \<noteq> None \<and> sending_cur_packet c = None then
          obind (deref (packets c) (sending_packet c))
            (\<lambda>p. let c = c\<lparr>sending_cur_packet := sending_packet c, sending_packet := pnext p\<rparr>
                 in Ok (if sending_packet c = None then c\<lparr>sending_packet_tail := None\<rparr> else c))
        else Ok c)
       (\<lambda>c. Ok (c\<lparr>num_sending_pack := num_sending_pack c - 1\<rparr>))"

text \<open>
  The results of the \<open>send\<close> calls, one after the other: the return value, and whether
  \<open>errno\<close> is \<open>EAGAIN\<close> afterwards.  The code stores the return value in a \<open>uint32_t\<close> before
  it tests it, so of all values only 0 counts as an error.  Past the end of the list a call
  does not return.
\<close>

type_synonym send_result = "int \<times> bool"

datatype send_end = Sent_all | Skip_block | Skip_critical

fun send_loop ::
  "send_result list \<Rightarrow> packet \<Rightarrow> (send_end \<times> packet \<times> u8 list \<times> send_result list) outcome" where
  "send_loop rs p =
     (if wcur p < wlen p then
        (if length (send_buf p) < unat (wlen p) then Fault
         else case rs of [] \<Rightarrow> Blocked
         | (r, again) # rs \<Rightarrow>
             (let n = (of_int r :: u32); sent = take (nat r) (drop (unat (wcur p)) (send_buf p))
              in if n \<le> 0 then Ok (if again then Skip_block else Skip_critical, p, [], rs)
                 else obind (send_loop rs (p\<lparr>wcur := wcur p + n\<rparr>))
                        (\<lambda>(e, p, out, rs). Ok (e, p, sent @ out, rs))))
      else Ok (Sent_all, p, [], rs))"

declare send_loop.simps [simp del]

text \<open>
  The loop over \<open>num_sending\<close> for one client, with the bytes that the socket accepted.
\<close>

definition finish_packet :: "addr \<Rightarrow> packet \<Rightarrow> client \<Rightarrow> client" where
  "finish_packet a p c =
     (if wlen p \<le> wcur p
      then c\<lparr>packets := (packets c)(a := None), sending_cur_packet := None\<rparr> else c)"

fun flush_loop ::
  "nat \<Rightarrow> send_result list \<Rightarrow> client \<Rightarrow> (send_end \<times> client \<times> u8 list \<times> send_result list) outcome" where
  "flush_loop 0 rs c = Ok (Sent_all, c, [], rs)"
| "flush_loop (Suc n) rs c =
     obind (take_packet c) (\<lambda>c.
     obind (deref (packets c) (sending_cur_packet c)) (\<lambda>p.
     obind (send_loop rs p) (\<lambda>(e, p, out, rs).
       let a = the (sending_cur_packet c); c = c\<lparr>packets := (packets c)(a \<mapsto> p)\<rparr>
       in if e \<noteq> Sent_all then Ok (e, c, out, rs)
          else obind (flush_loop n rs (finish_packet a p (c\<lparr>snd_num := snd_num c + 1\<rparr>)))
                 (\<lambda>(e, c, out', rs). Ok (e, c, out @ out', rs)))))"

definition flush_client ::
  "send_result list \<Rightarrow> client \<Rightarrow> (send_end \<times> client \<times> u8 list \<times> send_result list) outcome" where
  "flush_client rs c =
     (if num_sending_pack c < 1 then Ok (Sent_all, c, [], rs)
      else flush_loop (nat (num_sending_pack c)) rs c)"

section \<open>The queue as a list\<close>

fun chain :: "(addr \<Rightarrow> packet option) \<Rightarrow> addr option \<Rightarrow> addr list \<Rightarrow> bool" where
  "chain h p [] \<longleftrightarrow> p = None"
| "chain h p (a # as) \<longleftrightarrow> p = Some a \<and> (case h a of None \<Rightarrow> False | Some pk \<Rightarrow> chain h (pnext pk) as)"

definition queue_at :: "client \<Rightarrow> addr list \<Rightarrow> bool" where
  "queue_at c as \<longleftrightarrow> chain (packets c) (sending_packet c) as \<and> distinct as \<and>
     sending_packet_tail c = (if as = [] then None else Some (last as)) \<and>
     (\<forall>a. next_addr c \<le> a \<longrightarrow> packets c a = None) \<and>
     (case sending_cur_packet c of None \<Rightarrow> True | Some a \<Rightarrow> a \<notin> set as \<and> packets c a \<noteq> None)"

text \<open>The packets of a list of addresses, and the bytes of a packet still to be sent.\<close>

definition packets_at :: "client \<Rightarrow> addr list \<Rightarrow> packet list" where
  "packets_at c as = map (\<lambda>a. (the (packets c a))\<lparr>pnext := None\<rparr>) as"

definition queued :: "client \<Rightarrow> packet list \<Rightarrow> bool" where
  "queued c pks \<longleftrightarrow> (\<exists>as. queue_at c as \<and> packets_at c as = pks)"

definition cur_packet :: "client \<Rightarrow> packet option" where
  "cur_packet c = (case sending_cur_packet c of None \<Rightarrow> None
     | Some a \<Rightarrow> map_option (\<lambda>p. p\<lparr>pnext := None\<rparr>) (packets c a))"

lemma chain_frame: "a \<notin> set as \<Longrightarrow> chain (h(a := x)) p as = chain h p as"
  by (induction as arbitrary: p) (auto split: option.splits)

lemma chain_dom: "chain h p as \<Longrightarrow> a \<in> set as \<Longrightarrow> h a \<noteq> None"
  by (induction as arbitrary: p) (auto split: option.splits)

lemma chain_snoc:
  "chain h p as \<Longrightarrow> distinct as \<Longrightarrow> as \<noteq> [] \<Longrightarrow> h (last as) = Some pk \<Longrightarrow> a \<notin> set as \<Longrightarrow>
   h a = Some pa \<Longrightarrow> pnext pa = None \<Longrightarrow>
   chain (h(last as \<mapsto> pk\<lparr>pnext := Some a\<rparr>)) p (as @ [a])"
proof (induction as arbitrary: p)
  case (Cons b bs)
  show ?case
  proof (cases "bs = []")
    case False
    with Cons.prems have "b \<noteq> last bs" "last bs \<noteq> a" by (auto dest: last_in_set)
    with Cons False show ?thesis by (auto split: option.splits)
  qed (use Cons.prems in auto)
qed simp

lemma queue_at_unique: "queue_at c as \<Longrightarrow> queue_at c bs \<Longrightarrow> as = bs"
proof -
  have "chain h p as \<Longrightarrow> chain h p bs \<Longrightarrow> as = bs" for h p
    by (induction as arbitrary: p bs) (case_tac bs, auto split: option.splits)+
  then show "queue_at c as \<Longrightarrow> queue_at c bs \<Longrightarrow> as = bs" by (auto simp: queue_at_def)
qed

lemma enqueue_queued:
  assumes "queued c pks" "pnext pk = None"
  shows "\<exists>c'. enqueue pk c = Ok c' \<and> queued c' (pks @ [pk]) \<and> cur_packet c' = cur_packet c \<and>
    sending_cur_packet c' = sending_cur_packet c \<and> num_sending_pack c' = num_sending_pack c + 1"
proof -
  from assms(1) obtain as where q: "queue_at c as" "packets_at c as = pks" by (auto simp: queued_def)
  let ?a = "next_addr c"
  have fresh: "packets c ?a = None" "?a \<notin> set as" "sending_cur_packet c \<noteq> Some ?a"
    using q(1) chain_dom [of "packets c" "sending_packet c" as ?a]
    by (auto simp: queue_at_def split: option.splits)
  show ?thesis
  proof (cases "as = []")
    case True
    with q(1) have st: "sending_packet c = None" "sending_packet_tail c = None" by (simp_all add: queue_at_def)
    let ?c = "c\<lparr>packets := (packets c)(?a \<mapsto> pk), next_addr := ?a + 1, sending_packet := Some ?a,
      sending_packet_tail := Some ?a, num_sending_pack := num_sending_pack c + 1\<rparr>"
    have "enqueue pk c = Ok ?c" by (simp add: enqueue_def st Let_def)
    moreover have "queue_at ?c [?a]"
      using q(1) assms(2) fresh True by (auto simp: queue_at_def split: option.splits)
    moreover have "packets_at ?c [?a] = pks @ [pk]"
      using q(2) True assms(2) by (auto simp: packets_at_def)
    moreover have "cur_packet ?c = cur_packet c"
      using fresh by (auto simp: cur_packet_def split: option.splits)
    ultimately show ?thesis by (auto simp: queued_def)
  next
    case False
    with q(1) obtain lp where lp: "packets c (last as) = Some lp" "sending_packet_tail c = Some (last as)"
      using chain_dom [of "packets c" "sending_packet c" as "last as"] by (auto simp: queue_at_def)
    have ne: "last as \<noteq> ?a" using False fresh(2) last_in_set by metis
    let ?h = "(packets c)(?a \<mapsto> pk, last as \<mapsto> lp\<lparr>pnext := Some ?a\<rparr>)"
    let ?c = "c\<lparr>packets := ?h, next_addr := ?a + 1, sending_packet_tail := Some ?a,
      num_sending_pack := num_sending_pack c + 1\<rparr>"
    have "enqueue pk c = Ok ?c" using lp ne by (simp add: enqueue_def Let_def)
    moreover have "chain ?h (sending_packet c) (as @ [?a])"
      using q(1) False lp ne fresh assms(2)
      by (intro chain_snoc) (auto simp: queue_at_def chain_frame)
    then have "queue_at ?c (as @ [?a])"
      using q(1) fresh lp by (auto simp: queue_at_def split: option.splits)
    moreover have "packets_at ?c (as @ [?a]) = pks @ [pk]"
      using q(2) fresh lp ne assms(2) by (auto simp: packets_at_def)
    moreover have "cur_packet ?c = cur_packet c"
      using fresh lp q(1) False by (auto simp: cur_packet_def queue_at_def split: option.splits)
    ultimately show ?thesis by (auto simp: queued_def)
  qed
qed


lemma take_packet_cur:
  "sending_cur_packet c = Some a \<Longrightarrow>
   take_packet c = Ok (c\<lparr>num_sending_pack := num_sending_pack c - 1\<rparr>)"
  by (simp add: take_packet_def)

lemma take_packet_next:
  assumes "queued c (pk # pks)" "sending_cur_packet c = None"
  shows "\<exists>c' a. take_packet c = Ok c' \<and> queued c' pks \<and> cur_packet c' = Some pk \<and>
    num_sending_pack c' = num_sending_pack c - 1 \<and> snd_num c' = snd_num c \<and>
    sending_cur_packet c' = Some a \<and> (\<exists>p. packets c' a = Some p \<and> p\<lparr>pnext := None\<rparr> = pk)"
proof -
  from assms(1) obtain a as p where q: "queue_at c (a # as)" "packets c a = Some p" "p\<lparr>pnext := None\<rparr> = pk"
      "packets_at c as = pks"
    by (fastforce simp: queued_def packets_at_def queue_at_def split: option.splits)
  then have sp: "sending_packet c = Some a" "chain (packets c) (pnext p) as" by (auto simp: queue_at_def)
  let ?c = "c\<lparr>sending_cur_packet := Some a, sending_packet := pnext p,
    sending_packet_tail := (if as = [] then None else Some (last as)),
    num_sending_pack := num_sending_pack c - 1\<rparr>"
  have "take_packet c = Ok ?c"
  proof (cases as)
    case Nil
    with sp q assms(2) show ?thesis by (simp add: take_packet_def Let_def)
  next
    case (Cons b bs)
    then have "pnext p = Some b" "sending_packet_tail c = Some (last as)" using sp q by (simp_all add: queue_at_def)
    with Cons sp q assms(2) show ?thesis by (cases c) (simp add: take_packet_def Let_def)
  qed
  moreover have "queue_at ?c as" using q sp by (auto simp: queue_at_def)
  moreover have "packets_at ?c as = pks" using q(4) by (simp add: packets_at_def)
  ultimately show ?thesis using q by (auto simp: queued_def cur_packet_def)
qed

lemma take_packet_empty:
  "queued c [] \<Longrightarrow> take_packet c = Ok (c\<lparr>num_sending_pack := num_sending_pack c - 1\<rparr>)"
  by (auto simp: queued_def queue_at_def packets_at_def take_packet_def)

lemma queued_frame:
  "queued (c\<lparr>num_sending_pack := n\<rparr>) pks = queued c pks"
  "queued (c\<lparr>snd_num := m\<rparr>) pks = queued c pks"
  "cur_packet (c\<lparr>num_sending_pack := n\<rparr>) = cur_packet c"
  "cur_packet (c\<lparr>snd_num := m\<rparr>) = cur_packet c"
  by (simp_all add: queued_def queue_at_def packets_at_def cur_packet_def cong: option.case_cong)

lemma queued_cur_update:
  assumes "queued c pks" "sending_cur_packet c = Some a"
  shows "queued (c\<lparr>packets := (packets c)(a \<mapsto> p)\<rparr>) pks"
    "queued (c\<lparr>packets := (packets c)(a := None), sending_cur_packet := None\<rparr>) pks"
proof -
  from assms obtain as where q: "queue_at c as" "packets_at c as = pks" "a \<notin> set as" "packets c a \<noteq> None"
    by (auto simp: queued_def queue_at_def)
  then have "queue_at (c\<lparr>packets := (packets c)(a \<mapsto> p)\<rparr>) as"
    "queue_at (c\<lparr>packets := (packets c)(a := None), sending_cur_packet := None\<rparr>) as"
    using assms(2) by (auto simp: queue_at_def chain_frame)
  moreover have "packets_at (c\<lparr>packets := (packets c)(a \<mapsto> p)\<rparr>) as = pks"
    "packets_at (c\<lparr>packets := (packets c)(a := None), sending_cur_packet := None\<rparr>) as = pks"
    using q(2,3) by (auto simp: packets_at_def)
  ultimately show "queued (c\<lparr>packets := (packets c)(a \<mapsto> p)\<rparr>) pks"
    "queued (c\<lparr>packets := (packets c)(a := None), sending_cur_packet := None\<rparr>) pks"
    by (auto simp: queued_def)
qed

section \<open>Sending\<close>

text \<open>\<open>send\<close> accepted exactly \<open>n\<close> bytes, in any number of parts.\<close>

definition covers :: "send_result list \<Rightarrow> nat \<Rightarrow> bool" where
  "covers rs n \<longleftrightarrow> (\<forall>r \<in> set rs. 0 < fst r) \<and> (\<Sum>r\<leftarrow>rs. fst r) = int n"

definition sized :: "packet \<Rightarrow> bool" where
  "sized p \<longleftrightarrow> unat (wlen p) = length (send_buf p)"

lemma covers_sum_pos: "\<forall>r \<in> set rs. 0 < fst r \<Longrightarrow> 0 \<le> (\<Sum>r\<leftarrow>rs. fst (r :: send_result))"
  by (induction rs) auto

lemma send_loop_covers:
  assumes "sized p" "wcur p \<le> wlen p" "covers rs (unat (wlen p) - unat (wcur p))"
  shows "send_loop (rs @ rest) p =
    Ok (Sent_all, p\<lparr>wcur := wlen p\<rparr>, drop (unat (wcur p)) (send_buf p), rest)"
  using assms
proof (induction rs arbitrary: p)
  case Nil
  from Nil.prems(3) have "unat (wlen p) - unat (wcur p) = 0"
    by (simp only: covers_def list.map sum_list.Nil of_nat_0_eq_iff)
  then have "unat (wcur p) = unat (wlen p)"
    using Nil.prems(2) by (simp only: word_le_nat_alt)
  then have "wcur p = wlen p" by (rule unsigned_word_eqI)
  then show ?case using Nil.prems(1) by (simp add: send_loop.simps sized_def)
next
  case (Cons x rs)
  obtain r again where x: "x = (r, again)" by (cases x)
  define n where "n = nat r"
  have pos: "0 < r" and sum: "int n + (\<Sum>r\<leftarrow>rs. fst r) = int (unat (wlen p) - unat (wcur p))"
    and nonneg: "0 \<le> (\<Sum>r\<leftarrow>rs. fst r)"
    using Cons.prems(3) covers_sum_pos [of rs] by (auto simp: covers_def x n_def)
  then have n: "0 < n" "n \<le> unat (wlen p) - unat (wcur p)" "r = int n" by (auto simp: n_def)
  then have less: "wcur p < wlen p" by (simp add: word_less_nat_alt)
  have "n < 4294967296" using n(2) unat_u32_less [of "wlen p"] by linarith
  then have un: "unat (of_int r :: u32) = n" using n(3) by simp
  have "unat (wcur p) + n < 4294967296"
    using n(2) less unat_u32_less [of "wlen p"] unfolding word_less_nat_alt by linarith
  then have un': "unat (wcur p + of_int r) = unat (wcur p) + n"
    by (simp add: unat_word_ariths un)
  have arith: "int n + s = int (A - B) \<Longrightarrow> n \<le> A - B \<Longrightarrow> s = int (A - (B + n))" for A B :: nat and s
    by linarith
  have cov: "covers rs (unat (wlen p) - (unat (wcur p) + n))"
    unfolding covers_def using Cons.prems(3) by (intro conjI arith [OF sum n(2)]) (simp add: covers_def)
  have "sized (p\<lparr>wcur := wcur p + of_int r\<rparr>)" using Cons.prems(1) by (simp add: sized_def)
  moreover have "unat (wcur p) + n \<le> unat (wlen p)"
    using n(2) less unfolding word_less_nat_alt by linarith
  ultimately have rest: "send_loop (rs @ rest) (p\<lparr>wcur := wcur p + of_int r\<rparr>) =
      Ok (Sent_all, p\<lparr>wcur := wlen p\<rparr>, drop (unat (wcur p) + n) (send_buf p), rest)"
    using Cons.IH [of "p\<lparr>wcur := wcur p + of_int r\<rparr>"] cov un' by (simp add: word_le_nat_alt)
  have "(of_int r :: u32) \<noteq> 0" using un n(1) by auto
  moreover have "take n (drop (unat (wcur p)) (send_buf p)) @ drop (unat (wcur p) + n) (send_buf p)
      = drop (unat (wcur p)) (send_buf p)"
    by (metis append_take_drop_id drop_drop add.commute)
  ultimately show ?case
    using Cons.prems(1) less rest by (simp add: send_loop.simps [of "_ # _"] x sized_def n_def Let_def)
qed


lemma send_loop_any:
  assumes "unat (wlen p) \<le> length (send_buf p)"
  shows "case send_loop rs p of Fault \<Rightarrow> False | Blocked \<Rightarrow> True
    | Ok (e, p', out, rs') \<Rightarrow> wlen p' = wlen p \<and> send_buf p' = send_buf p \<and>
        (e = Sent_all \<longrightarrow> wlen p' \<le> wcur p')"
  using assms
proof (induction rs arbitrary: p)
  case Nil
  then show ?case by (simp add: send_loop.simps not_less)
next
  case (Cons x rs)
  obtain r again where x: "x = (r, again)" by (cases x)
  let ?p = "p\<lparr>wcur := wcur p + of_int r\<rparr>"
  note IH = Cons.IH [of ?p]
  show ?case
  proof (cases "wcur p < wlen p")
    case True
    with IH Cons.prems show ?thesis
      by (cases "send_loop rs ?p") (auto simp: send_loop.simps [of "_ # _"] x Let_def)
  next
    case False
    then have "\<not> wcur p < wlen p" by simp
    then show ?thesis by (simp add: send_loop.simps [of "x # rs" p])
  qed
qed

definition sender_ok :: "client \<Rightarrow> bool" where
  "sender_ok c \<longleftrightarrow> (\<exists>pks. queued c pks \<and>
     num_sending_pack c \<le> int (length pks) + (if sending_cur_packet c = None then 0 else 1) \<and>
     (\<forall>p \<in> set pks. unat (wlen p) \<le> length (send_buf p)) \<and>
     (\<forall>p. cur_packet c = Some p \<longrightarrow> unat (wlen p) \<le> length (send_buf p)))"

text \<open>After a round of \<open>take_packet\<close> with a positive count there is a current packet.\<close>

lemma take_packet_ok:
  assumes "sender_ok c" "1 \<le> num_sending_pack c"
  shows "\<exists>c' a p pks. take_packet c = Ok c' \<and> num_sending_pack c' = num_sending_pack c - 1 \<and>
    sending_cur_packet c' = Some a \<and> packets c' a = Some p \<and> unat (wlen p) \<le> length (send_buf p) \<and>
    queued c' pks \<and> num_sending_pack c' \<le> int (length pks) \<and>
    (\<forall>p \<in> set pks. unat (wlen p) \<le> length (send_buf p))"
proof -
  from assms(1) obtain pks where q: "queued c pks"
    "num_sending_pack c \<le> int (length pks) + (if sending_cur_packet c = None then 0 else 1)"
    "\<forall>p \<in> set pks. unat (wlen p) \<le> length (send_buf p)"
    "\<forall>p. cur_packet c = Some p \<longrightarrow> unat (wlen p) \<le> length (send_buf p)"
    unfolding sender_ok_def by blast
  show ?thesis
  proof (cases "sending_cur_packet c")
    case (Some a)
    then obtain p where p: "packets c a = Some p"
      using q(1) by (auto simp: queued_def queue_at_def)
    then have "unat (wlen p) \<le> length (send_buf p)" using q(4) Some by (simp add: cur_packet_def)
    with p Some q show ?thesis
      by (intro exI [of _ "c\<lparr>num_sending_pack := num_sending_pack c - 1\<rparr>"] exI [of _ a] exI [of _ p]
          exI [of _ pks]) (simp add: take_packet_cur queued_frame)
  next
    case None
    then obtain pk qks where pks: "pks = pk # qks" using q(2) assms(2) by (cases pks) auto
    from take_packet_next [OF q(1) [unfolded pks] None] obtain c' a p where c':
      "take_packet c = Ok c'" "queued c' qks" "num_sending_pack c' = num_sending_pack c - 1"
      "sending_cur_packet c' = Some a" "packets c' a = Some p" "p\<lparr>pnext := None\<rparr> = pk" by blast
    then have "wlen p = wlen pk" "send_buf p = send_buf pk" by auto
    with c' q(2,3) pks None show ?thesis
      by (intro exI [of _ c'] exI [of _ a] exI [of _ p] exI [of _ qks]) simp
  qed
qed

lemma sender_ok_cur:
  assumes "queued c pks" "sending_cur_packet c = Some a" "num_sending_pack c \<le> int (length pks)"
    "\<forall>p \<in> set pks. unat (wlen p) \<le> length (send_buf p)" "unat (wlen p) \<le> length (send_buf p)"
  shows "sender_ok (c\<lparr>packets := (packets c)(a \<mapsto> p)\<rparr>)"
    and "sender_ok (c\<lparr>packets := (packets c)(a := None), sending_cur_packet := None\<rparr>)"
  unfolding sender_ok_def
  using assms queued_cur_update [OF assms(1,2)]
  by (intro exI [of _ pks]; simp add: cur_packet_def)+

lemma sender_ok_frame: "sender_ok (c\<lparr>snd_num := m\<rparr>) = sender_ok c"
  by (simp add: sender_ok_def queued_frame)

lemma flush_loop_safe:
  assumes "sender_ok c" "int n \<le> num_sending_pack c"
  shows "flush_loop n rs c \<noteq> Fault \<and>
    (\<forall>e c' out rs'. flush_loop n rs c = Ok (e, c', out, rs') \<longrightarrow> sender_ok c')"
  using assms
proof (induction n arbitrary: rs c)
  case (Suc n)
  obtain c1 a p pks where t: "take_packet c = Ok c1" "num_sending_pack c1 = num_sending_pack c - 1"
    "sending_cur_packet c1 = Some a" "packets c1 a = Some p" "unat (wlen p) \<le> length (send_buf p)"
    "queued c1 pks" "num_sending_pack c1 \<le> int (length pks)"
    "\<forall>p \<in> set pks. unat (wlen p) \<le> length (send_buf p)"
    using take_packet_ok [OF Suc.prems(1)] Suc.prems(2) by auto
  show ?case
  proof (cases "send_loop rs p")
    case (Ok x)
    obtain e p' out rs' where x: "x = (e, p', out, rs')" by (cases x)
    have p': "wlen p' = wlen p" "send_buf p' = send_buf p" "e = Sent_all \<longrightarrow> wlen p' \<le> wcur p'"
      using send_loop_any [OF t(5), of rs] Ok x by auto
    let ?c2 = "c1\<lparr>packets := (packets c1)(a \<mapsto> p')\<rparr>"
    let ?c3 = "finish_packet a p' (?c2\<lparr>snd_num := snd_num ?c2 + 1\<rparr>)"
    have ok2: "sender_ok ?c2" using sender_ok_cur(1) [OF t(6,3,7,8)] p' t(5) by simp
    show ?thesis
    proof (cases "e = Sent_all")
      case True
      have fin: "?c3 = c1\<lparr>packets := (packets c1)(a := None), sending_cur_packet := None,
          snd_num := snd_num c1 + 1\<rparr>"
        using p' True by (cases c1) (simp add: finish_packet_def)
      have "sender_ok ?c3" unfolding fin sender_ok_frame by (rule sender_ok_cur(2) [OF t(6,3,7,8,5)])
      moreover have "int n \<le> num_sending_pack ?c3"
        unfolding fin using Suc.prems(2) t(2) by simp
      ultimately have "flush_loop n rs' ?c3 \<noteq> Fault \<and>
          (\<forall>e c' out rs''. flush_loop n rs' ?c3 = Ok (e, c', out, rs'') \<longrightarrow> sender_ok c')"
        by (rule Suc.IH)
      then show ?thesis using t Ok x True
        by (cases "flush_loop n rs' ?c3") (auto simp: Let_def)
    qed (use t Ok x ok2 in \<open>simp add: Let_def\<close>)
  qed (use t send_loop_any [OF t(5), of rs] in simp_all)
qed simp

text \<open>The first packets of the queue are sent in order; the others stay.\<close>

lemma flush_loop_all:
  assumes "queued c (pks @ qs)" "sending_cur_packet c = None"
    and "list_all2 (\<lambda>rs p. sized p \<and> wcur p = 0 \<and> covers rs (length (send_buf p))) rss pks"
  shows "\<exists>c'. flush_loop (length pks) (concat rss @ rest) c =
      Ok (Sent_all, c', concat (map send_buf pks), rest) \<and>
    queued c' qs \<and> sending_cur_packet c' = None \<and>
    num_sending_pack c' = num_sending_pack c - int (length pks)"
  using assms
proof (induction pks arbitrary: c rss)
  case Nil
  then show ?case by simp
next
  case (Cons pk pks)
  from Cons.prems(3) obtain rs rss' where rss: "rss = rs # rss'" "sized pk" "wcur pk = 0"
      "covers rs (length (send_buf pk))"
      "list_all2 (\<lambda>rs p. sized p \<and> wcur p = 0 \<and> covers rs (length (send_buf p))) rss' pks"
    by (auto simp: list_all2_Cons2)
  from take_packet_next [OF Cons.prems(1) [unfolded append_Cons] Cons.prems(2)] obtain c1 a p where t:
    "take_packet c = Ok c1" "queued c1 (pks @ qs)" "num_sending_pack c1 = num_sending_pack c - 1"
    "sending_cur_packet c1 = Some a" "packets c1 a = Some p" "p\<lparr>pnext := None\<rparr> = pk" by blast
  then have p: "wlen p = wlen pk" "send_buf p = send_buf pk" "wcur p = wcur pk" by auto
  have send: "send_loop (rs @ concat rss' @ rest) p =
      Ok (Sent_all, p\<lparr>wcur := wlen p\<rparr>, send_buf p, concat rss' @ rest)"
    using send_loop_covers [of p rs "concat rss' @ rest"] p rss by (simp add: sized_def)
  let ?c2 = "c1\<lparr>packets := (packets c1)(a := None), sending_cur_packet := None, snd_num := snd_num c1 + 1\<rparr>"
  have fin: "finish_packet a (p\<lparr>wcur := wlen p\<rparr>)
      (c1\<lparr>packets := (packets c1)(a \<mapsto> p\<lparr>wcur := wlen p\<rparr>), snd_num := snd_num c1 + 1\<rparr>) = ?c2"
    by (cases c1) (simp add: finish_packet_def)
  have "queued ?c2 (pks @ qs)"
    unfolding queued_frame by (rule queued_cur_update(2) [OF t(2,4)])
  from Cons.IH [OF this _ rss(5)] obtain c' where
    "flush_loop (length pks) (concat rss' @ rest) ?c2 = Ok (Sent_all, c', concat (map send_buf pks), rest)"
    "queued c' qs" "sending_cur_packet c' = None"
    "num_sending_pack c' = num_sending_pack ?c2 - int (length pks)" by auto
  then show ?case using t(1,3,4,5) send rss(1) p by (simp add: Let_def fin [unfolded p])
qed


section \<open>The contract of the queue\<close>

text \<open>\<^const>\<open>Some\<close> puts a packet, \<^const>\<open>None\<close> gets the next one; the result lists the packets got.\<close>

fun run_queue ::
  "('p \<Rightarrow> 's \<Rightarrow> 's outcome) \<Rightarrow> ('s \<Rightarrow> ('p \<times> 's) outcome) \<Rightarrow> 'p option list \<Rightarrow> 's \<Rightarrow> ('p list \<times> 's) outcome" where
  "run_queue put get [] s = Ok ([], s)"
| "run_queue put get (Some p # ops) s = obind (put p s) (run_queue put get ops)"
| "run_queue put get (None # ops) s =
     obind (get s) (\<lambda>(x, s). obind (run_queue put get ops s) (\<lambda>(out, s). Ok (x # out, s)))"

fun feasible :: "nat \<Rightarrow> 'p option list \<Rightarrow> bool" where
  "feasible n [] = True"
| "feasible n (Some p # ops) = feasible (n + 1) ops"
| "feasible n (None # ops) = (0 < n \<and> feasible (n - 1) ops)"

definition puts :: "'p option list \<Rightarrow> 'p list" where
  "puts ops = map the (filter (\<lambda>x. x \<noteq> None) ops)"

locale packet_queue =
  fixes rep :: "'s \<Rightarrow> 'p list \<Rightarrow> bool"
    and fresh :: "'p \<Rightarrow> bool"
    and put :: "'p \<Rightarrow> 's \<Rightarrow> 's outcome"
    and get :: "'s \<Rightarrow> ('p \<times> 's) outcome"
  assumes put_rep: "rep s xs \<Longrightarrow> fresh p \<Longrightarrow> \<exists>s'. put p s = Ok s' \<and> rep s' (xs @ [p])"
    and get_rep: "rep s (x # xs) \<Longrightarrow> \<exists>s'. get s = Ok (x, s') \<and> rep s' xs"
begin

lemma fifo:
  assumes "rep s xs" "\<forall>p \<in> set (puts ops). fresh p" "feasible (length xs) ops"
  shows "\<exists>out s' rest. run_queue put get ops s = Ok (out, s') \<and> rep s' rest \<and> xs @ puts ops = out @ rest"
  using assms
proof (induction ops arbitrary: s xs)
  case Nil
  then show ?case by (auto simp: puts_def)
next
  case (Cons x ops)
  show ?case
  proof (cases x)
    case (Some p)
    then obtain s' where "put p s = Ok s'" "rep s' (xs @ [p])"
      using put_rep [OF Cons.prems(1), of p] Cons.prems(2) by (auto simp: puts_def)
    with Cons.IH [OF this(2)] Cons.prems(2,3) Some show ?thesis by (auto simp: puts_def)
  next
    case None
    then obtain y ys where xs: "xs = y # ys" using Cons.prems(3) by (cases xs) auto
    then obtain s' where "get s = Ok (y, s')" "rep s' ys" using get_rep Cons.prems(1) by blast
    with Cons.IH [OF this(2)] Cons.prems(2,3) None xs show ?thesis by (auto simp: puts_def)
  qed
qed

end

text \<open>Taking the next packet and freeing it once it is written out.\<close>

definition send_next :: "client \<Rightarrow> (packet \<times> client) outcome" where
  "send_next c =
     obind (take_packet c) (\<lambda>c.
     obind (deref (packets c) (sending_cur_packet c)) (\<lambda>p.
     Ok (p\<lparr>pnext := None\<rparr>, finish_packet (the (sending_cur_packet c)) (p\<lparr>wcur := wlen p\<rparr>) c)))"

interpretation client_queue: packet_queue "\<lambda>c pks. queued c pks \<and> sending_cur_packet c = None"
  "\<lambda>p. pnext p = None" enqueue send_next
proof
  fix c pks and p :: packet
  assume "queued c pks \<and> sending_cur_packet c = None" "pnext p = None"
  then show "\<exists>c'. enqueue p c = Ok c' \<and> queued c' (pks @ [p]) \<and> sending_cur_packet c' = None"
    using enqueue_queued [of c pks p] by auto
next
  fix c and p :: packet and pks
  assume "queued c (p # pks) \<and> sending_cur_packet c = None"
  then obtain c' a q where t: "take_packet c = Ok c'" "queued c' pks" "sending_cur_packet c' = Some a"
      "packets c' a = Some q" "q\<lparr>pnext := None\<rparr> = p"
    using take_packet_next by blast
  let ?c = "c'\<lparr>packets := (packets c')(a := None), sending_cur_packet := None\<rparr>"
  have "finish_packet a (q\<lparr>wcur := wlen q\<rparr>) c' = ?c" by (simp add: finish_packet_def)
  then have "send_next c = Ok (p, ?c)" by (simp add: send_next_def t(1,3,4,5))
  moreover have "queued ?c pks" by (rule queued_cur_update(2) [OF t(2,3)])
  ultimately show "\<exists>c'. send_next c = Ok (p, c') \<and> queued c' pks \<and> sending_cur_packet c' = None"
    by auto
qed

lemma queued_client0: "queued client0 []" "sending_cur_packet client0 = None" "num_sending_pack client0 = 0"
  by (simp_all add: queued_def queue_at_def packets_at_def client0_def)

text \<open>A queue with one packet, for the examples.\<close>

lemma one_packet:
  assumes "pnext pk = None"
  obtains c where "enqueue pk client0 = Ok c" "queued c [pk]" "sending_cur_packet c = None"
    "num_sending_pack c = 1"
  using enqueue_queued [OF queued_client0(1) assms] queued_client0 by auto

lemma enqueue_sender_ok:
  assumes "sender_ok c" "pnext pk = None" "unat (wlen pk) \<le> length (send_buf pk)"
  shows "\<exists>c'. enqueue pk c = Ok c' \<and> sender_ok c'"
proof -
  from assms(1) obtain pks where pks: "queued c pks"
    "num_sending_pack c \<le> int (length pks) + (if sending_cur_packet c = None then 0 else 1)"
    "\<forall>p \<in> set pks. unat (wlen p) \<le> length (send_buf p)"
    "\<forall>p. cur_packet c = Some p \<longrightarrow> unat (wlen p) \<le> length (send_buf p)"
    unfolding sender_ok_def by blast
  from enqueue_queued [OF pks(1) assms(2)] obtain c' where c': "enqueue pk c = Ok c'"
    "queued c' (pks @ [pk])" "cur_packet c' = cur_packet c"
    "sending_cur_packet c' = sending_cur_packet c" "num_sending_pack c' = num_sending_pack c + 1" by blast
  then have "sender_ok c'" unfolding sender_ok_def
    using pks(2-4) assms(3) by (intro exI [of _ "pks @ [pk]"]) auto
  with c'(1) show ?thesis by blast
qed

lemma sender_ok_client0: "sender_ok client0"
  unfolding sender_ok_def using queued_client0
  by (intro exI [of _ "[]"]) (simp add: cur_packet_def)

section \<open>The properties\<close>

text \<open>C7: The packet queue of a client is first in, first out: for every interleaving of
  enqueueing and of taking the next packet, the packets come out in the order in which they
  went in, none is lost or duplicated, and no dangling or null pointer is followed.\<close>

theorem queue_fifo:
  assumes "queued c pks" "sending_cur_packet c = None" "\<forall>p \<in> set (puts ops). pnext p = None"
    and "feasible (length pks) ops"
  shows "\<exists>out c' rest. run_queue enqueue send_next ops c = Ok (out, c') \<and> queued c' rest \<and>
    pks @ puts ops = out @ rest"
  using client_queue.fifo [of c pks ops] assms by blast

theorem queue_fifo_witness:
  "\<exists>out c' rest. run_queue enqueue send_next
      [Some (new_packet [1] 1), Some (new_packet [2] 1), None] client0 = Ok (out, c') \<and>
    queued c' rest \<and> [new_packet [1] 1, new_packet [2] 1] = out @ rest"
  using queue_fifo [OF queued_client0(1,2), of "[Some (new_packet [1] 1), Some (new_packet [2] 1), None]"]
  by (simp add: puts_def new_packet_def)

text \<open>When the socket accepts everything it is offered, in parts of any size, one round of
  \<open>loop_run\<close> writes the queued packets to the socket back to back and in order, and leaves
  the queue empty and its counter at zero.\<close>

lemma flush_sends_all:
  assumes "queued c pks" "sending_cur_packet c = None" "num_sending_pack c = int (length pks)"
    and "list_all2 (\<lambda>rs p. sized p \<and> wcur p = 0 \<and> covers rs (length (send_buf p))) rss pks"
  shows "\<exists>c'. flush_client (concat rss @ rest) c = Ok (Sent_all, c', concat (map send_buf pks), rest) \<and>
    queued c' [] \<and> sending_cur_packet c' = None \<and> num_sending_pack c' = 0"
proof (cases "pks = []")
  case True
  with assms show ?thesis by (simp add: flush_client_def)
next
  case False
  then have "\<not> num_sending_pack c < 1" using assms(3) by (cases pks) auto
  with flush_loop_all [of c pks "[]" rss rest] assms show ?thesis by (simp add: flush_client_def)
qed

text \<open>As long as the counter of a client is not larger than the number of its waiting
  packets, sending never follows a null or dangling pointer and never reads outside a
  packet, whatever \<open>send\<close> returns, and this condition is kept; enqueueing keeps it too.\<close>

lemma sending_is_safe:
  assumes "sender_ok c"
  shows "flush_client rs c \<noteq> Fault \<and>
    (\<forall>e c' out rs'. flush_client rs c = Ok (e, c', out, rs') \<longrightarrow> sender_ok c') \<and>
    (\<forall>pk. pnext pk = None \<and> unat (wlen pk) \<le> length (send_buf pk) \<longrightarrow>
      (\<exists>c'. enqueue pk c = Ok c' \<and> sender_ok c'))"
  using assms flush_loop_safe [OF assms, of "nat (num_sending_pack c)" rs] enqueue_sender_ok [OF assms]
  by (auto simp: flush_client_def)

text \<open>C31: The return value of \<open>send\<close> is stored in an unsigned variable before it is tested,
  so a failing \<open>send\<close> is not noticed: when the first \<open>send\<close> of a packet fails, the packet
  is counted as sent and freed, although no byte of it was written.\<close>

theorem send_error_drops_packet:
  assumes "queued c (pk # pks)" "sending_cur_packet c = None" "num_sending_pack c = 1"
    and "sized pk" "wcur pk = 0" "0 < wlen pk"
  shows "\<exists>c'. flush_client ((-1, again) # rs) c = Ok (Sent_all, c', [], rs) \<and> queued c' pks \<and>
    sending_cur_packet c' = None"
proof -
  from take_packet_next [OF assms(1,2)] obtain c1 a p where t:
    "take_packet c = Ok c1" "queued c1 pks" "sending_cur_packet c1 = Some a" "packets c1 a = Some p"
    "p\<lparr>pnext := None\<rparr> = pk" by blast
  then have p: "wlen p = wlen pk" "send_buf p = send_buf pk" "wcur p = wcur pk" by auto
  have le: "wlen pk \<le> (-1 :: u32)" by simp
  then have "send_loop ((-1, again) # rs) p = Ok (Sent_all, p\<lparr>wcur := -1\<rparr>, [], rs)"
    using p assms(4-6) by (simp add: send_loop.simps [of "_ # _"] send_loop.simps [of rs] sized_def not_less)
  moreover have fin: "finish_packet a (p\<lparr>wcur := -1\<rparr>) (c1\<lparr>packets := (packets c1)(a \<mapsto> p\<lparr>wcur := -1\<rparr>),
      snd_num := snd_num c1 + 1\<rparr>) = (c1\<lparr>packets := (packets c1)(a := None), sending_cur_packet := None\<rparr>)
        \<lparr>snd_num := snd_num c1 + 1\<rparr>"
    using le p by (cases c1) (simp add: finish_packet_def)
  moreover have "queued ((c1\<lparr>packets := (packets c1)(a := None), sending_cur_packet := None\<rparr>)
        \<lparr>snd_num := snd_num c1 + 1\<rparr>) pks"
    unfolding queued_frame by (rule queued_cur_update(2) [OF t(2,3)])
  ultimately show ?thesis using t(1,3,4) assms(3) by (simp add: flush_client_def Let_def)
qed

theorem send_error_drops_packet_witness:
  "\<exists>c c'. enqueue (new_packet [7, 8, 9] 3) client0 = Ok c \<and>
    flush_client [(-1, True)] c = Ok (Sent_all, c', [], []) \<and> queued c' []"
proof -
  obtain c where c: "enqueue (new_packet [7, 8, 9] 3) client0 = Ok c" "queued c [new_packet [7, 8, 9] 3]"
      "sending_cur_packet c = None" "num_sending_pack c = 1"
    by (rule one_packet [of "new_packet [7, 8, 9] 3"]) (simp_all add: new_packet_def)
  with send_error_drops_packet [OF c(2,3,4), of True "[]"] show ?thesis
    by (auto simp: new_packet_def sized_def)
qed

end
