(* ===== verification/Utility.thy ===== *)
theory Utility
  imports Mumq_Prelude
begin

text \<open>
  The topic checks of \<open>broker/utility.c\<close>.  Both walk a \<open>char *\<close> up to its terminating
  zero byte; a pointer is the bytes from it to the end of its object (\<^const>\<open>None\<close> for a
  null pointer) and the result is \<^const>\<open>None\<close> when the walk leaves the object.
  The logging functions \<open>write_log\<close> and \<open>print_hex\<close> only format and print and are not
  modelled.
\<close>

section \<open>Characters of the topic syntax\<close>

abbreviation c_slash :: u8 where "c_slash \<equiv> 0x2F"
abbreviation c_plus :: u8 where "c_plus \<equiv> 0x2B"
abbreviation c_hash :: u8 where "c_hash \<equiv> 0x23"
abbreviation c_dollar :: u8 where "c_dollar \<equiv> 0x24"

section \<open>The two checks\<close>

fun pub_topic_valid_loop :: "u8 list \<Rightarrow> nat \<Rightarrow> bool option" where
  "pub_topic_valid_loop [] len = None"
| "pub_topic_valid_loop (c # str) len =
     (if c = 0 then Some (\<not> 65535 < len)
      else if c = c_plus \<or> c = c_hash then Some False
      else pub_topic_valid_loop str (len + 1))"

definition pub_topic_valid :: "u8 list option \<Rightarrow> bool option" where
  "pub_topic_valid str =
     (case str of None \<Rightarrow> Some True | Some bs \<Rightarrow> pub_topic_valid_loop bs 0)"

text \<open>\<open>c\<close> is the character before the current one, the zero byte at the start.\<close>

fun sub_topic_valid_loop :: "u8 list \<Rightarrow> u8 \<Rightarrow> nat \<Rightarrow> bool option" where
  "sub_topic_valid_loop [] c len = None"
| "sub_topic_valid_loop (x # str) c len =
     (if x = 0 then Some (\<not> 65535 < len)
      else if x = c_plus then
        (if c \<noteq> 0 \<and> c \<noteq> c_slash then Some False
         else case rd str 0 of None \<Rightarrow> None
              | Some y \<Rightarrow> if y \<noteq> 0 \<and> y \<noteq> c_slash then Some False
                        else sub_topic_valid_loop str x (len + 1))
      else if x = c_hash then
        (if c \<noteq> 0 \<and> c \<noteq> c_slash then Some False
         else case rd str 0 of None \<Rightarrow> None
              | Some y \<Rightarrow> if y \<noteq> 0 then Some False
                        else sub_topic_valid_loop str x (len + 1))
      else sub_topic_valid_loop str x (len + 1))"

definition sub_topic_valid :: "u8 list option \<Rightarrow> bool option" where
  "sub_topic_valid str =
     (case str of None \<Rightarrow> Some True | Some bs \<Rightarrow> sub_topic_valid_loop bs 0 0)"

section \<open>What they decide\<close>

text \<open>
  The topic filter syntax of MQTT 3.1.1, section 4.7.1, on the levels of a filter: a
  single-level wildcard fills its level, a multi-level wildcard fills the last level.
\<close>

fun filter_levels_ok :: "u8 list list \<Rightarrow> bool" where
  "filter_levels_ok [] = True"
| "filter_levels_ok (l # ls) =
     ((c_plus \<in> set l \<longrightarrow> l = [c_plus]) \<and>
      (c_hash \<in> set l \<longrightarrow> l = [c_hash] \<and> ls = []) \<and> filter_levels_ok ls)"

definition sub_filter_ok :: "u8 list \<Rightarrow> bool" where
  "sub_filter_ok s \<longleftrightarrow> filter_levels_ok (split_at c_slash s) \<and> length s \<le> 65535"

definition pub_topic_ok :: "u8 list \<Rightarrow> bool" where
  "pub_topic_ok s \<longleftrightarrow> c_plus \<notin> set s \<and> c_hash \<notin> set s \<and> length s \<le> 65535"

lemma pub_topic_valid_loop_str:
  "0 \<notin> set s \<Longrightarrow> pub_topic_valid_loop (s @ 0 # rest) len =
     Some (c_plus \<notin> set s \<and> c_hash \<notin> set s \<and> len + length s \<le> 65535)"
  by (induction s arbitrary: len) (auto simp: not_less)

text \<open>The levels of the unread rest when the walk stands inside a level.\<close>

fun rest_levels_ok :: "u8 list list \<Rightarrow> bool" where
  "rest_levels_ok [] = True"
| "rest_levels_ok (l # ls) = (c_plus \<notin> set l \<and> c_hash \<notin> set l \<and> filter_levels_ok ls)"

lemma filter_levels_ok_step:
  assumes "x \<noteq> c_slash"
  shows "filter_levels_ok (split_at c_slash (x # s)) =
     (if x = c_plus then rest_levels_ok (split_at c_slash s) \<and> (s = [] \<or> hd s = c_slash)
      else if x = c_hash then s = []
      else rest_levels_ok (split_at c_slash s))"
proof (cases s)
  case Nil
  with assms show ?thesis by auto
next
  case (Cons y t)
  obtain l ls where "split_at c_slash t = l # ls" by (cases "split_at c_slash t") auto
  with assms Cons show ?thesis by auto
qed

lemma rest_levels_ok_step:
  "rest_levels_ok (split_at c_slash (x # s)) =
     (if x = c_slash then filter_levels_ok (split_at c_slash s)
      else x \<noteq> c_plus \<and> x \<noteq> c_hash \<and> rest_levels_ok (split_at c_slash s))"
proof -
  obtain l ls where "split_at c_slash s = l # ls" by (cases "split_at c_slash s") auto
  then show ?thesis by auto
qed

lemma sub_topic_valid_loop_str:
  "0 \<notin> set s \<Longrightarrow> sub_topic_valid_loop (s @ 0 # rest) c len =
     Some ((if c = 0 \<or> c = c_slash then filter_levels_ok (split_at c_slash s)
            else rest_levels_ok (split_at c_slash s)) \<and> len + length s \<le> 65535)"
proof (induction s arbitrary: c len)
  case Nil
  then show ?case by (auto simp: not_less)
next
  case (Cons x s)
  have peek: "rd (s @ 0 # rest) 0 = Some (if s = [] then 0 else hd s)"
    by (cases s) (auto simp: rd_def)
  have hd0: "s \<noteq> [] \<Longrightarrow> hd s \<noteq> 0"
    using Cons.prems by (cases s) auto
  show ?case
  proof (cases "x = c_slash")
    case True
    with Cons show ?thesis by (simp add: rest_levels_ok_step)
  next
    case False
    with Cons peek hd0 show ?thesis
      by (auto simp: filter_levels_ok_step rest_levels_ok_step simp del: split_at.simps(2))
  qed
qed

section \<open>The properties\<close>

text \<open>On a C string, \<open>pub_topic_valid\<close> accepts exactly the topic names of the standard:
  no wildcard anywhere and at most 65535 bytes.\<close>

lemma pub_topic_valid_spec:
  "0 \<notin> set s \<Longrightarrow> pub_topic_valid (Some (s @ 0 # rest)) = Some (pub_topic_ok s)"
  by (simp add: pub_topic_valid_def pub_topic_ok_def pub_topic_valid_loop_str)



text \<open>\<open>pub_topic_valid\<close> leaves the object it is given exactly when this holds neither a
  zero byte nor a wildcard; the handler of PUBLISH gives it the rest of the packet, where
  no zero byte ends the topic.\<close>

lemma pub_topic_valid_overread:
  "pub_topic_valid (Some bs) = None \<longleftrightarrow> 0 \<notin> set bs \<and> c_plus \<notin> set bs \<and> c_hash \<notin> set bs"
proof -
  have "pub_topic_valid_loop bs len = None \<longleftrightarrow> 0 \<notin> set bs \<and> c_plus \<notin> set bs \<and> c_hash \<notin> set bs"
    for len by (induction bs arbitrary: len) auto
  then show ?thesis by (simp add: pub_topic_valid_def)
qed

end
