(* ===== verification/Substree.thy ===== *)
theory Substree
  imports Broker_Types Utility
begin

text \<open>
  The subscription tree of \<open>broker/substree.c\<close>: splitting a topic into tokens, adding a
  subscription and walking the tree for a published topic.  Every \<open>malloc\<close>, \<open>strdup\<close>,
  \<open>calloc\<close> and \<open>realloc\<close> of these functions is tested by the code and takes its outcome
  from the list \<open>mem_alloc\<close>; freeing memory has no effect on the modelled state.
\<close>

section \<open>Tokens\<close>

definition strdup :: "token \<Rightarrow> alloc \<Rightarrow> token option \<times> alloc" where
  "strdup s al = (let (ok, al) = malloc al in (if ok then Some s else None, al))"

text \<open>\<open>_sub_topic_append\<close>: \<^const>\<open>None\<close> is the null pointer.\<close>

definition sub_topic_append ::
  "token list \<Rightarrow> token option \<Rightarrow> alloc \<Rightarrow> token list option \<times> alloc" where
  "sub_topic_append toks topic al =
     (case topic of None \<Rightarrow> (None, al)
      | Some t \<Rightarrow> (let (ok, al) = malloc al in (if ok then Some (toks @ [t]) else None, al)))"

text \<open>
  The loop over \<open>i\<close>; \<open>subtopic\<close> is the string without its zero byte, which stands at
  index \<open>len\<close>.  \<^const>\<open>None\<close> is the jump to \<open>cleanup\<close>.
\<close>

function tokenise_loop ::
  "token \<Rightarrow> nat \<Rightarrow> nat \<Rightarrow> token list \<Rightarrow> alloc \<Rightarrow> token list option \<times> alloc" where
  "tokenise_loop subtopic i start toks al =
     (if i < length subtopic + 1 then
        (if i = length subtopic \<or> subtopic ! i = c_slash then
           (let (topic, al) = (if start \<noteq> i then strdup (take (i - start) (drop start subtopic)) al
                               else strdup [] al)
            in case sub_topic_append toks topic al of
                 (None, al) \<Rightarrow> (None, al)
               | (Some toks', al) \<Rightarrow> tokenise_loop subtopic (i + 1) (i + 1) toks' al)
         else tokenise_loop subtopic (i + 1) start toks al)
      else (Some toks, al))"
  by pat_completeness auto
termination
  by (relation "measure (\<lambda>(subtopic, i, _). length subtopic + 1 - i)") auto

declare tokenise_loop.simps [simp del]

text \<open>\<open>_sub_topic_tokenise\<close>: \<^const>\<open>None\<close> stands for the return value 1.\<close>

definition first_is :: "token \<Rightarrow> u8 \<Rightarrow> bool" where
  "first_is s c \<longleftrightarrow> s \<noteq> [] \<and> hd s = c"

definition sub_topic_tokenise :: "token \<Rightarrow> alloc \<Rightarrow> token list option \<times> alloc" where
  "sub_topic_tokenise subtopic al =
     (case (if first_is subtopic c_dollar then (Some [], al)
            else let (e, al) = strdup [] al in sub_topic_append [] e al) of
        (None, al) \<Rightarrow> (None, al)
      | (Some toks, al) \<Rightarrow>
          (if first_is subtopic c_slash then
             (case (let (e, al) = strdup [] al in sub_topic_append toks e al) of
                (None, al) \<Rightarrow> (None, al)
              | (Some toks, al) \<Rightarrow> tokenise_loop subtopic 1 1 toks al)
           else tokenise_loop subtopic 0 0 toks al))"

section \<open>Adding a subscription\<close>

text \<open>\<open>strcmp\<close> of two client identifiers.\<close>

definition same_id :: "(slot \<Rightarrow> client) \<Rightarrow> slot \<Rightarrow> slot \<Rightarrow> bool" where
  "same_id st a b \<longleftrightarrow> cstr (cid (st a)) = cstr (cid (st b))"

text \<open>The walk over the leaves of a node: the first leaf of this identifier gets the QoS.\<close>

fun leaf_update ::
  "(slot \<Rightarrow> client) \<Rightarrow> slot \<Rightarrow> int \<Rightarrow> subleaf list \<Rightarrow> subleaf list option" where
  "leaf_update st ctx qos [] = None"
| "leaf_update st ctx qos (l # ls) =
     (if same_id st (l_context l) ctx then Some (l\<lparr>l_qos := qos\<rparr> # ls)
      else map_option ((#) l) (leaf_update st ctx qos ls))"

text \<open>
  The client's array of node pointers: the first null entry is reused, otherwise the array
  grows by one (\<open>realloc\<close>).
\<close>

fun fill_null :: "'a \<Rightarrow> 'a option list \<Rightarrow> 'a option list option" where
  "fill_null p [] = None"
| "fill_null p (x # xs) =
     (if x = None then Some (Some p # xs) else map_option ((#) x) (fill_null p xs))"

definition add_sub_ptr ::
  "token list \<Rightarrow> client \<Rightarrow> alloc \<Rightarrow> client option \<times> alloc" where
  "add_sub_ptr path c al =
     (case fill_null path (subs c) of
        Some s \<Rightarrow> (Some (c\<lparr>subs := s\<rparr>), al)
      | None \<Rightarrow> (let (ok, al) = malloc al
                 in (if ok then Some (c\<lparr>subs := subs c @ [Some path]\<rparr>) else None, al)))"

definition sub_add_leaf ::
  "slot \<Rightarrow> int \<Rightarrow> token list \<Rightarrow> (slot \<Rightarrow> client) \<Rightarrow> subhier \<Rightarrow> alloc \<Rightarrow>
   int \<times> (slot \<Rightarrow> client) \<times> subhier \<times> alloc" where
  "sub_add_leaf ctx qos path st h al =
     (case leaf_update st ctx qos (sh_subs h) of
        Some ls \<Rightarrow> (0, st, Subhier (sh_topic h) ls (sh_children h), al)
      | None \<Rightarrow>
          (let (ok, al) = malloc al
           in if \<not> ok then (-2, st, h, al)
              else case add_sub_ptr path (st ctx) al of
                (None, al) \<Rightarrow> (-2, st, h, al)
              | (Some c, al) \<Rightarrow>
                  (0, st(ctx := c),
                   Subhier (sh_topic h) (sh_subs h @ [\<lparr>l_context = ctx, l_qos = qos\<rparr>])
                     (sh_children h), al)))"

text \<open>The position of the first child with this topic; the number of children if none has it.\<close>

definition branch_pos :: "token \<Rightarrow> subhier list \<Rightarrow> nat" where
  "branch_pos t cs = length (takeWhile (\<lambda>b. sh_topic b \<noteq> t) cs)"

text \<open>\<open>_sub_add\<close>; \<open>path\<close> is the path of \<open>h\<close>, the value of the pointer to it.\<close>

fun sub_add ::
  "slot \<Rightarrow> int \<Rightarrow> token list \<Rightarrow> token list \<Rightarrow> (slot \<Rightarrow> client) \<Rightarrow> subhier \<Rightarrow> alloc \<Rightarrow>
   int \<times> (slot \<Rightarrow> client) \<times> subhier \<times> alloc" where
  "sub_add ctx qos path [] st h al = sub_add_leaf ctx qos path st h al"
| "sub_add ctx qos path (t # ts) st h al =
     (let cs = sh_children h; i = branch_pos t cs
      in if i < length cs then
           (case sub_add ctx qos (path @ [t]) ts st (cs ! i) al of
              (rc, st, b, al) \<Rightarrow> (rc, st, Subhier (sh_topic h) (sh_subs h) (cs[i := b]), al))
         else
           (let (ok1, al) = malloc al in
            if \<not> ok1 then (-2, st, h, al)
            else let (ok2, al) = malloc al in
            if \<not> ok2 then (-2, st, h, al)
            else (case sub_add ctx qos (path @ [t]) ts st (Subhier t [] []) al of
                    (rc, st, b, al) \<Rightarrow>
                      (rc, st, Subhier (sh_topic h) (sh_subs h) (cs @ [b]), al))))"

text \<open>
  \<open>mqtt3_sub_add\<close>.  The root lock is taken before the tree is searched; the two failing
  allocations return while it is held.
\<close>

definition mqtt3_sub_add ::
  "broker \<Rightarrow> slot \<Rightarrow> token \<Rightarrow> int \<Rightarrow> (int \<times> broker) outcome" where
  "mqtt3_sub_add bro ctx sub qos =
     (case sub_topic_tokenise sub (mem_alloc bro) of
        (None, al) \<Rightarrow> Ok (1, bro\<lparr>mem_alloc := al\<rparr>)
      | (Some tokens, al) \<Rightarrow>
          if root_lock bro then Blocked
          else case tokens of [] \<Rightarrow> Fault
          | t # _ \<Rightarrow>
            (let cs = subs_children bro; i = branch_pos t cs
             in if i < length cs then
                  (case sub_add ctx qos [t] tokens (clients bro) (cs ! i) al of
                     (rc, st, h, al) \<Rightarrow>
                       Ok (if rc = -1 then 0 else rc,
                           bro\<lparr>clients := st, subs_children := cs[i := h], mem_alloc := al\<rparr>))
                else
                  (let (ok1, al) = malloc al in
                   if \<not> ok1 then Ok (-2, bro\<lparr>root_lock := True, mem_alloc := al\<rparr>)
                   else let (ok2, al) = malloc al in
                   if \<not> ok2 then Ok (-2, bro\<lparr>root_lock := True, mem_alloc := al\<rparr>)
                   else (case sub_add ctx qos [t] tokens (clients bro) (Subhier t [] []) al of
                     (rc, st, h, al) \<Rightarrow>
                       Ok (if rc = -1 then 0 else rc,
                           bro\<lparr>clients := st, subs_children := h # cs, mem_alloc := al\<rparr>)))))"

section \<open>Publishing\<close>

text \<open>The callback gets a client, the topic, the payload and its length.\<close>

type_synonym callback = "client \<Rightarrow> token \<Rightarrow> u8 list \<Rightarrow> u32 \<Rightarrow> client outcome"

text \<open>
  \<open>_subs_process\<close>.  The tests of \<open>context->id\<close> and \<open>leaf->context->id\<close> compare an array
  with the null pointer and are always true; the return value is ignored by both callers.
\<close>

fun subs_process ::
  "callback \<Rightarrow> token \<Rightarrow> u8 list \<Rightarrow> u32 \<Rightarrow> subleaf list \<Rightarrow> (slot \<Rightarrow> client) \<Rightarrow>
   (slot \<Rightarrow> client) outcome" where
  "subs_process cb topic payload len [] st = Ok st"
| "subs_process cb topic payload len (l # ls) st =
     (if is_subscribe (st (l_context l))
      then obind (cb (st (l_context l)) topic payload len)
             (\<lambda>c. subs_process cb topic payload len ls (st(l_context l := c)))
      else subs_process cb topic payload len ls st)"

text \<open>\<open>_sub_search\<close> on the remaining branches of a node.\<close>

abbreviation plus_tok :: token where "plus_tok \<equiv> [c_plus]"
abbreviation hash_tok :: token where "hash_tok \<equiv> [c_hash]"

function sub_search ::
  "callback \<Rightarrow> token \<Rightarrow> u8 list \<Rightarrow> u32 \<Rightarrow> token list \<Rightarrow> subhier list \<Rightarrow> (slot \<Rightarrow> client) \<Rightarrow>
   (slot \<Rightarrow> client) outcome" where
  "sub_search cb topic payload len tokens [] st = Ok st"
| "sub_search cb topic payload len tokens (b # bs) st =
     obind
       (if tokens \<noteq> [] \<and> (sh_topic b = hd tokens \<or> sh_topic b = plus_tok) then
          obind (sub_search cb topic payload len (tl tokens) (sh_children b) st)
            (\<lambda>st. if tl tokens = [] then subs_process cb topic payload len (sh_subs b) st else Ok st)
        else if sh_topic b = hash_tok \<and> sh_children b = [] then
          subs_process cb topic payload len (sh_subs b) st
        else Ok st)
       (\<lambda>st. sub_search cb topic payload len tokens bs st)"
  by pat_completeness auto
termination
  by (relation "measures [\<lambda>(_, _, _, _, toks, _, _). length toks, \<lambda>(_, _, _, _, _, bs, _). length bs]")
    auto

text \<open>\<open>mqtt3_sub_tree_process\<close>: every top-level node with the first token is searched.\<close>

fun process_tops ::
  "callback \<Rightarrow> token \<Rightarrow> u8 list \<Rightarrow> u32 \<Rightarrow> token list \<Rightarrow> subhier list \<Rightarrow> (slot \<Rightarrow> client) \<Rightarrow>
   (slot \<Rightarrow> client) outcome" where
  "process_tops cb topic payload len tokens [] st = Ok st"
| "process_tops cb topic payload len tokens (h # hs) st =
     obind
       (if sh_topic h = hd tokens then sub_search cb topic payload len tokens (sh_children h) st
        else Ok st)
       (\<lambda>st. process_tops cb topic payload len tokens hs st)"

definition mqtt3_sub_tree_process ::
  "broker \<Rightarrow> slot \<Rightarrow> token \<Rightarrow> u8 list \<Rightarrow> u32 \<Rightarrow> callback \<Rightarrow> (int \<times> broker) outcome" where
  "mqtt3_sub_tree_process db ctx topic payload len cb =
     (case sub_topic_tokenise topic (mem_alloc db) of
        (None, al) \<Rightarrow> Ok (1, db\<lparr>mem_alloc := al\<rparr>)
      | (Some tokens, al) \<Rightarrow>
          if tokens = [] \<and> subs_children db \<noteq> [] then Fault
          else obind (process_tops cb topic payload len tokens (subs_children db) (clients db))
                 (\<lambda>st. Ok (0, db\<lparr>clients := st, mem_alloc := al\<rparr>)))"

end
