(* ===== verification/Mqtt_Serialiser.thy ===== *)
theory Mqtt_Serialiser
  imports Mqtt_Types "HOL-Library.Monad_Syntax"
begin

text \<open>
  \<open>mqtt_serialiser_size\<close> and \<open>mqtt_serialiser_write\<close> of \<open>broker/mqtt.c\<close>.  The code
  writes the bytes of the packet one after the other from the start of the caller's buffer;
  \<open>serialise\<close> is that sequence of bytes, and \<open>mqtt_serialiser_write\<close> puts it into the
  buffer, with \<^const>\<open>None\<close> for a write past the buffer or a read past a source buffer.
\<close>

unbundle bit_operations_syntax

section \<open>The size of a packet\<close>

definition length_size :: "u32 \<Rightarrow> nat" where
  "length_size l =
     (if l \<le> 127 then 1 else if l \<le> 16383 then 2 else if l \<le> 2097151 then 3
      else if l \<le> 268435455 then 4 else 0)"

abbreviation blen_nat :: "mqtt_buffer \<Rightarrow> nat" where
  "blen_nat b \<equiv> unat (blen b)"

definition mqtt_serialiser_size :: "mqtt_message \<Rightarrow> nat" where
  "mqtt_serialiser_size m =
     1 + length_size (m_length m) +
     (if m_type m = MQTT_TYPE_PUBLISH then
        2 + blen_nat (topic_name (m_publish m)) + blen_nat (content (m_publish m))
      else if m_type m = MQTT_TYPE_SUBACK then 3
      else if m_type m = MQTT_TYPE_CONNECT then
        (let c = m_connect m in
         8 + blen_nat (protocol_name c) + blen_nat (client_id c) +
         (if username_follows (flags c) \<noteq> 0 then 2 + blen_nat (username c) else 0) +
         (if password_follows (flags c) \<noteq> 0 then 2 + blen_nat (password c) else 0) +
         (if will (flags c) \<noteq> 0 then 4 + blen_nat (will_topic c) + blen_nat (will_message c) else 0))
      else if m_type m = MQTT_TYPE_CONNACK then 2
      else 0)"

section \<open>The bytes of a packet\<close>

text \<open>\<open>retain + (qos << 1) + (dup << 3) + (type << 4)\<close>, stored into a byte.\<close>

definition command_byte :: "mqtt_message \<Rightarrow> u8" where
  "command_byte m =
     ucast (m_retain m + push_bit 1 (m_qos m) + push_bit 3 (m_dup m) + push_bit 4 (m_type m))"

text \<open>The \<open>do\<close> loop over the remaining length.\<close>

function write_length :: "u32 \<Rightarrow> u8 list" where
  "write_length remaining =
     (let b = ucast (remaining mod 128) :: u8; remaining' = remaining div 128
      in if 0 < remaining' then (b OR 0x80) # write_length remaining' else [b])"
  by pat_completeness auto
termination
proof (relation "measure unat")
  fix remaining :: u32 and b :: u8 and remaining'
  assume r: "remaining' = remaining div 128" "0 < remaining'"
  then have "0 < unat remaining div 128" by (simp add: word_less_nat_alt unat_div)
  then have "unat remaining div 128 < unat remaining" by (intro div_less_dividend) auto
  with r show "(remaining', remaining) \<in> measure unat" by (simp add: unat_div)
qed simp

declare write_length.simps [simp del]

text \<open>The macro \<open>WRITE_STRING\<close>: note the division by \<open>0xff\<close>.\<close>

definition write_string :: "mqtt_buffer \<Rightarrow> u8 list option" where
  "write_string name = do {
     s \<leftarrow> mem_read (bdata name) (blen_nat name);
     Some ([ucast (blen name div 0xff), ucast (blen name AND 0xff)] @ s)
   }"

definition connect_flags_byte :: "connect_flags \<Rightarrow> u8" where
  "connect_flags_byte f =
     push_bit 7 (username_follows f) + push_bit 6 (password_follows f) +
     push_bit 5 (will_retain f) + push_bit 3 (will_qos f) + push_bit 2 (will f) +
     push_bit 1 (clean_session f)"

definition hi16 :: "u16 \<Rightarrow> u8" where "hi16 w = ucast (drop_bit 8 w)"
definition lo16 :: "u16 \<Rightarrow> u8" where "lo16 w = ucast (w AND 0xff)"

definition write_connect :: "mqtt_connect \<Rightarrow> u8 list option" where
  "write_connect c = do {
     pn \<leftarrow> write_string (protocol_name c);
     cid \<leftarrow> write_string (client_id c);
     wt \<leftarrow> (if will (flags c) \<noteq> 0 then write_string (will_topic c) else Some []);
     wm \<leftarrow> (if will (flags c) \<noteq> 0 then write_string (will_message c) else Some []);
     un \<leftarrow> (if username_follows (flags c) \<noteq> 0 then write_string (username c) else Some []);
     pw \<leftarrow> (if password_follows (flags c) \<noteq> 0 then write_string (password c) else Some []);
     Some (pn @ [protocol_version c, connect_flags_byte (flags c),
                 hi16 (keep_alive c), lo16 (keep_alive c)] @ cid @ wt @ wm @ un @ pw)
   }"

definition serialise :: "mqtt_message \<Rightarrow> (mqtt_serialiser_rc \<times> u8 list) option" where
  "serialise m = (let header = command_byte m # write_length (m_length m) in
     if m_type m = MQTT_TYPE_PUBLISH then do {
       t \<leftarrow> write_string (topic_name (m_publish m));
       c \<leftarrow> mem_read (bdata (content (m_publish m))) (blen_nat (content (m_publish m)));
       Some (MQTT_SERIALISER_RC_SUCCESS, header @ t @ c)
     }
     else if m_type m = MQTT_TYPE_SUBACK then
       Some (MQTT_SERIALISER_RC_SUCCESS, header @
         [hi16 (sa_message_id (m_suback m)), lo16 (sa_message_id (m_suback m)),
          sa_return_code (m_suback m)])
     else if m_type m = MQTT_TYPE_CONNECT then do {
       b \<leftarrow> write_connect (m_connect m);
       Some (MQTT_SERIALISER_RC_SUCCESS, header @ b)
     }
     else if m_type m = MQTT_TYPE_CONNACK then
       Some (MQTT_SERIALISER_RC_SUCCESS, header @
         [ca_unused (m_connack m), ca_return_code (m_connack m)])
     else Some (MQTT_SERIALISER_RC_ERROR, header))"

definition mqtt_serialiser_write ::
  "mqtt_message \<Rightarrow> u8 list \<Rightarrow> (mqtt_serialiser_rc \<times> u8 list) option" where
  "mqtt_serialiser_write m buffer = do {
     (rc, bs) \<leftarrow> serialise m;
     if length bs \<le> length buffer then Some (rc, bs @ drop (length bs) buffer) else None
   }"

end
