(* ===== verification/Hand_Mqtt.thy ===== *)
theory Hand_Mqtt
  imports Client_Queue Substree Mqtt_Serialiser
begin

text \<open>
  The handlers of \<open>broker/hand_mqtt.c\<close>: making the packets that go out, and the reaction to
  each kind of packet that came in.  The results of \<open>malloc\<close> are not tested here, so the
  model has no failure for them; the two topic checks are called and their results are
  ignored, as in the code, but a check that leaves the packet is \<^const>\<open>Fault\<close>.  A client's
  slot is \<open>base_sock + fd\<close>.
\<close>

section \<open>Outgoing packets\<close>

definition make_packet :: "mqtt_message \<Rightarrow> packet outcome" where
  "make_packet m =
     (let len = (of_nat (mqtt_serialiser_size m) :: u32)
      in case mqtt_serialiser_write m (replicate (unat len) 0) of
           None \<Rightarrow> Fault
         | Some (rc, buf) \<Rightarrow> Ok (new_packet buf len))"

text \<open>
  \<open>publish_msg\<close>: \<open>topic\<close> is the C string without its zero byte, \<open>payload\<close> the object of the
  payload.
\<close>

definition publish_packet :: "token \<Rightarrow> u8 list \<Rightarrow> u32 \<Rightarrow> mqtt_message" where
  "publish_packet topic payload payload_len = message0\<lparr>
     m_type := MQTT_TYPE_PUBLISH,
     m_length := 2 + of_nat (length topic) + payload_len,
     m_publish := \<lparr>topic_name = \<lparr>blen = of_nat (length topic), bdata = Some (topic @ [0])\<rparr>,
                   pub_message_id = 0,
                   content = \<lparr>blen = payload_len, bdata = Some payload\<rparr>\<rparr>\<rparr>"

definition publish_msg :: callback where
  "publish_msg context topic payload payload_len =
     obind (make_packet (publish_packet topic payload payload_len))
       (\<lambda>pk. enqueue pk context)"

definition ack_packet :: "client \<Rightarrow> u32 \<Rightarrow> u32 \<Rightarrow> u8 \<Rightarrow> mqtt_message option" where
  "ack_packet context mqtt_cmd payload_len ret_code =
     (if mqtt_cmd = MQTT_TYPE_CONNACK then
        Some (message0\<lparr>m_type := MQTT_TYPE_CONNACK, m_length := payload_len,
          m_connack := \<lparr>ca_unused = 0, ca_return_code = ret_code\<rparr>\<rparr>)
      else if mqtt_cmd = MQTT_TYPE_SUBACK then
        Some (message0\<lparr>m_type := MQTT_TYPE_SUBACK, m_length := payload_len,
          m_suback := \<lparr>sa_message_id = last_mid context, sa_return_code = ret_code\<rparr>\<rparr>)
      else if mqtt_cmd = MQTT_TYPE_PINGRESP then
        Some (message0\<lparr>m_type := MQTT_TYPE_PINGRESP, m_length := payload_len\<rparr>)
      else None)"

definition ack_msg :: "client \<Rightarrow> u32 \<Rightarrow> u32 \<Rightarrow> u8 \<Rightarrow> client outcome" where
  "ack_msg context mqtt_cmd payload_len ret_code =
     (case ack_packet context mqtt_cmd payload_len ret_code of
        None \<Rightarrow> Ok context
      | Some m \<Rightarrow> obind (make_packet m) (\<lambda>pk. enqueue pk context))"

section \<open>Incoming packets\<close>

text \<open>
  \<open>malloc (length + 1)\<close>, \<open>memcpy\<close> and the terminating zero byte: the length is a
  \<open>uint32_t\<close> and its successor may wrap to an empty object.
\<close>

definition copy_terminated :: "mqtt_buffer \<Rightarrow> u8 list outcome" where
  "copy_terminated b =
     (if blen b + 1 = 0 then Fault
      else case mem_read (bdata b) (unat (blen b)) of None \<Rightarrow> Fault | Some bs \<Rightarrow> Ok (bs @ [0]))"

text \<open>\<open>add_client\<close> of \<open>broker/broker.c\<close>, for a client in slot \<open>s\<close>; it always returns true.\<close>

definition add_client :: "mqtt_buffer \<Rightarrow> slot \<Rightarrow> broker \<Rightarrow> broker outcome" where
  "add_client ident s bro =
     (case mem_read (bdata ident) (unat (blen ident)) of
        None \<Rightarrow> Fault
      | Some bs \<Rightarrow>
          if 24 < length bs then Fault
          else Ok (bro\<lparr>clients := (clients bro)(s := (clients bro s)
                 \<lparr>itself := Some s, cid := bs @ replicate (24 - length bs) 0,
                  num_sending_pack := 0, cstate := cs_connected\<rparr>)\<rparr>))"

definition set_client :: "slot \<Rightarrow> client \<Rightarrow> broker \<Rightarrow> broker" where
  "set_client s c bro = bro\<lparr>clients := (clients bro)(s := c)\<rparr>"

definition handle_publish :: "slot \<Rightarrow> mqtt_message \<Rightarrow> broker \<Rightarrow> (u8 \<times> broker) outcome" where
  "handle_publish s m bro =
     (if m_qos m = 0 \<and> bdata (topic_name (m_publish m)) \<noteq> None then
        (case pub_topic_valid (bdata (topic_name (m_publish m))) of
           None \<Rightarrow> Fault
         | Some _ \<Rightarrow>
             obind (copy_terminated (content (m_publish m))) (\<lambda>cont.
             obind (copy_terminated (topic_name (m_publish m))) (\<lambda>topic.
             let bro = set_client s ((clients bro s)\<lparr>last_mid := pub_message_id (m_publish m)\<rparr>) bro
             in obind (mqtt3_sub_tree_process bro s (cstr topic) cont
                    (blen (content (m_publish m))) publish_msg)
                  (\<lambda>(rc, bro). Ok (0, bro)))))
      else Ok (0, bro))"

text \<open>\<open>fd\<close> is \<open>context->sock\<close>, which is where \<open>add_client\<close> looks for the client.\<close>

definition handle_connect :: "nat \<Rightarrow> slot \<Rightarrow> mqtt_message \<Rightarrow> broker \<Rightarrow> (u8 \<times> broker) outcome" where
  "handle_connect base s m bro =
     (let ident = client_id (m_connect m)
      in obind
           (if 23 < blen ident then Ok (2, bro)
            else if 0 < blen ident then
              obind (add_client ident (nat (int base + sock (clients bro s))) bro) (\<lambda>bro. Ok (0, bro))
            else Ok (0 :: u8, bro))
           (\<lambda>(ret_code, bro).
              obind (ack_msg (clients bro s) MQTT_TYPE_CONNACK 2 ret_code)
                (\<lambda>c. Ok (ret_code, set_client s c bro))))"

definition handle_subscribe :: "slot \<Rightarrow> mqtt_message \<Rightarrow> broker \<Rightarrow> (u8 \<times> broker) outcome" where
  "handle_subscribe s m bro =
     obind
       (case topics (m_subscribe m) of
          None \<Rightarrow> Ok (0 :: u8, bro)
        | Some tp \<Rightarrow>
            if bdata (tp_name tp) = None then Ok (0, bro)
            else (case sub_topic_valid (bdata (tp_name tp)) of
              None \<Rightarrow> Fault
            | Some _ \<Rightarrow>
                if cstate (clients bro s) = cs_connected then
                  obind (copy_terminated (tp_name tp)) (\<lambda>topic.
                  let bro = set_client s ((clients bro s)\<lparr>last_mid := sub_message_id (m_subscribe m)\<rparr>) bro
                  in obind (mqtt3_sub_add bro s (cstr topic) (int (unat (tp_qos tp)))) (\<lambda>(rc, bro).
                     let ret_code = (of_int rc :: u8)
                     in Ok (ret_code, if ret_code = 0
                              then set_client s ((clients bro s)\<lparr>is_subscribe := True\<rparr>) bro else bro)))
                else Ok (0x80, bro)))
       (\<lambda>(ret_code, bro).
          obind (ack_msg (clients bro s) MQTT_TYPE_SUBACK 3 ret_code)
            (\<lambda>c. Ok (ret_code, set_client s c bro)))"

text \<open>
  \<open>handle_mqtt_command\<close> for the client in slot \<open>s\<close>, whose \<open>in_packet\<close> must not be null; the
  return value is the \<open>uint8_t\<close> return code.
\<close>

definition handle_mqtt_command :: "nat \<Rightarrow> slot \<Rightarrow> broker \<Rightarrow> (u8 \<times> broker) outcome" where
  "handle_mqtt_command base s bro =
     (case in_packet (clients bro s) of None \<Rightarrow> Fault
      | Some m \<Rightarrow>
          obind
            (if m_type m = MQTT_TYPE_PUBLISH then handle_publish s m bro
             else if m_type m = MQTT_TYPE_CONNECT then handle_connect base s m bro
             else if m_type m = MQTT_TYPE_SUBSCRIBE then handle_subscribe s m bro
             else if m_type m = MQTT_TYPE_PINGREQ then
               obind (ack_msg (clients bro s) MQTT_TYPE_PINGRESP 0 0)
                 (\<lambda>c. Ok (0, set_client s c bro))
             else if m_type m = MQTT_TYPE_UNSUBSCRIBE then Ok (0, bro)
             else if m_type m = MQTT_TYPE_DISCONNECT then Ok (1, bro)
             else Ok (0, bro))
            (\<lambda>(ret_code, bro). Ok (ret_code,
               set_client s ((clients bro s)\<lparr>in_packet := free_mqtt_msg (in_packet (clients bro s))\<rparr>) bro)))"

end
