(* ===== verification/Mqtt_Parser.thy ===== *)
theory Mqtt_Parser
  imports Mqtt_Types
begin

text \<open>
  \<open>mqtt_parser_command\<close> and the packet parser \<open>mqtt_parser_execute\<close> of
  \<open>broker/mqtt.c\<close>.  One round of the parser's loop is \<open>parser_step\<close>; the loop has no
  bound in the code and is a \<open>partial_function\<close>, so that not returning is the value
  \<^const>\<open>None\<close>.  A read outside the packet is the outcome \<open>PFault\<close>.
\<close>

unbundle bit_operations_syntax

section \<open>The command byte\<close>

definition mqtt_parser_command :: "mqtt_message \<Rightarrow> u8 \<Rightarrow> mqtt_message" where
  "mqtt_parser_command message data = message\<lparr>
     m_retain := ucast (drop_bit 0 data AND 0x01),
     m_qos := ucast (drop_bit 1 data AND 0x03),
     m_dup := ucast (drop_bit 3 data AND 0x01),
     m_type := ucast (drop_bit 4 data AND 0x0f)\<rparr>"

section \<open>Reading strings and contents\<close>

text \<open>\<open>data[i] * 256 + data[i + 1]\<close>, also written \<open>(data[i] << 8) + data[i + 1]\<close>.\<close>

definition be16 :: "u8 \<Rightarrow> u8 \<Rightarrow> nat" where
  "be16 hi lo = unat hi * 256 + unat lo"

datatype read_result = RdFault | RdIncomplete | RdOk mqtt_buffer nat

definition read_string :: "u8 list \<Rightarrow> nat \<Rightarrow> nat \<Rightarrow> read_result" where
  "read_string data len nread =
     (if size_minus len nread < 2 then RdIncomplete
      else case (rd data nread, rd data (nread + 1)) of
        (Some hi, Some lo) \<Rightarrow>
          (let str_length = be16 hi lo
           in if size_minus (size_minus len nread) 2 < str_length then RdIncomplete
              else RdOk \<lparr>blen = of_nat str_length, bdata = Some (drop (nread + 2) data)\<rparr>
                        (nread + 2 + str_length))
      | _ \<Rightarrow> RdFault)"

text \<open>The first test of the macro compares an unsigned value with 0 and never holds.\<close>

definition read_message :: "u8 list \<Rightarrow> nat \<Rightarrow> nat \<Rightarrow> u32 \<Rightarrow> read_result" where
  "read_message data len nread str_len =
     (if size_minus len nread < unat str_len then RdIncomplete
      else RdOk \<lparr>blen = str_len, bdata = Some (drop nread data)\<rparr> (nread + unat str_len))"

section \<open>One round of the loop\<close>

datatype parse_result =
    PFault
  | PReturn mqtt_parser_rc mqtt_parser mqtt_message nat
  | PNext mqtt_parser mqtt_message nat

definition with_string ::
  "u8 list \<Rightarrow> nat \<Rightarrow> nat \<Rightarrow> mqtt_parser \<Rightarrow> mqtt_message \<Rightarrow>
   (mqtt_buffer \<Rightarrow> nat \<Rightarrow> parse_result) \<Rightarrow> parse_result" where
  "with_string data len nread p m k =
     (case read_string data len nread of
        RdFault \<Rightarrow> PFault
      | RdIncomplete \<Rightarrow> PReturn MQTT_PARSER_RC_INCOMPLETE p m nread
      | RdOk b n \<Rightarrow> k b n)"

abbreviation goto :: "mqtt_parser \<Rightarrow> mqtt_parser_state \<Rightarrow> mqtt_parser" where
  "goto p s \<equiv> p\<lparr>p_state := s\<rparr>"

abbreviation upd_connect ::
  "(mqtt_connect \<Rightarrow> mqtt_connect) \<Rightarrow> mqtt_message \<Rightarrow> mqtt_message" where
  "upd_connect f m \<equiv> m\<lparr>m_connect := f (m_connect m)\<rparr>"

definition connect_flags_of :: "u8 \<Rightarrow> connect_flags" where
  "connect_flags_of d =
     \<lparr>username_follows = drop_bit 7 d AND 0x01,
      password_follows = drop_bit 6 d AND 0x01,
      will_retain = drop_bit 5 d AND 0x01,
      will_qos = drop_bit 4 d AND 0x02,
      will = drop_bit 2 d AND 0x01,
      clean_session = drop_bit 1 d AND 0x01\<rparr>"

text \<open>The test \<open>message->common.qos > 0 && message->common.qos < 3\<close>.\<close>

definition qos_acked :: "mqtt_message \<Rightarrow> bool" where
  "qos_acked m \<longleftrightarrow> 0 < m_qos m \<and> m_qos m < 3"

text \<open>The states of the packet types other than CONNECT.\<close>

definition step_connack ::
  "mqtt_parser \<Rightarrow> mqtt_message \<Rightarrow> u8 list \<Rightarrow> nat \<Rightarrow> nat \<Rightarrow> parse_result" where
  "step_connack p m data len nread =
    (if size_minus len nread < 2 then PReturn MQTT_PARSER_RC_INCOMPLETE p m nread
     else case (rd data nread, rd data (nread + 1)) of
       (Some u, Some r) \<Rightarrow>
         PReturn MQTT_PARSER_RC_DONE (goto p MQTT_PARSER_STATE_INITIAL)
           (m\<lparr>m_connack := \<lparr>ca_unused = u, ca_return_code = r\<rparr>\<rparr>) (nread + 2)
     | _ \<Rightarrow> PFault)"

definition step_publish_id ::
  "mqtt_parser \<Rightarrow> mqtt_message \<Rightarrow> u8 list \<Rightarrow> nat \<Rightarrow> nat \<Rightarrow> parse_result" where
  "step_publish_id p m data len nread =
    (if size_minus len nread < 2 then PReturn MQTT_PARSER_RC_INCOMPLETE p m nread
     else let m0 = m\<lparr>m_publish := (m_publish m)\<lparr>pub_message_id := 0\<rparr>\<rparr>
     in if qos_acked m
        then (case (rd data nread, rd data (nread + 1)) of
                (Some hi, Some lo) \<Rightarrow>
                  PNext (goto p MQTT_PARSER_STATE_PUBLISH_MESSAGE)
                    (m\<lparr>m_publish := (m_publish m)\<lparr>pub_message_id := of_nat (be16 hi lo)\<rparr>\<rparr>)
                    (nread + 2)
              | _ \<Rightarrow> PFault)
        else PNext (goto p MQTT_PARSER_STATE_PUBLISH_MESSAGE) m0 nread)"

definition step_publish_message ::
  "mqtt_parser \<Rightarrow> mqtt_message \<Rightarrow> u8 list \<Rightarrow> nat \<Rightarrow> nat \<Rightarrow> parse_result" where
  "step_publish_message p m data len nread =
    (let msg_len = m_length m - blen (topic_name (m_publish m)) - 2;
         msg_len = (if qos_acked m then msg_len - 2 else msg_len)
     in case read_message data len nread msg_len of
          RdFault \<Rightarrow> PFault
        | RdIncomplete \<Rightarrow> PReturn MQTT_PARSER_RC_INCOMPLETE p m nread
        | RdOk b n \<Rightarrow> PReturn MQTT_PARSER_RC_DONE (goto p MQTT_PARSER_STATE_INITIAL)
            (m\<lparr>m_publish := (m_publish m)\<lparr>content := b\<rparr>\<rparr>) n)"

definition step_subscribe ::
  "mqtt_parser \<Rightarrow> mqtt_message \<Rightarrow> u8 list \<Rightarrow> nat \<Rightarrow> nat \<Rightarrow> parse_result" where
  "step_subscribe p m data len nread =
    (if size_minus len nread < 2 then PReturn MQTT_PARSER_RC_INCOMPLETE p m nread
     else case (rd data nread, rd data (nread + 1)) of
       (Some hi, Some lo) \<Rightarrow>
         PNext (goto p MQTT_PARSER_STATE_SUBSCRIBE_TOPIC_NAME)
           (m\<lparr>m_subscribe := (m_subscribe m)\<lparr>sub_message_id := of_nat (be16 hi lo)\<rparr>\<rparr>)
           (nread + 2)
     | _ \<Rightarrow> PFault)"

definition step_subscribe_topic ::
  "mqtt_parser \<Rightarrow> mqtt_message \<Rightarrow> u8 list \<Rightarrow> nat \<Rightarrow> nat \<Rightarrow> parse_result" where
  "step_subscribe_topic p m data len nread =
    (let tp = (case topics (m_subscribe m) of None \<Rightarrow> topicpair0 | Some t \<Rightarrow> t);
         m1 = m\<lparr>m_subscribe := (m_subscribe m)\<lparr>topics := Some tp\<rparr>\<rparr>
     in with_string data len nread p m1 (\<lambda>b n.
          case rd data n of None \<Rightarrow> PFault
          | Some q \<Rightarrow> PReturn MQTT_PARSER_RC_DONE (goto p MQTT_PARSER_STATE_INITIAL)
              (m1\<lparr>m_subscribe := (m_subscribe m1)
                 \<lparr>topics := Some \<lparr>tp_name = b, tp_qos = ucast q\<rparr>\<rparr>\<rparr>) (n + 1)))"

text \<open>One round, for every state.\<close>

fun parser_step ::
  "mqtt_parser \<Rightarrow> mqtt_message \<Rightarrow> u8 list \<Rightarrow> nat \<Rightarrow> nat \<Rightarrow> parse_result" where
  "parser_step p m data len nread =
    (case p_state p of
       MQTT_PARSER_STATE_INITIAL \<Rightarrow>
         (if m_type m = MQTT_TYPE_CONNECT then PNext (goto p MQTT_PARSER_STATE_CONNECT) m nread
          else if m_type m = MQTT_TYPE_CONNACK then PNext (goto p MQTT_PARSER_STATE_CONNACK) m nread
          else if m_type m = MQTT_TYPE_PUBLISH then PNext (goto p MQTT_PARSER_STATE_PUBLISH) m nread
          else if m_type m = MQTT_TYPE_SUBSCRIBE then
            PNext (goto p MQTT_PARSER_STATE_SUBSCRIBE) m nread
          else if m_type m = MQTT_TYPE_PINGREQ then
            PReturn MQTT_PARSER_RC_DONE (goto p MQTT_PARSER_STATE_INITIAL) m nread
          else if m_type m = MQTT_TYPE_DISCONNECT then
            PReturn MQTT_PARSER_RC_DONE (goto p MQTT_PARSER_STATE_INITIAL) m nread
          else PReturn MQTT_PARSER_RC_ERROR
                 (p\<lparr>p_error := MQTT_ERROR_PARSER_INVALID_MESSAGE_ID\<rparr>) m nread)
     | MQTT_PARSER_STATE_VARIABLE_HEADER \<Rightarrow>
         (if m_type m = MQTT_TYPE_CONNECT
          then PNext (goto p MQTT_PARSER_STATE_CONNECT_PROTOCOL_NAME) m nread
          else PNext p m nread)
     | MQTT_PARSER_STATE_CONNECT \<Rightarrow> PNext (goto p MQTT_PARSER_STATE_CONNECT_PROTOCOL_NAME) m nread
     | MQTT_PARSER_STATE_CONNECT_PROTOCOL_NAME \<Rightarrow>
         with_string data len nread p m (\<lambda>b n.
           PNext (goto p MQTT_PARSER_STATE_CONNECT_PROTOCOL_VERSION)
             (upd_connect (\<lambda>c. c\<lparr>protocol_name := b\<rparr>) m) n)
     | MQTT_PARSER_STATE_CONNECT_PROTOCOL_VERSION \<Rightarrow>
         (if size_minus len nread < 1 then PReturn MQTT_PARSER_RC_INCOMPLETE p m nread
          else case rd data nread of None \<Rightarrow> PFault
          | Some v \<Rightarrow> PNext (goto p MQTT_PARSER_STATE_CONNECT_FLAGS)
              (upd_connect (\<lambda>c. c\<lparr>protocol_version := v\<rparr>) m) (nread + 1))
     | MQTT_PARSER_STATE_CONNECT_FLAGS \<Rightarrow>
         (if size_minus len nread < 1 then PReturn MQTT_PARSER_RC_INCOMPLETE p m nread
          else case rd data nread of None \<Rightarrow> PFault
          | Some d \<Rightarrow> PNext (goto p MQTT_PARSER_STATE_CONNECT_KEEP_ALIVE)
              (upd_connect (\<lambda>c. c\<lparr>flags := connect_flags_of d\<rparr>) m) (nread + 1))
     | MQTT_PARSER_STATE_CONNECT_KEEP_ALIVE \<Rightarrow>
         (if size_minus len nread < 2 then PReturn MQTT_PARSER_RC_INCOMPLETE p m nread
          else case (rd data nread, rd data (nread + 1)) of
            (Some hi, Some lo) \<Rightarrow>
              PNext (goto p MQTT_PARSER_STATE_CONNECT_CLIENT_IDENTIFIER)
                (upd_connect (\<lambda>c. c\<lparr>keep_alive := of_nat (be16 hi lo)\<rparr>) m) (nread + 2)
          | _ \<Rightarrow> PFault)
     | MQTT_PARSER_STATE_CONNECT_CLIENT_IDENTIFIER \<Rightarrow>
         with_string data len nread p m (\<lambda>b n.
           PNext (goto p MQTT_PARSER_STATE_CONNECT_WILL_TOPIC)
             (upd_connect (\<lambda>c. c\<lparr>client_id := b\<rparr>) m) n)
     | MQTT_PARSER_STATE_CONNECT_WILL_TOPIC \<Rightarrow>
         (if will (flags (m_connect m)) \<noteq> 0
          then with_string data len nread p m (\<lambda>b n.
                 PNext (goto p MQTT_PARSER_STATE_CONNECT_WILL_MESSAGE)
                   (upd_connect (\<lambda>c. c\<lparr>will_topic := b\<rparr>) m) n)
          else PNext (goto p MQTT_PARSER_STATE_CONNECT_WILL_MESSAGE) m nread)
     | MQTT_PARSER_STATE_CONNECT_WILL_MESSAGE \<Rightarrow>
         (if will (flags (m_connect m)) \<noteq> 0
          then with_string data len nread p m (\<lambda>b n.
                 PNext (goto p MQTT_PARSER_STATE_CONNECT_USERNAME)
                   (upd_connect (\<lambda>c. c\<lparr>will_message := b\<rparr>) m) n)
          else PNext (goto p MQTT_PARSER_STATE_CONNECT_USERNAME) m nread)
     | MQTT_PARSER_STATE_CONNECT_USERNAME \<Rightarrow>
         (if username_follows (flags (m_connect m)) \<noteq> 0
          then with_string data len nread p m (\<lambda>b n.
                 PNext (goto p MQTT_PARSER_STATE_CONNECT_PASSWORD)
                   (upd_connect (\<lambda>c. c\<lparr>username := b\<rparr>) m) n)
          else PNext (goto p MQTT_PARSER_STATE_CONNECT_PASSWORD) m nread)
     | MQTT_PARSER_STATE_CONNECT_PASSWORD \<Rightarrow>
         (if password_follows (flags (m_connect m)) \<noteq> 0
          then with_string data len nread p m (\<lambda>b n.
                 PReturn MQTT_PARSER_RC_DONE (goto p MQTT_PARSER_STATE_INITIAL)
                   (upd_connect (\<lambda>c. c\<lparr>password := b\<rparr>) m) n)
          else PReturn MQTT_PARSER_RC_DONE (goto p MQTT_PARSER_STATE_INITIAL) m nread)
     | MQTT_PARSER_STATE_CONNACK \<Rightarrow> step_connack p m data len nread
     | MQTT_PARSER_STATE_PUBLISH \<Rightarrow> PNext (goto p MQTT_PARSER_STATE_PUBLISH_TOPIC_NAME) m nread
     | MQTT_PARSER_STATE_PUBLISH_TOPIC_NAME \<Rightarrow>
         with_string data len nread p m (\<lambda>b n.
           PNext (goto p MQTT_PARSER_STATE_PUBLISH_MESSAGE_ID)
             (m\<lparr>m_publish := (m_publish m)\<lparr>topic_name := b\<rparr>\<rparr>) n)
     | MQTT_PARSER_STATE_PUBLISH_MESSAGE_ID \<Rightarrow> step_publish_id p m data len nread
     | MQTT_PARSER_STATE_PUBLISH_MESSAGE \<Rightarrow> step_publish_message p m data len nread
     | MQTT_PARSER_STATE_SUBSCRIBE \<Rightarrow> step_subscribe p m data len nread
     | MQTT_PARSER_STATE_SUBSCRIBE_TOPIC_NAME \<Rightarrow> step_subscribe_topic p m data len nread
     | _ \<Rightarrow> PReturn MQTT_PARSER_RC_ERROR (p\<lparr>p_error := MQTT_ERROR_PARSER_INVALID_STATE\<rparr>) m nread)"

section \<open>The loop\<close>

partial_function (option) mqtt_parser_execute ::
  "mqtt_parser \<Rightarrow> mqtt_message \<Rightarrow> u8 list \<Rightarrow> nat \<Rightarrow> nat \<Rightarrow> parse_result option" where
  "mqtt_parser_execute p m data len nread =
     (case parser_step p m data len nread of
        PNext p' m' n' \<Rightarrow> mqtt_parser_execute p' m' data len n'
      | r \<Rightarrow> Some r)"

declare parser_step.simps [simp del]

lemmas parser_step_simps = parser_step.simps step_connack_def step_publish_id_def
  step_publish_message_def step_subscribe_def step_subscribe_topic_def

end
