(* ===== verification/Event_Io.thy ===== *)
theory Event_Io
  imports Hand_Mqtt Mqtt_Parser
begin

text \<open>
  Reading packets in \<open>broker/event_io.c\<close>: \<open>loop_read\<close> collects the command byte, the
  remaining length and the payload of one packet, over as many calls as the socket needs,
  and then parses and handles it.  What a socket delivers is a list of events, and
  \<open>recv\<close> on a non-blocking socket takes bytes from the first chunk; past the end of the
  list there is nothing to read yet.  The model is of the build without mTCP.
\<close>

section \<open>The socket\<close>

datatype sock_event = Bytes "u8 list" | Eof | Reset | Error

datatype recv_result = Got "u8 list" | Got_eof | Got_again | Got_reset | Got_error

fun recv :: "nat \<Rightarrow> sock_event list \<Rightarrow> recv_result \<times> sock_event list" where
  "recv n [] = (Got_again, [])"
| "recv n (Bytes bs # es) =
     (if bs = [] then recv n es
      else (Got (take n bs), if length bs \<le> n then es else Bytes (drop n bs) # es))"
| "recv n (Eof # es) = (Got_eof, Eof # es)"
| "recv n (Reset # es) = (Got_reset, es)"
| "recv n (Error # es) = (Got_error, es)"

text \<open>The return values of \<open>loop_read\<close> when no byte came.\<close>

fun recv_code :: "recv_result \<Rightarrow> int" where
  "recv_code (Got bs) = int (length bs)"
| "recv_code Got_eof = 0"
| "recv_code Got_again = 1"
| "recv_code Got_reset = 0"
| "recv_code Got_error = -3"

section \<open>The three parts of a packet\<close>

text \<open>
  A part either lets \<open>loop_read\<close> go on, with the client, the last \<open>rlen\<close> and the rest of the
  input, or makes it return a value.
\<close>

datatype read_step =
    Go client int "sock_event list"
  | Return int client "sock_event list"
  | Bad_write

fun and_then :: "read_step \<Rightarrow> (client \<Rightarrow> int \<Rightarrow> sock_event list \<Rightarrow> read_step) \<Rightarrow> read_step" where
  "and_then (Go c r es) f = f c r es"
| "and_then (Return r c es) f = Return r c es"
| "and_then Bad_write f = Bad_write"

abbreviation packet_type :: "client \<Rightarrow> u32" where
  "packet_type c \<equiv> (case in_packet c of None \<Rightarrow> 0 | Some m \<Rightarrow> m_type m)"

abbreviation packet_length :: "client \<Rightarrow> u32" where
  "packet_length c \<equiv> (case in_packet c of None \<Rightarrow> 0 | Some m \<Rightarrow> m_length m)"

definition start_packet :: "client \<Rightarrow> client" where
  "start_packet c = (if in_packet c = None then c\<lparr>in_packet := mqtt_message_init\<rparr> else c)"

definition read_command :: "client \<Rightarrow> int \<Rightarrow> sock_event list \<Rightarrow> read_step" where
  "read_command c rlen es =
     (if packet_type c = 0 then
        (case recv 1 es of
           (Got bs, es) \<Rightarrow>
             Go (c\<lparr>in_packet := map_option (\<lambda>m. mqtt_parser_command m (hd bs)) (in_packet c),
                   remaining_mult := 1\<rparr>) 1 es
         | (r, es) \<Rightarrow> Return (recv_code r) c es)
      else Go c rlen es)"

text \<open>
  The \<open>do\<close> loop over the bytes of the remaining length.  \<open>remaining_count\<close> counts them
  downwards and is a signed byte; it never leaves \<open>-5 .. 4\<close>.
\<close>

function read_length :: "client \<Rightarrow> sock_event list \<Rightarrow> read_step" where
  "read_length c es =
     (case recv 1 es of
        (Got bs, es) \<Rightarrow>
          (let b = hd bs; c = c\<lparr>remaining_count := remaining_count c - 1\<rparr>
           in if remaining_count c < -4 then Return (-1) c es
              else (let c = c\<lparr>in_packet := map_option (\<lambda>m. m\<lparr>m_length :=
                                m_length m + ucast (b AND 127) * remaining_mult c\<rparr>) (in_packet c),
                              remaining_mult := remaining_mult c * 128\<rparr>
                    in if b AND 128 \<noteq> 0 then read_length c es else Go c 1 es))
      | (r, es) \<Rightarrow> Return (recv_code r) c es)"
  by pat_completeness auto
termination
  by (relation "measure (\<lambda>(c, es). nat (remaining_count c + 5))") auto

declare read_length.simps [simp del]

text \<open>The payload is allocated when its length is known; \<open>ok\<close> is the outcome of \<open>malloc\<close>.\<close>

definition read_remaining :: "bool \<Rightarrow> client \<Rightarrow> int \<Rightarrow> sock_event list \<Rightarrow> read_step" where
  "read_remaining ok c rlen es =
     (if remaining_count c \<le> 0 then
        and_then (read_length c es) (\<lambda>c rlen es.
          let c = c\<lparr>remaining_count := remaining_count c * -1\<rparr>
          in if 0 < packet_length c then
               (if \<not> ok then Return (-2) (c\<lparr>in_payload := None\<rparr>) es
                else Go (c\<lparr>in_payload := Some (replicate (unat (packet_length c)) 0),
                           in_to_process := packet_length c\<rparr>) rlen es)
             else Go c rlen es)
      else Go c rlen es)"

text \<open>\<open>recv\<close> into \<open>in_payload[in_cur]\<close>, at most \<open>in_to_process\<close> bytes.\<close>

definition write_at :: "u8 list \<Rightarrow> nat \<Rightarrow> u8 list \<Rightarrow> u8 list" where
  "write_at buf i bs = take i buf @ bs @ drop (i + length bs) buf"

function read_payload :: "client \<Rightarrow> int \<Rightarrow> sock_event list \<Rightarrow> read_step" where
  "read_payload c rlen es =
     (if 0 < in_to_process c then
        (case recv (unat (in_to_process c)) es of
           (Got bs, es) \<Rightarrow>
             (case in_payload c of None \<Rightarrow> Bad_write
              | Some buf \<Rightarrow>
                  if length buf < unat (in_cur c) + unat (in_to_process c) then Bad_write
                  else read_payload
                    (c\<lparr>in_payload := Some (write_at buf (unat (in_cur c)) bs),
                       in_to_process := in_to_process c - of_nat (length bs),
                       in_cur := in_cur c + of_nat (length bs)\<rparr>)
                    (int (length bs)) es)
         | (r, es) \<Rightarrow> Return (recv_code r) c es)
      else Go c rlen es)"
  by pat_completeness auto

lemma recv_Got: "recv n es = (Got bs, es') \<Longrightarrow> 0 < n \<Longrightarrow> 0 < length bs \<and> length bs \<le> n"
  by (induction n es rule: recv.induct) (auto split: if_splits)

lemma minus_of_nat_less:
  "0 < k \<Longrightarrow> k \<le> unat w \<Longrightarrow> unat (w - of_nat k :: u32) = unat w - k"
  by (simp add: unat_sub_if_size unat_of_nat_u32) (metis le_less_trans mod_less unat_u32_less)

termination read_payload
proof (relation "measure (\<lambda>(c, rlen, es). unat (in_to_process c))")
  fix c :: client and rlen :: int and es x es' bs and buf :: "u8 list"
  assume a: "0 < in_to_process c" "(x, es') = recv (unat (in_to_process c)) es" "x = Got bs"
  then have "0 < unat (in_to_process c)" by (simp add: word_less_nat_alt)
  with a recv_Got [of "unat (in_to_process c)" es bs es'] have "0 < length bs" "length bs \<le> unat (in_to_process c)"
    by auto
  then have "unat (in_to_process c - of_nat (length bs)) < unat (in_to_process c)"
    using minus_of_nat_less [of "length bs" "in_to_process c"] by linarith
  then show "((c\<lparr>in_payload := Some (write_at buf (unat (in_cur c)) bs),
      in_to_process := in_to_process c - of_nat (length bs),
      in_cur := in_cur c + of_nat (length bs)\<rparr>, int (length bs), es'), c, rlen, es)
    \<in> measure (\<lambda>(c, rlen, es). unat (in_to_process c))"
    by simp
qed simp

declare read_payload.simps [simp del]

section \<open>Parsing and handling\<close>

text \<open>The loop around the parser; the two codes that repeat it are never returned.\<close>

partial_function (option) parse_loop ::
  "mqtt_parser \<Rightarrow> mqtt_message \<Rightarrow> u8 list \<Rightarrow> nat \<Rightarrow> nat \<Rightarrow> parse_result option" where
  "parse_loop p m data len nread =
     (case mqtt_parser_execute p m data len nread of
        None \<Rightarrow> None
      | Some r \<Rightarrow>
          (case r of
             PReturn rc p' m' n' \<Rightarrow>
               (if rc = MQTT_PARSER_RC_CONTINUE \<or> rc = MQTT_PARSER_RC_WANT_MEMORY
                then parse_loop p' m' data len n' else Some r)
           | _ \<Rightarrow> Some r))"

text \<open>
  From the complete packet on: \<open>in_cur\<close> and \<open>remaining_count\<close> are reset, the packet is parsed
  and handled, and the payload is freed.
\<close>

definition finish_packet_in ::
  "nat \<Rightarrow> slot \<Rightarrow> int \<Rightarrow> broker \<Rightarrow> (int \<times> broker) outcome" where
  "finish_packet_in base s rlen bro =
     (let c = (clients bro s)\<lparr>in_cur := 0, remaining_count := 0,
                in_parser := (in_parser (clients bro s))\<lparr>p_state := MQTT_PARSER_STATE_INITIAL\<rparr>\<rparr>;
          data = (case in_payload c of None \<Rightarrow> [] | Some bs \<Rightarrow> bs)
      in case in_packet c of None \<Rightarrow> Fault
      | Some m \<Rightarrow>
          (case parse_loop (in_parser c) m data (unat (m_length m)) 0 of
             None \<Rightarrow> Blocked
           | Some (PReturn rc p' m' n') \<Rightarrow>
               (let bro = set_client s (c\<lparr>in_parser := p', in_packet := Some m'\<rparr>) bro
                in if rc = MQTT_PARSER_RC_ERROR \<or> rc = MQTT_PARSER_RC_INCOMPLETE then Ok (-1, bro)
                   else obind (handle_mqtt_command base s bro) (\<lambda>(ret_code, bro).
                     if ret_code \<noteq> 0 then Ok (-1, bro)
                     else Ok (rlen, set_client s ((clients bro s)\<lparr>in_payload := None\<rparr>) bro)))
           | Some _ \<Rightarrow> Fault))"

text \<open>\<open>hup\<close>, \<open>err\<close> and \<open>inp\<close> are the bits of \<open>events\<close> that the code tests,
  \<open>ok\<close> is the outcome of the \<open>malloc\<close> of the payload.\<close>

definition collect :: "bool \<Rightarrow> client \<Rightarrow> sock_event list \<Rightarrow> read_step" where
  "collect ok c es =
     and_then (read_command (start_packet c) (-1) es) (\<lambda>c rlen es.
     and_then (read_remaining ok c rlen es) read_payload)"

definition loop_read ::
  "nat \<Rightarrow> slot \<Rightarrow> bool \<Rightarrow> bool \<Rightarrow> bool \<Rightarrow> bool \<Rightarrow> sock_event list \<Rightarrow> broker \<Rightarrow>
   (int \<times> broker \<times> sock_event list) outcome" where
  "loop_read base s ok hup err inp es bro =
     (if hup then Ok (-1, bro, es)
      else if err then Ok (-1, bro, es)
      else if inp then
        (case collect ok (clients bro s) es of
           Bad_write \<Rightarrow> Fault
         | Return r c es \<Rightarrow> Ok (r, set_client s c bro, es)
         | Go c rlen es \<Rightarrow>
             obind (finish_packet_in base s rlen (set_client s c bro)) (\<lambda>(r, bro). Ok (r, bro, es)))
      else Ok (-1, bro, es))"

end
