(* ===== verification/Wire_Format.thy ===== *)
theory Wire_Format
  imports Mumq_Prelude
begin

text \<open>
  The abstract wire format of MQTT 3.1.1 that the parser and the serialiser are measured
  against: big-endian 16-bit integers, length-prefixed strings (section 1.5.3) and the
  variable-length \<open>remaining length\<close> of the fixed header (section 2.2.3).  Nothing here is
  code of the repository.
\<close>

definition be16_bytes :: "nat \<Rightarrow> u8 list" where
  "be16_bytes n = [of_nat (n div 256), of_nat n]"

definition utf8_field :: "u8 list \<Rightarrow> u8 list" where
  "utf8_field s = be16_bytes (length s) @ s"

lemma length_be16_bytes [simp]: "length (be16_bytes n) = 2"
  by (simp add: be16_bytes_def)

lemma length_utf8_field [simp]: "length (utf8_field s) = 2 + length s"
  by (simp add: utf8_field_def)

text \<open>The remaining length: seven bits a byte, least significant first.\<close>

fun varint :: "nat \<Rightarrow> u8 list" where
  "varint n = (if n < 128 then [of_nat n] else (of_nat (128 + n mod 128)) # varint (n div 128))"

declare varint.simps [simp del]

fun varint_value :: "u8 list \<Rightarrow> nat" where
  "varint_value [] = 0"
| "varint_value (b # bs) = unat b mod 128 + 128 * varint_value bs"

text \<open>All bytes but the last have the continuation bit.\<close>

fun varint_ok :: "u8 list \<Rightarrow> bool" where
  "varint_ok [] = False"
| "varint_ok [b] = (unat b < 128)"
| "varint_ok (b # bs) = (128 \<le> unat b \<and> varint_ok bs)"

lemma varint_ne [simp]: "varint n \<noteq> []"
  by (subst varint.simps) simp

lemma varint_ok_varint: "varint_ok (varint n)"
proof (induction n rule: varint.induct)
  case (1 n)
  show ?case
  proof (cases "n < 128")
    case True
    then show ?thesis by (simp add: varint.simps [of n])
  next
    case False
    with 1 obtain b bs where "varint (n div 128) = b # bs" "varint_ok (b # bs)"
      by (cases "varint (n div 128)") auto
    moreover have "unat (of_nat (128 + n mod 128) :: u8) = 128 + n mod 128"
      by (rule unat_of_nat_u8_small) simp
    ultimately show ?thesis using False by (simp add: varint.simps [of n])
  qed
qed

lemma varint_value_varint: "varint_value (varint n) = n"
proof (induction n rule: varint.induct)
  case (1 n)
  show ?case
  proof (cases "n < 128")
    case True
    then show ?thesis by (simp add: varint.simps [of n])
  next
    case False
    have "unat (of_nat (128 + n mod 128) :: u8) = 128 + n mod 128"
      by (rule unat_of_nat_u8_small) simp
    with False 1 show ?thesis by (simp add: varint.simps [of n] mod_add_self1)
  qed
qed

lemma length_varint_le: "n < 128 ^ k \<Longrightarrow> 0 < k \<Longrightarrow> length (varint n) \<le> k"
proof (induction k arbitrary: n)
  case (Suc k)
  show ?case
  proof (cases "n < 128")
    case True
    then show ?thesis by (simp add: varint.simps [of n])
  next
    case False
    with Suc.prems have "0 < k" by (cases k) auto
    moreover from Suc.prems have "n div 128 < 128 ^ k" by (simp add: less_mult_imp_div_less mult.commute)
    ultimately have "length (varint (n div 128)) \<le> k" by (rule Suc.IH [rotated])
    with False show ?thesis by (simp add: varint.simps [of n])
  qed
qed simp

lemma length_varint_ge: "128 ^ k \<le> n \<Longrightarrow> k < length (varint n)"
proof (induction k arbitrary: n)
  case (Suc k)
  have "1 \<le> (128::nat) ^ k" by simp
  moreover from Suc.prems have "128 * 128 ^ k \<le> n" by simp
  ultimately have ge: "128 \<le> n" by linarith
  from Suc.prems have "128 ^ k \<le> n div 128" by (simp add: less_eq_div_iff_mult_less_eq mult.commute)
  then have "k < length (varint (n div 128))" by (rule Suc.IH)
  with ge show ?case by (simp add: varint.simps [of n])
qed simp

lemma length_varint:
  assumes "n < 268435456"
  shows "length (varint n) =
    (if n < 128 then 1 else if n < 16384 then 2 else if n < 2097152 then 3 else 4)"
proof -
  obtain b bs where v: "varint n = b # bs" by (cases "varint n") auto
  show ?thesis
    using assms length_varint_le [of n 1] length_varint_le [of n 2] length_varint_le [of n 3]
      length_varint_le [of n 4] length_varint_ge [of 1 n] length_varint_ge [of 2 n]
      length_varint_ge [of 3 n]
    by (auto simp: v le_Suc_eq)
qed

end
