(* ===== verification/Parser_Facts.thy ===== *)
theory Parser_Facts
  imports Mqtt_Parser Wire_Format
begin

text \<open>
  What the packet parser of \<open>broker/mqtt.c\<close> guarantees: when its loop returns, that its
  reads stay inside the packet, that it writes only the variant of the message's own type,
  that every buffer it hands out lies inside the packet, and that it decodes the wire
  format.  The loop is unrolled once, in the locale \<open>parser_loop\<close>; each of its invariants
  is an interpretation.
\<close>

unbundle bit_operations_syntax

section \<open>When the loop returns\<close>

fun parser_rank :: "mqtt_parser_state \<Rightarrow> nat" where
  "parser_rank MQTT_PARSER_STATE_INITIAL = 20"
| "parser_rank MQTT_PARSER_STATE_VARIABLE_HEADER = 19"
| "parser_rank MQTT_PARSER_STATE_CONNECT = 18"
| "parser_rank MQTT_PARSER_STATE_CONNECT_PROTOCOL_NAME = 17"
| "parser_rank MQTT_PARSER_STATE_CONNECT_PROTOCOL_VERSION = 16"
| "parser_rank MQTT_PARSER_STATE_CONNECT_FLAGS = 15"
| "parser_rank MQTT_PARSER_STATE_CONNECT_KEEP_ALIVE = 14"
| "parser_rank MQTT_PARSER_STATE_CONNECT_CLIENT_IDENTIFIER = 13"
| "parser_rank MQTT_PARSER_STATE_CONNECT_WILL_TOPIC = 12"
| "parser_rank MQTT_PARSER_STATE_CONNECT_WILL_MESSAGE = 11"
| "parser_rank MQTT_PARSER_STATE_CONNECT_USERNAME = 10"
| "parser_rank MQTT_PARSER_STATE_CONNECT_PASSWORD = 9"
| "parser_rank MQTT_PARSER_STATE_PUBLISH = 8"
| "parser_rank MQTT_PARSER_STATE_PUBLISH_TOPIC_NAME = 7"
| "parser_rank MQTT_PARSER_STATE_PUBLISH_MESSAGE_ID = 6"
| "parser_rank MQTT_PARSER_STATE_PUBLISH_MESSAGE = 5"
| "parser_rank MQTT_PARSER_STATE_SUBSCRIBE = 4"
| "parser_rank MQTT_PARSER_STATE_SUBSCRIBE_TOPIC_NAME = 3"
| "parser_rank _ = 2"

definition parser_stuck :: "mqtt_parser \<Rightarrow> mqtt_message \<Rightarrow> bool" where
  "parser_stuck p m \<longleftrightarrow>
     p_state p = MQTT_PARSER_STATE_VARIABLE_HEADER \<and> m_type m \<noteq> MQTT_TYPE_CONNECT"

lemma parser_step_rank:
  assumes "parser_step p m data len nread = PNext p' m' n'" "\<not> parser_stuck p m"
  shows "parser_rank (p_state p') < parser_rank (p_state p) \<and> \<not> parser_stuck p' m'"
  using assms
  by (simp add: parser_step_simps parser_stuck_def with_string_def Let_def
        split: mqtt_parser_state.splits if_splits read_result.splits option.splits prod.splits;
      (elim exE conjE)?; clarsimp?)

lemma parser_step_stuck:
  "parser_stuck p m \<Longrightarrow> parser_step p m data len nread = PNext p m nread"
  by (simp add: parser_step_simps parser_stuck_def)

lemma parser_returns:
  "\<not> parser_stuck p m \<Longrightarrow> \<exists>r. mqtt_parser_execute p m data len nread = Some r"
proof (induction "parser_rank (p_state p)" arbitrary: p m nread rule: less_induct)
  case less
  show ?case
  proof (cases "parser_step p m data len nread")
    case (PNext p' m' n')
    from parser_step_rank [OF this less.prems] less.hyps
    have "\<exists>r. mqtt_parser_execute p' m' data len n' = Some r" by blast
    with PNext show ?thesis by (simp add: mqtt_parser_execute.simps [of p])
  qed (simp_all add: mqtt_parser_execute.simps [of p])
qed

lemma parser_diverges:
  "parser_stuck p m \<Longrightarrow> mqtt_parser_execute p m data len nread = None"
proof (rule ccontr)
  assume stuck: "parser_stuck p m" and "mqtt_parser_execute p m data len nread \<noteq> None"
  then obtain r where ret: "mqtt_parser_execute p m data len nread = Some r" by blast
  have "\<not> parser_stuck p m"
  proof (rule mqtt_parser_execute.raw_induct
      [where P = "\<lambda>p m data len nread r. \<not> parser_stuck p m", OF _ ret])
    fix f p m data len nread r
    assume IH: "\<And>p m data len nread r. f p m data len nread = Some r \<Longrightarrow> \<not> parser_stuck p m"
      and eq: "(case parser_step p m data len nread of PNext p' m' n' \<Rightarrow> f p' m' data len n'
                | x \<Rightarrow> Some x) = Some r"
    show "\<not> parser_stuck p m"
    proof
      assume "parser_stuck p m"
      with eq IH show False by (simp add: parser_step_stuck)
    qed
  qed
  with stuck show False by blast
qed

text \<open>C20: The loop of \<open>mqtt_parser_execute\<close> returns from every state and on every input
  but one: it spins forever exactly when it is entered in the state VARIABLE_HEADER with a
  message that is not a CONNECT (a state the broker never stores).\<close>

theorem parser_returns_iff:
  "mqtt_parser_execute p m data len nread = None \<longleftrightarrow>
     p_state p = MQTT_PARSER_STATE_VARIABLE_HEADER \<and> m_type m \<noteq> MQTT_TYPE_CONNECT"
  using parser_returns [of p m data len nread] parser_diverges [of p m data len nread]
  by (cases "parser_stuck p m") (auto simp: parser_stuck_def)

section \<open>Reading the wire format\<close>

lemma be16_of_nat [wire]: "n < 65536 \<Longrightarrow> be16 (of_nat (n div 256)) (of_nat n) = n"
  by (simp add: be16_def unat_of_nat_u8)

lemma be16_less [simp]: "be16 hi lo < 65536"
  unfolding be16_def using unat_u8_less [of hi] unat_u8_less [of lo] by linarith

lemma be16_bytes_be16 [wire]: "be16_bytes (be16 hi lo) = [hi, lo]"
proof -
  have "(of_nat (unat hi) :: u8) = hi" "(of_nat (unat hi * 256 + unat lo) :: u8) = lo"
    by (simp_all add: word_unat_eq_iff unat_of_nat_u8 del: of_nat_add of_nat_mult)
  moreover have "(unat hi * 256 + unat lo) div 256 = unat hi"
    by simp
  ultimately show ?thesis by (simp add: be16_bytes_def be16_def)
qed

lemma rd_field:
  assumes "data = pre @ be16_bytes n @ post" "n < 65536" "i = length pre" "j = Suc i"
  shows "\<exists>hi lo. rd data i = Some hi \<and> rd data j = Some lo \<and> be16 hi lo = n"
  using assms be16_of_nat [of n] by (auto simp: be16_bytes_def rd_def nth_append)

lemma read_string_field:
  assumes data: "data = pre @ utf8_field s @ post"
    and n: "n = length pre" "len = length data" and s: "length s < 65536"
  shows "read_string data len n =
    RdOk \<lparr>blen = of_nat (length s), bdata = Some (s @ post)\<rparr> (n + 2 + length s)"
proof -
  from data have "data = pre @ be16_bytes (length s) @ s @ post"
    by (simp add: utf8_field_def)
  from rd_field [OF this s n(1) refl] obtain hi lo
    where "rd data n = Some hi" "rd data (Suc n) = Some lo" "be16 hi lo = length s"
    using n by blast
  moreover have "drop (n + 2) data = s @ post"
    using data n by (simp add: utf8_field_def be16_bytes_def)
  ultimately show ?thesis
    using n data by (simp add: read_string_def Let_def)
qed

lemma read_string_inv:
  assumes "read_string data (length data) n = RdOk b n'" "n \<le> length data"
  obtains s where "data = take n data @ utf8_field s @ drop n' data" "length s < 65536"
    "n' = n + 2 + length s" "blen b = of_nat (length s)" "bdata b = Some (s @ drop n' data)"
proof -
  from assms obtain hi lo where hl: "n + 2 \<le> length data" "hi = data ! n" "lo = data ! Suc n"
    "be16 hi lo \<le> length data - n - 2" "n' = n + 2 + be16 hi lo"
    "b = \<lparr>blen = of_nat (be16 hi lo), bdata = Some (drop (n + 2) data)\<rparr>"
    by (auto simp: read_string_def rd_def Let_def not_less split: if_splits)
  let ?s = "take (be16 hi lo) (drop (n + 2) data)"
  from hl have len: "length ?s = be16 hi lo" by simp
  from hl have d: "drop n data = [hi, lo] @ drop (n + 2) data"
    by (simp add: Cons_nth_drop_Suc)
  also have rest: "drop (n + 2) data = ?s @ drop n' data"
    using hl(5) by (metis append_take_drop_id drop_drop add.commute)
  finally have "drop n data = utf8_field ?s @ drop n' data"
    using len by (simp add: utf8_field_def be16_bytes_be16)
  then have "data = take n data @ utf8_field ?s @ drop n' data"
    by (metis append_take_drop_id)
  moreover have "bdata b = Some (?s @ drop n' data)"
    using hl(6) rest by simp
  ultimately show ?thesis using that [of ?s] hl len by simp
qed

lemma read_string_no_fault:
  "len \<le> length data \<Longrightarrow> n \<le> len \<Longrightarrow> read_string data len n \<noteq> RdFault"
  by (auto simp: read_string_def rd_def Let_def)

lemma read_string_bound:
  "read_string data len n = RdOk b n' \<Longrightarrow> n \<le> len \<Longrightarrow> n' \<le> len"
  by (auto simp: read_string_def Let_def split: if_splits option.splits prod.splits)

lemmas execute_eq = mqtt_parser_execute.simps

definition buf :: "u8 list \<Rightarrow> u8 list \<Rightarrow> mqtt_buffer" where
  "buf s post = \<lparr>blen = of_nat (length s), bdata = Some (s @ post)\<rparr>"

definition buf_str :: "mqtt_buffer \<Rightarrow> u8 list option" where
  "buf_str b = mem_read (bdata b) (unat (blen b))"

lemma buf_str_buf [simp]: "length s < 65536 \<Longrightarrow> buf_str (buf s post) = Some s"
  by (simp add: buf_str_def buf_def mem_read_def)

lemma with_string_field:
  assumes "data = pre @ utf8_field s @ post" "n = length pre" "length s < 65536"
  shows "with_string data (length data) n p m k = k (buf s post) (n + 2 + length s)"
  using read_string_field [OF assms(1,2) refl assms(3)] by (simp add: with_string_def buf_def)

lemma exec_next:
  "parser_step p m data len n = PNext p' m' n' \<Longrightarrow>
   mqtt_parser_execute p m data len n = mqtt_parser_execute p' m' data len n'"
  by (simp add: execute_eq [of p])

lemma exec_return:
  "parser_step p m data len n = PReturn rc p' m' n' \<Longrightarrow>
   mqtt_parser_execute p m data len n = Some (PReturn rc p' m' n')"
  by (simp add: execute_eq [of p])

text \<open>C23: A SUBSCRIBE packet is decoded into its packet identifier and its \<^emph>\<open>first\<close> topic
  filter, whatever follows the first requested QoS; when the packet ends right after the
  filter the parser reads the requested QoS one byte past the packet.\<close>

theorem parse_subscribe:
  assumes "p_state p = MQTT_PARSER_STATE_INITIAL" "m_type m = MQTT_TYPE_SUBSCRIBE"
    "topics (m_subscribe m) = None"
    and "mid < 65536" "length t < 65536"
    and data: "data = be16_bytes mid @ utf8_field t @ rest"
  shows "mqtt_parser_execute p m data (length data) 0 = Some
    (case rest of [] \<Rightarrow> PFault
     | q # qs \<Rightarrow> PReturn MQTT_PARSER_RC_DONE (goto p MQTT_PARSER_STATE_INITIAL)
        (m\<lparr>m_subscribe := \<lparr>sub_message_id = of_nat mid,
            topics = Some \<lparr>tp_name = \<lparr>blen = of_nat (length t), bdata = Some (t @ rest)\<rparr>,
                           tp_qos = ucast q\<rparr>\<rparr>\<rparr>) (5 + length t))"
proof -
  from rd_field [of data "[]" mid "utf8_field t @ rest" 0 "Suc 0"] data assms(4) obtain hi lo where
    h: "rd data 0 = Some hi" "rd data (Suc 0) = Some lo" "be16 hi lo = mid"
    by auto
  have r: "read_string data (length data) (Suc (Suc 0)) =
     RdOk \<lparr>blen = of_nat (length t), bdata = Some (t @ rest)\<rparr> (4 + length t)"
    using read_string_field [of data "be16_bytes mid" t rest 2 "length data"] data assms(5)
    by (simp add: numeral_2_eq_2 [symmetric])
  have q: "rd data (4 + length t) = (case rest of [] \<Rightarrow> None | q # _ \<Rightarrow> Some q)"
    using data by (auto simp: rd_def nth_append split: list.splits)
  have l: "2 \<le> length data" using data by simp
  from assms(1-3) h l have "mqtt_parser_execute p m data (length data) 0 =
    mqtt_parser_execute (goto p MQTT_PARSER_STATE_SUBSCRIBE_TOPIC_NAME)
      (m\<lparr>m_subscribe := (m_subscribe m)\<lparr>sub_message_id := of_nat mid\<rparr>\<rparr>) data (length data) (Suc (Suc 0))"
    by (simp add: execute_eq [of p] execute_eq [of "goto p MQTT_PARSER_STATE_SUBSCRIBE"] parser_step_simps)
  also have "\<dots> = Some
    (case rest of [] \<Rightarrow> PFault
     | q # qs \<Rightarrow> PReturn MQTT_PARSER_RC_DONE (goto p MQTT_PARSER_STATE_INITIAL)
        (m\<lparr>m_subscribe := \<lparr>sub_message_id = of_nat mid,
            topics = Some \<lparr>tp_name = \<lparr>blen = of_nat (length t), bdata = Some (t @ rest)\<rparr>,
                           tp_qos = ucast q\<rparr>\<rparr>\<rparr>) (5 + length t))"
    using assms(3) r q
    by (cases rest) (simp_all add: execute_eq parser_step_simps with_string_def Let_def mem)
  finally show ?thesis .
qed

theorem parse_subscribe_witness:
  "\<exists>m. mqtt_parser_execute parser0 (message0\<lparr>m_type := 8\<rparr>) (be16_bytes 7 @ utf8_field [0x61] @ [1])
      (length (be16_bytes 7 @ utf8_field [0x61] @ [1])) 0 = Some (PReturn MQTT_PARSER_RC_DONE parser0 m 6) \<and>
    map_option tp_qos (topics (m_subscribe m)) = Some 1"
proof -
  have z: "p_state parser0 = MQTT_PARSER_STATE_INITIAL" "m_type (message0\<lparr>m_type := 8\<rparr>) = 8"
    "topics (m_subscribe (message0\<lparr>m_type := 8\<rparr>)) = None" "goto parser0 MQTT_PARSER_STATE_INITIAL = parser0"
    by (simp_all add: zero_fields)
  show ?thesis using parse_subscribe [OF z(1-3), of 7 "[0x61]" _ "[1]", unfolded z(4)] by simp
qed

lemma parse_publish_run:
  assumes st: "p_state p = MQTT_PARSER_STATE_INITIAL" "m_type m = MQTT_TYPE_PUBLISH"
    and qos: "\<not> qos_acked m"
    and len: "m_length m = of_nat (length data)" "length data < 2 ^ 32"
    and t: "length t < 65536" and data: "data = utf8_field t @ rest"
  shows "mqtt_parser_execute p m data (length data) 0 = Some
    (if length rest < 2
     then PReturn MQTT_PARSER_RC_INCOMPLETE (goto p MQTT_PARSER_STATE_PUBLISH_MESSAGE_ID)
        (m\<lparr>m_publish := (m_publish m)\<lparr>topic_name := buf t rest\<rparr>\<rparr>) (2 + length t)
     else PReturn MQTT_PARSER_RC_DONE (goto p MQTT_PARSER_STATE_INITIAL)
        (m\<lparr>m_publish := \<lparr>topic_name = buf t rest, pub_message_id = 0, content = buf rest []\<rparr>\<rparr>)
        (length data))"
proof -
  let ?m1 = "m\<lparr>m_publish := (m_publish m)\<lparr>topic_name := buf t rest\<rparr>\<rparr>"
  have ws: "with_string data (length data) 0 q m k = k (buf t rest) (2 + length t)" for q k
    using with_string_field [of data "[]" t rest 0] data t by simp
  have ld: "length data = 2 + length t + length rest" using data by simp
  have ml: "m_length m - blen (buf t rest) - 2 = of_nat (length rest)"
    using len(1) by (simp add: ld buf_def)
  have lr: "unat (of_nat (length rest) :: u32) = length rest"
    using len(2) ld by simp
  have "drop (2 + length t) data = rest" using data by (simp add: utf8_field_def be16_bytes_def)
  with ml lr ld have rm: "read_message data (length data) (2 + length t) (of_nat (length rest)) =
      RdOk (buf rest []) (length data)"
    by (simp add: read_message_def buf_def)
  have "mqtt_parser_execute p m data (length data) 0 =
    mqtt_parser_execute (goto p MQTT_PARSER_STATE_PUBLISH_MESSAGE_ID) ?m1 data (length data)
      (2 + length t)"
    using st ws by (simp add: exec_next parser_step_simps)
  also have "\<dots> = Some
    (if length rest < 2
     then PReturn MQTT_PARSER_RC_INCOMPLETE (goto p MQTT_PARSER_STATE_PUBLISH_MESSAGE_ID)
        ?m1 (2 + length t)
     else PReturn MQTT_PARSER_RC_DONE (goto p MQTT_PARSER_STATE_INITIAL)
        (m\<lparr>m_publish := \<lparr>topic_name = buf t rest, pub_message_id = 0, content = buf rest []\<rparr>\<rparr>)
        (length data))"
  proof (cases "length rest < 2")
    case True
    then show ?thesis by (simp add: exec_return parser_step_simps ld)
  next
    case False
    have ack: "qos_acked (m\<lparr>m_publish := x\<rparr>) \<longleftrightarrow> False" for x
      using qos by (simp add: qos_acked_def)
    from False have "mqtt_parser_execute (goto p MQTT_PARSER_STATE_PUBLISH_MESSAGE_ID)
        ?m1 data (length data) (2 + length t) =
      mqtt_parser_execute (goto p MQTT_PARSER_STATE_PUBLISH_MESSAGE)
        (m\<lparr>m_publish := (m_publish m)\<lparr>topic_name := buf t rest, pub_message_id := 0\<rparr>\<rparr>)
        data (length data) (2 + length t)"
      by (simp add: exec_next parser_step_simps Let_def ld ack)
    also have "\<dots> = Some (PReturn MQTT_PARSER_RC_DONE (goto p MQTT_PARSER_STATE_INITIAL)
        (m\<lparr>m_publish := \<lparr>topic_name = buf t rest, pub_message_id = 0, content = buf rest []\<rparr>\<rparr>)
        (length data))"
      using ml rm by (simp add: exec_return parser_step_simps Let_def ack)
    finally show ?thesis using False by simp
  qed
  finally show ?thesis .
qed

text \<open>C22: A PUBLISH packet that carries no packet identifier (QoS 0) is decoded into its
  topic and its content, the whole rest of the packet, if the content has at least two
  bytes; with a content of zero or one byte the parser asks for the two identifier bytes
  that are not there and rejects the packet as incomplete.\<close>

theorem parse_publish:
  assumes st: "p_state p = MQTT_PARSER_STATE_INITIAL" "m_type m = MQTT_TYPE_PUBLISH"
    and qos: "\<not> qos_acked m"
    and len: "m_length m = of_nat (length data)" "length data < 2 ^ 32"
    and t: "length t < 65536" and data: "data = utf8_field t @ rest"
  shows "mqtt_parser_execute p m data (length data) 0 = Some
    (if length rest < 2
     then PReturn MQTT_PARSER_RC_INCOMPLETE (goto p MQTT_PARSER_STATE_PUBLISH_MESSAGE_ID)
        (m\<lparr>m_publish := (m_publish m)\<lparr>topic_name := buf t rest\<rparr>\<rparr>) (2 + length t)
     else PReturn MQTT_PARSER_RC_DONE (goto p MQTT_PARSER_STATE_INITIAL)
        (m\<lparr>m_publish := \<lparr>topic_name = buf t rest, pub_message_id = 0, content = buf rest []\<rparr>\<rparr>)
        (length data))"
  using parse_publish_run [OF assms] .

theorem parse_publish_witness:
  "\<exists>m. mqtt_parser_execute parser0 (message0\<lparr>m_type := 3, m_length := 5\<rparr>) (utf8_field [0x61] @ [8, 9])
      (length (utf8_field [0x61] @ [8, 9])) 0 = Some (PReturn MQTT_PARSER_RC_DONE parser0 m 5) \<and>
    content (m_publish m) = buf [8, 9] []"
proof -
  let ?m = "message0\<lparr>m_type := 3, m_length := 5\<rparr>"
  have z: "p_state parser0 = MQTT_PARSER_STATE_INITIAL" "m_type ?m = 3" "\<not> qos_acked ?m"
     "goto parser0 MQTT_PARSER_STATE_INITIAL = parser0"
    by (simp_all add: zero_fields qos_acked_def)
  show ?thesis using parse_publish [OF z(1-3), of "utf8_field [0x61] @ [8, 9]" "[0x61]" "[8, 9]", unfolded z(4)] by simp
qed

text \<open>A PUBLISH packet with QoS 1 or 2 is decoded into its topic, its packet
  identifier and its content, and the whole packet is consumed.\<close>

lemma parse_publish_acked:
  assumes st: "p_state p = MQTT_PARSER_STATE_INITIAL" "m_type m = MQTT_TYPE_PUBLISH"
    and qos: "qos_acked m"
    and len: "m_length m = of_nat (length data)" "length data < 2 ^ 32"
    and t: "length t < 65536" "mid < 65536" and data: "data = utf8_field t @ be16_bytes mid @ c"
  shows "mqtt_parser_execute p m data (length data) 0 = Some
    (PReturn MQTT_PARSER_RC_DONE (goto p MQTT_PARSER_STATE_INITIAL)
        (m\<lparr>m_publish := \<lparr>topic_name = buf t (be16_bytes mid @ c), pub_message_id = of_nat mid,
                        content = buf c []\<rparr>\<rparr>) (length data))"
proof -
  let ?rest = "be16_bytes mid @ c"
  have ws: "with_string data (length data) 0 q m k = k (buf t ?rest) (2 + length t)" for q k
    using with_string_field [of data "[]" t ?rest 0] data t by simp
  have ld: "length data = 4 + length t + length c" using data by simp
  have ml: "m_length m - blen (buf t ?rest) - 2 - 2 = of_nat (length c)"
    using len(1) by (simp add: ld buf_def)
  have lr: "unat (of_nat (length c) :: u32) = length c"
    using len(2) ld by simp
  have "length (utf8_field t @ be16_bytes mid) = 4 + length t" by simp
  then have "drop (4 + length t) data = c"
    using data by (metis append_assoc append_eq_conv_conj)
  with ml lr ld have rm: "read_message data (length data) (4 + length t) (of_nat (length c)) =
      RdOk (buf c []) (length data)"
    by (simp add: read_message_def buf_def)
  have ack: "qos_acked (m\<lparr>m_publish := x\<rparr>)" for x
    using qos by (simp add: qos_acked_def)
  from rd_field [of data "utf8_field t" mid c "2 + length t" "3 + length t"] data t obtain hi lo where
    h: "rd data (2 + length t) = Some hi" "rd data (3 + length t) = Some lo"
      "be16 hi lo = mid"
    by auto
  have "mqtt_parser_execute p m data (length data) 0 =
    mqtt_parser_execute (goto p MQTT_PARSER_STATE_PUBLISH_MESSAGE_ID)
      (m\<lparr>m_publish := (m_publish m)\<lparr>topic_name := buf t ?rest\<rparr>\<rparr>) data (length data)
      (2 + length t)"
    using st ws by (simp add: exec_next parser_step_simps)
  also have "\<dots> = mqtt_parser_execute (goto p MQTT_PARSER_STATE_PUBLISH_MESSAGE)
        (m\<lparr>m_publish := (m_publish m)\<lparr>topic_name := buf t ?rest, pub_message_id := of_nat mid\<rparr>\<rparr>)
        data (length data) (4 + length t)"
    using h by (simp add: exec_next parser_step_simps Let_def ld ack offset_norm)
  also have "\<dots> = Some (PReturn MQTT_PARSER_RC_DONE (goto p MQTT_PARSER_STATE_INITIAL)
        (m\<lparr>m_publish := \<lparr>topic_name = buf t ?rest, pub_message_id = of_nat mid,
                        content = buf c []\<rparr>\<rparr>) (length data))"
    using ml rm by (simp add: exec_return parser_step_simps Let_def ack)
  finally show ?thesis .
qed

section \<open>CONNECT\<close>

definition flag_will :: "u8 \<Rightarrow> bool" where
  "flag_will fl \<longleftrightarrow> will (connect_flags_of fl) \<noteq> 0"

definition flag_username :: "u8 \<Rightarrow> bool" where
  "flag_username fl \<longleftrightarrow> username_follows (connect_flags_of fl) \<noteq> 0"

definition flag_password :: "u8 \<Rightarrow> bool" where
  "flag_password fl \<longleftrightarrow> password_follows (connect_flags_of fl) \<noteq> 0"

definition opt_field :: "bool \<Rightarrow> u8 list \<Rightarrow> u8 list" where
  "opt_field b s = (if b then utf8_field s else [])"

definition opt_buf :: "bool \<Rightarrow> u8 list \<Rightarrow> u8 list \<Rightarrow> mqtt_buffer \<Rightarrow> mqtt_buffer" where
  "opt_buf b s post old = (if b then buf s post else old)"

lemma with_string_opt:
  assumes "data = pre @ opt_field b s @ post" "n = length pre" "length s < 65536" b
  shows "with_string data (length data) n p m k = k (buf s post) (n + length (opt_field b s))"
  using with_string_field [of data pre s post n p m k] assms by (simp add: opt_field_def)

lemma connect_same [simp]:
  "m\<lparr>m_connect := (m_connect m)\<lparr>will_topic := will_topic (m_connect m)\<rparr>\<rparr> = (m :: mqtt_message)"
  "m\<lparr>m_connect := (m_connect m)\<lparr>will_message := will_message (m_connect m)\<rparr>\<rparr> = (m :: mqtt_message)"
  "m\<lparr>m_connect := (m_connect m)\<lparr>username := username (m_connect m)\<rparr>\<rparr> = (m :: mqtt_message)"
  "m\<lparr>m_connect := (m_connect m)\<lparr>password := password (m_connect m)\<rparr>\<rparr> = (m :: mqtt_message)"
  by simp_all

lemma exec_will_topic:
  assumes "flags (m_connect m) = connect_flags_of fl" "length s < 65536" "n = length pre"
    "data = pre @ opt_field (flag_will fl) s @ post"
  shows "mqtt_parser_execute (goto p MQTT_PARSER_STATE_CONNECT_WILL_TOPIC) m data (length data) n =
    mqtt_parser_execute (goto p MQTT_PARSER_STATE_CONNECT_WILL_MESSAGE)
      (upd_connect (\<lambda>c. c\<lparr>will_topic := opt_buf (flag_will fl) s post (will_topic c)\<rparr>) m)
      data (length data) (n + length (opt_field (flag_will fl) s))"
proof (cases "flag_will fl")
  case True
  with assms(1) with_string_opt [OF assms(4,3,2) True] show ?thesis
    by (simp add: exec_next parser_step_simps opt_buf_def flag_will_def)
next
  case False
  with assms(1) show ?thesis
    by (simp add: exec_next parser_step_simps opt_buf_def opt_field_def flag_will_def)
qed

lemma exec_will_message:
  assumes "flags (m_connect m) = connect_flags_of fl" "length s < 65536" "n = length pre"
    "data = pre @ opt_field (flag_will fl) s @ post"
  shows "mqtt_parser_execute (goto p MQTT_PARSER_STATE_CONNECT_WILL_MESSAGE) m data (length data) n =
    mqtt_parser_execute (goto p MQTT_PARSER_STATE_CONNECT_USERNAME)
      (upd_connect (\<lambda>c. c\<lparr>will_message := opt_buf (flag_will fl) s post (will_message c)\<rparr>) m)
      data (length data) (n + length (opt_field (flag_will fl) s))"
proof (cases "flag_will fl")
  case True
  with assms(1) with_string_opt [OF assms(4,3,2) True] show ?thesis
    by (simp add: exec_next parser_step_simps opt_buf_def flag_will_def)
next
  case False
  with assms(1) show ?thesis
    by (simp add: exec_next parser_step_simps opt_buf_def opt_field_def flag_will_def)
qed

lemma exec_username:
  assumes "flags (m_connect m) = connect_flags_of fl" "length s < 65536" "n = length pre"
    "data = pre @ opt_field (flag_username fl) s @ post"
  shows "mqtt_parser_execute (goto p MQTT_PARSER_STATE_CONNECT_USERNAME) m data (length data) n =
    mqtt_parser_execute (goto p MQTT_PARSER_STATE_CONNECT_PASSWORD)
      (upd_connect (\<lambda>c. c\<lparr>username := opt_buf (flag_username fl) s post (username c)\<rparr>) m)
      data (length data) (n + length (opt_field (flag_username fl) s))"
proof (cases "flag_username fl")
  case True
  with assms(1) with_string_opt [OF assms(4,3,2) True] show ?thesis
    by (simp add: exec_next parser_step_simps opt_buf_def flag_username_def)
next
  case False
  with assms(1) show ?thesis
    by (simp add: exec_next parser_step_simps opt_buf_def opt_field_def flag_username_def)
qed

lemma exec_password:
  assumes "flags (m_connect m) = connect_flags_of fl" "length s < 65536" "n = length pre"
    "data = pre @ opt_field (flag_password fl) s @ post"
  shows "mqtt_parser_execute (goto p MQTT_PARSER_STATE_CONNECT_PASSWORD) m data (length data) n =
    Some (PReturn MQTT_PARSER_RC_DONE (goto p MQTT_PARSER_STATE_INITIAL)
      (upd_connect (\<lambda>c. c\<lparr>password := opt_buf (flag_password fl) s post (password c)\<rparr>) m)
      (n + length (opt_field (flag_password fl) s)))"
proof (cases "flag_password fl")
  case True
  with assms(1) with_string_opt [OF assms(4,3,2) True] show ?thesis
    by (simp add: exec_return parser_step_simps opt_buf_def flag_password_def)
next
  case False
  with assms(1) show ?thesis
    by (simp add: exec_return parser_step_simps opt_buf_def opt_field_def flag_password_def)
qed

lemma parse_connect_tail:
  assumes c: "flags (m_connect m) = connect_flags_of fl"
    and data: "data = pre @ opt_field (flag_will fl) wt @ opt_field (flag_will fl) wm
      @ opt_field (flag_username fl) un @ opt_field (flag_password fl) pw @ rest"
    and n: "n = length pre"
    and len: "length wt < 65536" "length wm < 65536" "length un < 65536" "length pw < 65536"
  shows "\<exists>r1 r2 r3. mqtt_parser_execute (goto p MQTT_PARSER_STATE_CONNECT_WILL_TOPIC) m data (length data) n =
      Some (PReturn MQTT_PARSER_RC_DONE (goto p MQTT_PARSER_STATE_INITIAL)
       (upd_connect (\<lambda>c. c\<lparr>will_topic := opt_buf (flag_will fl) wt r1 (will_topic c),
          will_message := opt_buf (flag_will fl) wm r2 (will_message c),
          username := opt_buf (flag_username fl) un r3 (username c),
          password := opt_buf (flag_password fl) pw rest (password c)\<rparr>) m)
        (length data - length rest))"
proof -
  let ?f1 = "opt_field (flag_will fl) wt" and ?f2 = "opt_field (flag_will fl) wm"
    and ?f3 = "opt_field (flag_username fl) un" and ?f4 = "opt_field (flag_password fl) pw"
  have d2: "data = (pre @ ?f1) @ ?f2 @ ?f3 @ ?f4 @ rest"
    and d3: "data = (pre @ ?f1 @ ?f2) @ ?f3 @ ?f4 @ rest"
    and d4: "data = (pre @ ?f1 @ ?f2 @ ?f3) @ ?f4 @ rest"
    using data by simp_all
  have n4: "n + length ?f1 + length ?f2 + length ?f3 + length ?f4 = length data - length rest"
    using data n by simp
  show ?thesis
    by (rule exI [of _ "?f2 @ ?f3 @ ?f4 @ rest"], rule exI [of _ "?f3 @ ?f4 @ rest"],
        rule exI [of _ "?f4 @ rest"])
      (simp add: exec_will_topic [OF c len(1) n data] exec_will_message [OF _ len(2) _ d2]
        exec_username [OF _ len(3) _ d3] exec_password [OF _ len(4) _ d4] c n [symmetric] n4)
qed


lemma connect_all_fields:
  "c\<lparr>protocol_name := a1, protocol_version := a2, flags := a3, keep_alive := a4, client_id := a5,
     will_topic := a6, will_message := a7, username := a8, password := a9\<rparr> =
   \<lparr>protocol_name = a1, protocol_version = a2, flags = a3, keep_alive = a4, client_id = a5,
     will_topic = a6, will_message = a7, username = a8, password = a9\<rparr>" for c :: mqtt_connect
  by (cases c) simp

text \<open>The part of a CONNECT packet before the fields that its flags announce.\<close>

lemma parse_connect_front:
  assumes st: "p_state p = MQTT_PARSER_STATE_INITIAL" "m_type m = MQTT_TYPE_CONNECT"
    and data: "data = utf8_field pn @ [ver, fl] @ be16_bytes ka @ utf8_field cid @ opts"
    and len: "length pn < 65536" "ka < 65536" "length cid < 65536"
  shows "mqtt_parser_execute p m data (length data) 0 =
    mqtt_parser_execute (goto p MQTT_PARSER_STATE_CONNECT_WILL_TOPIC)
      (upd_connect (\<lambda>c. c\<lparr>protocol_name := buf pn ([ver, fl] @ be16_bytes ka @ utf8_field cid @ opts),
         protocol_version := ver, flags := connect_flags_of fl, keep_alive := of_nat ka, client_id := buf cid opts\<rparr>) m)
      data (length data) (8 + length pn + length cid)"
proof -
  let ?r4 = "[ver, fl] @ be16_bytes ka @ utf8_field cid @ opts"
  let ?p4 = "utf8_field pn @ [ver, fl] @ be16_bytes ka"
  have s1: "with_string data (length data) 0 q m' k = k (buf pn ?r4) (2 + length pn)" for q m' k
    using with_string_field [of data "[]" pn ?r4 0] data len(1) by simp
  have s2: "with_string data (length data) (6 + length pn) q m' k = k (buf cid opts) (8 + length pn + length cid)" for q m' k
    using with_string_field [of data ?p4 cid opts "6 + length pn"] data len(3) by simp
  have v: "rd data (2 + length pn) = Some ver" "rd data (3 + length pn) = Some fl"
    using data by (simp_all add: rd_def nth_append)
  from rd_field [of data "utf8_field pn @ [ver, fl]" ka "utf8_field cid @ opts"
      "4 + length pn" "5 + length pn"] data len(2)
  obtain hi lo where h: "rd data (4 + length pn) = Some hi" "rd data (5 + length pn) = Some lo"
    "be16 hi lo = ka"
    by auto
  have ld: "8 + length pn + length cid \<le> length data" using data by simp
  have "mqtt_parser_execute p m data (length data) 0 =
     mqtt_parser_execute (goto p MQTT_PARSER_STATE_CONNECT_PROTOCOL_VERSION)
       (upd_connect (\<lambda>c. c\<lparr>protocol_name := buf pn ?r4\<rparr>) m) data (length data) (2 + length pn)"
    using st s1 by (simp add: exec_next parser_step_simps)
  also have "\<dots> = mqtt_parser_execute (goto p MQTT_PARSER_STATE_CONNECT_FLAGS)
       (upd_connect (\<lambda>c. c\<lparr>protocol_name := buf pn ?r4, protocol_version := ver\<rparr>) m)
       data (length data) (3 + length pn)"
    using v ld by (simp add: exec_next parser_step_simps offset_norm)
  also have "\<dots> = mqtt_parser_execute (goto p MQTT_PARSER_STATE_CONNECT_KEEP_ALIVE)
       (upd_connect (\<lambda>c. c\<lparr>protocol_name := buf pn ?r4, protocol_version := ver,
          flags := connect_flags_of fl\<rparr>) m)
       data (length data) (4 + length pn)"
    using v ld by (simp add: exec_next parser_step_simps offset_norm)
  also have "\<dots> = mqtt_parser_execute (goto p MQTT_PARSER_STATE_CONNECT_CLIENT_IDENTIFIER)
       (upd_connect (\<lambda>c. c\<lparr>protocol_name := buf pn ?r4, protocol_version := ver,
          flags := connect_flags_of fl, keep_alive := of_nat ka\<rparr>) m)
       data (length data) (6 + length pn)"
    using h ld by (simp add: exec_next parser_step_simps offset_norm)
  finally show ?thesis using s2 by (simp add: exec_next parser_step_simps offset_norm)
qed



text \<open>The will QoS is never read off the wire: the code masks bit 5 of the flags byte, the
  will-retain flag, so the field it stores is twice that flag and is 2 or 0, whatever QoS
  bits 3 and 4 hold.\<close>

lemma will_qos_is_retain:
  "will_qos (connect_flags_of d) = 2 * will_retain (connect_flags_of d)"
proof -
  have "drop_bit 4 d AND 2 = 2 * (drop_bit 5 d AND 1)"
    by (rule bit_word_eqI) (simp add: bit_simps bit_double_iff; force simp: bit_simps less_Suc_eq numeral_eq_Suc)
  then show ?thesis by (simp add: connect_flags_of_def)
qed

section \<open>Invariants of the loop\<close>

locale parser_loop =
  fixes I :: "u8 list \<Rightarrow> nat \<Rightarrow> mqtt_parser \<Rightarrow> mqtt_message \<Rightarrow> nat \<Rightarrow> bool"
    and Q :: "u8 list \<Rightarrow> nat \<Rightarrow> parse_result \<Rightarrow> bool"
  assumes step: "I data len p m n \<Longrightarrow>
    (case parser_step p m data len n of
       PFault \<Rightarrow> Q data len PFault
     | PReturn rc p' m' n' \<Rightarrow> Q data len (PReturn rc p' m' n')
     | PNext p' m' n' \<Rightarrow> I data len p' m' n')"
begin

lemma execute:
  assumes inv: "I data len p m n" and ret: "mqtt_parser_execute p m data len n = Some r"
  shows "Q data len r"
proof -
  have "I data len p m n \<longrightarrow> Q data len r"
  proof (rule mqtt_parser_execute.raw_induct
      [where P = "\<lambda>p m data len n r. I data len p m n \<longrightarrow> Q data len r", OF _ ret])
    fix f p m data len n r
    assume IH: "\<And>p m data len n r. f p m data len n = Some r \<Longrightarrow>
        I data len p m n \<longrightarrow> Q data len r"
      and eq: "(case parser_step p m data len n of PNext p' m' n' \<Rightarrow> f p' m' data len n'
                | x \<Rightarrow> Some x) = Some r"
    show "I data len p m n \<longrightarrow> Q data len r"
    proof
      assume "I data len p m n"
      from step [OF this] eq IH show "Q data len r"
        by (auto split: parse_result.splits)
    qed
  qed
  with inv show ?thesis by blast
qed

end

definition bounds_inv :: "u8 list \<Rightarrow> nat \<Rightarrow> mqtt_parser \<Rightarrow> mqtt_message \<Rightarrow> nat \<Rightarrow> bool" where
  "bounds_inv data len p m n \<longleftrightarrow> n \<le> len \<and> len \<le> length data \<and>
     p_state p \<noteq> MQTT_PARSER_STATE_SUBSCRIBE \<and> p_state p \<noteq> MQTT_PARSER_STATE_SUBSCRIBE_TOPIC_NAME \<and>
     (p_state p = MQTT_PARSER_STATE_INITIAL \<longrightarrow> m_type m \<noteq> MQTT_TYPE_SUBSCRIBE)"

definition bounds_ok :: "u8 list \<Rightarrow> nat \<Rightarrow> parse_result \<Rightarrow> bool" where
  "bounds_ok data len r \<longleftrightarrow> (\<exists>rc p' m' n'. r = PReturn rc p' m' n' \<and> n' \<le> len)"

lemma with_string_cases:
  assumes "n \<le> len" "len \<le> length data"
  obtains (inc) "\<And>p m k. with_string data len n p m k = PReturn MQTT_PARSER_RC_INCOMPLETE p m n"
  | (ok) b n' where "\<And>p m k. with_string data len n p m k = k b n'" 
      "buf_str b \<noteq> None" "n' = n + 2 + unat (blen b)" "n + 2 + unat (blen b) \<le> len"
      "unat (blen b) < 65536"
proof (cases "read_string data len n")
  case RdFault
  with read_string_no_fault [OF assms(2,1)] show ?thesis by simp
next
  case RdIncomplete
  then show ?thesis by (intro inc) (simp add: with_string_def)
next
  case (RdOk b n')
  then obtain hi lo where r: "n + 2 \<le> len" "n' = n + 2 + be16 hi lo" "n' \<le> len"
    "b = \<lparr>blen = of_nat (be16 hi lo), bdata = Some (drop (n + 2) data)\<rparr>"
    using assms by (auto simp: read_string_def rd_def Let_def not_less split: if_splits)
  have l: "unat (blen b) = be16 hi lo"
    using order.strict_trans [OF be16_less [of hi lo], of 4294967296] r(4) by simp
  show ?thesis
  proof (rule ok)
    show "\<And>p m k. with_string data len n p m k = k b n'" using RdOk by (simp add: with_string_def)
    show "buf_str b \<noteq> None" using r l assms(2) by (simp add: buf_str_def mem_read_def)
  qed (use r l in simp_all)
qed

interpretation bounds: parser_loop bounds_inv bounds_ok
proof unfold_locales
  fix data len p m n
  assume inv: "bounds_inv data len p m n"
  then have n: "n \<le> len" "len \<le> length data" by (simp_all add: bounds_inv_def)
  from n show "case parser_step p m data len n of
       PFault \<Rightarrow> bounds_ok data len PFault
     | PReturn rc p' m' n' \<Rightarrow> bounds_ok data len (PReturn rc p' m' n')
     | PNext p' m' n' \<Rightarrow> bounds_inv data len p' m' n'"
  proof (cases rule: with_string_cases)
    case inc
    with inv show ?thesis
      by (cases "p_state p") (auto simp: parser_step_simps bounds_inv_def bounds_ok_def
        rd_def Let_def read_message_def not_less split: if_splits)
  next
    case (ok b n')
    with inv show ?thesis
      by (cases "p_state p") (auto simp: parser_step_simps bounds_inv_def bounds_ok_def
        rd_def Let_def read_message_def not_less split: if_splits)
  qed
qed

fun state_of_type :: "u32 \<Rightarrow> mqtt_parser_state \<Rightarrow> bool" where
  "state_of_type t MQTT_PARSER_STATE_INITIAL = True"
| "state_of_type t MQTT_PARSER_STATE_CONNACK = (t = MQTT_TYPE_CONNACK)"
| "state_of_type t MQTT_PARSER_STATE_PUBLISH = (t = MQTT_TYPE_PUBLISH)"
| "state_of_type t MQTT_PARSER_STATE_PUBLISH_TOPIC_NAME = (t = MQTT_TYPE_PUBLISH)"
| "state_of_type t MQTT_PARSER_STATE_PUBLISH_MESSAGE_ID = (t = MQTT_TYPE_PUBLISH)"
| "state_of_type t MQTT_PARSER_STATE_PUBLISH_MESSAGE = (t = MQTT_TYPE_PUBLISH)"
| "state_of_type t MQTT_PARSER_STATE_SUBSCRIBE = (t = MQTT_TYPE_SUBSCRIBE)"
| "state_of_type t MQTT_PARSER_STATE_SUBSCRIBE_TOPIC_NAME = (t = MQTT_TYPE_SUBSCRIBE)"
| "state_of_type t MQTT_PARSER_STATE_REMAINING_LENGTH = False"
| "state_of_type t MQTT_PARSER_STATE_PUBACK = False"
| "state_of_type t MQTT_PARSER_STATE_PUBREC = False"
| "state_of_type t MQTT_PARSER_STATE_PUBREL = False"
| "state_of_type t MQTT_PARSER_STATE_PUBCOMP = False"
| "state_of_type t MQTT_PARSER_STATE_PINGREQ = False"
| "state_of_type t _ = (t = MQTT_TYPE_CONNECT)"

definition same_outside :: "mqtt_message \<Rightarrow> mqtt_message \<Rightarrow> bool" where
  "same_outside m0 m \<longleftrightarrow>
     m_retain m = m_retain m0 \<and> m_qos m = m_qos m0 \<and> m_dup m = m_dup m0 \<and>
     m_type m = m_type m0 \<and> m_length m = m_length m0 \<and> m_suback m = m_suback m0 \<and>
     (m_type m0 \<noteq> MQTT_TYPE_CONNECT \<longrightarrow> m_connect m = m_connect m0) \<and>
     (m_type m0 \<noteq> MQTT_TYPE_CONNACK \<longrightarrow> m_connack m = m_connack m0) \<and>
     (m_type m0 \<noteq> MQTT_TYPE_PUBLISH \<longrightarrow> m_publish m = m_publish m0) \<and>
     (m_type m0 \<noteq> MQTT_TYPE_SUBSCRIBE \<longrightarrow> m_subscribe m = m_subscribe m0)"

definition frame_inv ::
  "mqtt_message \<Rightarrow> u8 list \<Rightarrow> nat \<Rightarrow> mqtt_parser \<Rightarrow> mqtt_message \<Rightarrow> nat \<Rightarrow> bool" where
  "frame_inv m0 data len p m n \<longleftrightarrow> state_of_type (m_type m0) (p_state p) \<and> same_outside m0 m"

definition frame_ok :: "mqtt_message \<Rightarrow> u8 list \<Rightarrow> nat \<Rightarrow> parse_result \<Rightarrow> bool" where
  "frame_ok m0 data len r \<longleftrightarrow>
     (\<forall>rc p' m' n'. r = PReturn rc p' m' n' \<longrightarrow> same_outside m0 m')"

lemma with_string_any:
  obtains (fault) "\<And>p m k. with_string data len n p m k = PFault"
  | (inc) "\<And>p m k. with_string data len n p m k = PReturn MQTT_PARSER_RC_INCOMPLETE p m n"
  | (ok) b n' where "\<And>p m k. with_string data len n p m k = k b n'"
  by (cases "read_string data len n") (auto simp: with_string_def)

interpretation frame: parser_loop "frame_inv m0" "frame_ok m0" for m0
proof unfold_locales
  fix data len p m n
  assume inv: "frame_inv m0 data len p m n"
  show "case parser_step p m data len n of
       PFault \<Rightarrow> frame_ok m0 data len PFault
     | PReturn rc p' m' n' \<Rightarrow> frame_ok m0 data len (PReturn rc p' m' n')
     | PNext p' m' n' \<Rightarrow> frame_inv m0 data len p' m' n'"
  proof (cases rule: with_string_any [of data len n])
    case fault
    with inv show ?thesis
      by (cases "p_state p") (simp_all add: parser_step_simps frame_inv_def frame_ok_def
        same_outside_def Let_def split: option.split read_result.split)
  next
    case inc
    with inv show ?thesis
      by (cases "p_state p") (simp_all add: parser_step_simps frame_inv_def frame_ok_def
        same_outside_def Let_def split: option.split read_result.split)
  next
    case (ok b n')
    with inv show ?thesis
      by (cases "p_state p") (simp_all add: parser_step_simps frame_inv_def frame_ok_def
        same_outside_def Let_def split: option.split read_result.split)
  qed
qed

definition connect_bufs_ok :: "mqtt_connect \<Rightarrow> bool" where
  "connect_bufs_ok c \<longleftrightarrow>
     buf_str (protocol_name c) \<noteq> None \<and> buf_str (client_id c) \<noteq> None \<and>
     buf_str (will_topic c) \<noteq> None \<and> buf_str (will_message c) \<noteq> None \<and>
     buf_str (username c) \<noteq> None \<and> buf_str (password c) \<noteq> None"

definition publish_bufs_ok :: "mqtt_publish \<Rightarrow> bool" where
  "publish_bufs_ok b \<longleftrightarrow> buf_str (topic_name b) \<noteq> None \<and> buf_str (content b) \<noteq> None"

definition subscribe_bufs_ok :: "mqtt_subscribe \<Rightarrow> bool" where
  "subscribe_bufs_ok s \<longleftrightarrow>
     (case topics s of None \<Rightarrow> True | Some t \<Rightarrow> buf_str (tp_name t) \<noteq> None)"

definition msg_bufs_ok :: "mqtt_message \<Rightarrow> bool" where
  "msg_bufs_ok m \<longleftrightarrow> connect_bufs_ok (m_connect m) \<and> publish_bufs_ok (m_publish m) \<and>
     subscribe_bufs_ok (m_subscribe m)"

definition publish_sizes_ok :: "nat \<Rightarrow> mqtt_message \<Rightarrow> bool" where
  "publish_sizes_ok len m \<longleftrightarrow>
     unat (blen (topic_name (m_publish m))) < 65536 \<and>
     2 + unat (blen (topic_name (m_publish m))) + unat (blen (content (m_publish m))) \<le> len"

definition bufs_inv :: "u8 list \<Rightarrow> nat \<Rightarrow> mqtt_parser \<Rightarrow> mqtt_message \<Rightarrow> nat \<Rightarrow> bool" where
  "bufs_inv data len p m n \<longleftrightarrow> n \<le> len \<and> len \<le> length data \<and> msg_bufs_ok m \<and>
     state_of_type (m_type m) (p_state p) \<and>
     (p_state p = MQTT_PARSER_STATE_PUBLISH_MESSAGE_ID \<or> p_state p = MQTT_PARSER_STATE_PUBLISH_MESSAGE
       \<longrightarrow> unat (blen (topic_name (m_publish m))) < 65536 \<and>
           2 + unat (blen (topic_name (m_publish m))) \<le> n)"

definition bufs_ok :: "u8 list \<Rightarrow> nat \<Rightarrow> parse_result \<Rightarrow> bool" where
  "bufs_ok data len r \<longleftrightarrow> (\<forall>rc p' m' n'. r = PReturn rc p' m' n' \<longrightarrow>
     msg_bufs_ok m' \<and>
     (rc = MQTT_PARSER_RC_DONE \<and> m_type m' = MQTT_TYPE_PUBLISH \<longrightarrow> publish_sizes_ok len m'))"

lemma buf_str_buffer0 [simp]: "buf_str buffer0 \<noteq> None"
  by (simp add: buf_str_def buffer0_def)

lemma msg_bufs_ok_message0: "msg_bufs_ok message0"
  by (simp add: msg_bufs_ok_def connect_bufs_ok_def publish_bufs_ok_def subscribe_bufs_ok_def
      message0_def connect0_def del: not_None_eq)

lemma read_message_cases:
  assumes "n \<le> len" "len \<le> length data"
  obtains (inc) "read_message data len n k = RdIncomplete"
  | (ok) b n' where "read_message data len n k = RdOk b n'" "buf_str b \<noteq> None"
      "n' = n + unat (blen b)" "n + unat (blen b) \<le> len"
  using assms
  by (cases "len - n < unat k")
    (auto simp: read_message_def buf_str_def mem_read_def not_less)

lemmas bufs_defs = bufs_inv_def bufs_ok_def msg_bufs_ok_def connect_bufs_ok_def
  publish_bufs_ok_def subscribe_bufs_ok_def publish_sizes_ok_def

interpretation bufs: parser_loop bufs_inv bufs_ok
proof unfold_locales
  fix data len p m n
  assume inv: "bufs_inv data len p m n"
  then have n: "n \<le> len" "len \<le> length data" by (simp_all add: bufs_inv_def)
  have tp0: "buf_str (tp_name topicpair0) \<noteq> None" by (simp add: topicpair0_def del: not_None_eq)
  from n show "case parser_step p m data len n of
       PFault \<Rightarrow> bufs_ok data len PFault
     | PReturn rc p' m' n' \<Rightarrow> bufs_ok data len (PReturn rc p' m' n')
     | PNext p' m' n' \<Rightarrow> bufs_inv data len p' m' n'"
  proof (cases rule: with_string_cases)
    case inc
    show ?thesis
    proof (cases "p_state p = MQTT_PARSER_STATE_PUBLISH_MESSAGE")
      case True
      let ?l = "m_length m - blen (topic_name (m_publish m)) - 2"
      from n inv True show ?thesis
        by (cases rule: read_message_cases [where k = "if qos_acked m then ?l - 2 else ?l"])
          (auto simp: parser_step_simps bufs_defs Let_def)
    next
      case False
      with inv inc tp0 show ?thesis
        by (cases "p_state p") (auto simp: parser_step_simps bufs_defs
          rd_def Let_def split: option.splits)
    qed
  next
    case (ok b n')
    show ?thesis
    proof (cases "p_state p = MQTT_PARSER_STATE_PUBLISH_MESSAGE")
      case True
      let ?l = "m_length m - blen (topic_name (m_publish m)) - 2"
      from n inv True show ?thesis
        by (cases rule: read_message_cases [where k = "if qos_acked m then ?l - 2 else ?l"])
          (auto simp: parser_step_simps bufs_defs Let_def)
    next
      case False
      with inv ok tp0 show ?thesis
        by (cases "p_state p") (auto simp: parser_step_simps bufs_defs
          rd_def Let_def split: option.splits)
    qed
  qed
qed

text \<open>The parser returns three of its codes only, and the first filter of a SUBSCRIBE has at most
  65535 bytes.\<close>

definition filter_sized :: "mqtt_message \<Rightarrow> bool" where
  "filter_sized m \<longleftrightarrow> (case topics (m_subscribe m) of None \<Rightarrow> True | Some tp \<Rightarrow> unat (blen (tp_name tp)) < 65536)"

definition codes_ok :: "u8 list \<Rightarrow> nat \<Rightarrow> parse_result \<Rightarrow> bool" where
  "codes_ok data len r \<longleftrightarrow> (case r of
       PFault \<Rightarrow> True
     | PReturn rc p' m' n' \<Rightarrow>
         rc \<in> {MQTT_PARSER_RC_ERROR, MQTT_PARSER_RC_INCOMPLETE, MQTT_PARSER_RC_DONE} \<and> filter_sized m'
     | PNext p' m' n' \<Rightarrow> False)"

lemma read_string_sized: "read_string data len n = RdOk b n' \<Longrightarrow> unat (blen b) < 65536"
proof -
  assume "read_string data len n = RdOk b n'"
  then obtain hi lo where "blen b = of_nat (be16 hi lo)"
    by (auto simp: read_string_def Let_def split: if_splits option.splits)
  moreover have "unat (of_nat (be16 hi lo) :: u32) = be16 hi lo"
    by (rule unat_of_nat_u32_small) (rule order.strict_trans [OF be16_less], simp)
  ultimately show ?thesis using be16_less [of hi lo] by (simp only:)
qed

interpretation codes: parser_loop "\<lambda>data len p m n. filter_sized m" codes_ok
proof unfold_locales
  fix data len p m n
  assume inv: "filter_sized m"
  have b0: "unat (blen (tp_name topicpair0)) < 65536" by (simp add: topicpair0_def buffer0_def)
  have topic: "filter_sized (m\<lparr>m_subscribe := (m_subscribe m)\<lparr>topics :=
      Some (case topics (m_subscribe m) of None \<Rightarrow> topicpair0 | Some t \<Rightarrow> t)\<rparr>\<rparr>)"
    using inv b0 by (simp add: filter_sized_def split: option.splits)
  show "case parser_step p m data len n of
       PFault \<Rightarrow> codes_ok data len PFault
     | PReturn rc p' m' n' \<Rightarrow> codes_ok data len (PReturn rc p' m' n')
     | PNext p' m' n' \<Rightarrow> filter_sized m'"
  proof (cases "p_state p = MQTT_PARSER_STATE_SUBSCRIBE_TOPIC_NAME")
    case True
    then show ?thesis using topic read_string_sized
      by (auto simp: parser_step.simps step_subscribe_topic_def with_string_def Let_def codes_ok_def
          filter_sized_def split: read_result.splits option.splits)
  next
    case False
    with inv show ?thesis
      by (cases "p_state p") (auto simp: parser_step_simps with_string_def codes_ok_def filter_sized_def Let_def
          split: read_result.splits option.splits)
  qed
qed

text \<open>C21: On a packet that is not a SUBSCRIBE the parser, entered in its initial state,
  reads no byte outside the packet and never reports more bytes read than the packet has.\<close>

theorem parser_in_bounds:
  assumes "p_state p = MQTT_PARSER_STATE_INITIAL" "m_type m \<noteq> MQTT_TYPE_SUBSCRIBE"
    and "len \<le> length data"
  shows "\<exists>rc p' m' n'. mqtt_parser_execute p m data len 0 = Some (PReturn rc p' m' n') \<and> n' \<le> len"
proof -
  obtain r where r: "mqtt_parser_execute p m data len 0 = Some r"
    using parser_returns [of p m data len 0] assms(1) by (auto simp: parser_stuck_def)
  have "bounds_inv data len p m 0" using assms by (simp add: bounds_inv_def)
  from bounds.execute [OF this r] r show ?thesis by (auto simp: bounds_ok_def)
qed

theorem parser_in_bounds_witness:
  "\<exists>rc p' m' n'. mqtt_parser_execute parser0 (message0\<lparr>m_type := 3\<rparr>) [0, 9, 1] 3 0 =
     Some (PReturn rc p' m' n') \<and> n' \<le> 3"
  using parser_in_bounds [of parser0 "message0\<lparr>m_type := 3\<rparr>" 3 "[0, 9, 1]"] by (simp add: parser0_def)



text \<open>Every buffer of a parsed message lies inside the packet, so copying it reads no
  foreign byte, and for a complete PUBLISH the topic and the content together fit in the
  packet behind the two bytes of the topic's length.\<close>

lemma parser_buffers_inside:
  assumes "p_state p = MQTT_PARSER_STATE_INITIAL" "len \<le> length data" "msg_bufs_ok m"
    and "mqtt_parser_execute p m data len 0 = Some (PReturn rc p' m' n')"
  shows "msg_bufs_ok m' \<and> (rc = MQTT_PARSER_RC_DONE \<and> m_type m' = MQTT_TYPE_PUBLISH \<longrightarrow>
    publish_sizes_ok len m')"
proof -
  have "bufs_inv data len p m 0" using assms(1-3) by (simp add: bufs_inv_def)
  from bufs.execute [OF this assms(4)] show ?thesis by (simp add: bufs_ok_def)
qed

text \<open>What the handler may rely on, for a packet whose parts lie in its payload.\<close>

lemma parser_result:
  assumes "p_state p = MQTT_PARSER_STATE_INITIAL" "len \<le> length data" "msg_bufs_ok m" "filter_sized m"
  obtains (fault) "mqtt_parser_execute p m data len 0 = Some PFault"
  | (result) rc p' m' n' where "mqtt_parser_execute p m data len 0 = Some (PReturn rc p' m' n')"
    "rc \<in> {MQTT_PARSER_RC_ERROR, MQTT_PARSER_RC_INCOMPLETE, MQTT_PARSER_RC_DONE}"
    "msg_bufs_ok m'" "filter_sized m'" "m_type m' = m_type m" "m_length m' = m_length m"
    "rc = MQTT_PARSER_RC_DONE \<Longrightarrow> m_type m' = MQTT_TYPE_PUBLISH \<Longrightarrow> publish_sizes_ok len m'"
proof -
  obtain r where r: "mqtt_parser_execute p m data len 0 = Some r"
    using parser_returns [of p m data len 0] assms(1) by (auto simp: parser_stuck_def)
  have "frame_inv m data len p m 0" using assms(1) by (simp add: frame_inv_def same_outside_def)
  note frame = frame.execute [OF this]
  show thesis
  proof (cases r)
    case PFault
    with r show thesis by (intro fault) simp
  next
    case (PReturn rc p' m' n')
    with parser_buffers_inside [OF assms(1-3)] codes.execute [OF assms(4) r] frame [OF r] r show thesis
      by (intro result [of rc p' m' n']) (simp_all add: codes_ok_def frame_ok_def same_outside_def)
  next
    case (PNext p' m' n')
    with codes.execute [OF assms(4) r] show thesis by (simp add: codes_ok_def)
  qed
qed

end
