(* ===== verification/Serialiser_Facts.thy ===== *)
theory Serialiser_Facts
  imports Mqtt_Serialiser Parser_Facts
begin

text \<open>
  What \<open>mqtt_serialiser_size\<close> and \<open>mqtt_serialiser_write\<close> guarantee: the remaining length
  is the standard's variable-length integer, the announced size is the number of bytes
  written, strings are written in the standard's format exactly for the lengths the
  division by \<open>0xff\<close> handles, and what is written can be parsed back.
\<close>

unbundle bit_operations_syntax

section \<open>The remaining length and the size\<close>

lemma ucast_u8_of_nat: "(ucast (w :: u32) :: u8) = of_nat (unat w)"
  by (simp add: word_unat_eq_iff unat_of_nat unsigned_ucast_eq take_bit_eq_mod)

lemma or_128: "n < 128 \<Longrightarrow> (of_nat n :: u8) OR 0x80 = of_nat (128 + n)"
proof -
  assume n: "n < 128"
  have e: "(0x80 :: u8) = 2 ^ 7" by simp
  have "(of_nat n :: u8) AND 0x80 = 0"
  proof (rule bit_word_eqI)
    fix i assume "i < LENGTH(8)"
    have "bit (of_nat n :: u8) 7 = bit (unat (of_nat n :: u8)) 7"
      by (simp only: bit_unsigned_iff) simp
    then have "\<not> bit (of_nat n :: u8) 7"
      using n by (simp add: bit_iff_odd del: unsigned_of_nat)
    then show "bit ((of_nat n :: u8) AND 0x80) i = bit (0 :: u8) i"
      unfolding e by (auto simp: bit_and_iff bit_exp_iff simp del: power_numeral)
  qed
  then have "(of_nat n :: u8) OR 0x80 = of_nat n + 0x80"
    by (rule disjunctive_add_eq_or [symmetric])
  then show ?thesis by (simp add: add.commute)
qed

lemma write_length_varint: "write_length r = varint (unat r)"
proof (induction r rule: write_length.induct)
  case (1 r)
  have m: "(ucast (r mod 128) :: u8) = of_nat (unat r mod 128)"
    by (simp add: ucast_u8_of_nat unat_mod)
  have z: "0 < r div 128 \<longleftrightarrow> \<not> unat r < 128"
    by (simp add: word_less_nat_alt unat_div) (meson div_greater_zero_iff not_less zero_less_numeral)
  show ?case
  proof (cases "0 < r div 128")
    case True
    with 1 have "write_length (r div 128) = varint (unat r div 128)"
      by (simp add: unat_div)
    with True z m or_128 [of "unat r mod 128"] show ?thesis
      by (simp add: write_length.simps [of r] varint.simps [of "unat r"] Let_def)
  next
    case False
    with z m show ?thesis
      by (simp add: write_length.simps [of r] varint.simps [of "unat r"] Let_def)
  qed
qed

lemma length_size_varint:
  "length (varint (unat l)) = (if unat l < 268435456 then length_size l else 5)"
proof (cases "unat l < 268435456")
  case True
  then show ?thesis
    by (simp add: length_varint length_size_def word_le_nat_alt less_Suc_eq_le)
next
  case False
  then have "4 < length (varint (unat l))" by (intro length_varint_ge) simp
  moreover have "length (varint (unat l)) \<le> 5"
    using order.strict_trans [OF unat_u32_less [of l], of 34359738368]
    by (intro length_varint_le) simp_all
  ultimately show ?thesis using False by simp
qed

lemma length_write_string: "write_string b = Some bs \<Longrightarrow> length bs = 2 + unat (blen b)"
  by (auto simp: write_string_def bind_eq_Some_conv dest: mem_read_length)

lemma length_write_connect:
  "write_connect c = Some bs \<Longrightarrow> length bs =
     8 + unat (blen (protocol_name c)) + unat (blen (client_id c)) +
     (if username_follows (flags c) \<noteq> 0 then 2 + unat (blen (username c)) else 0) +
     (if password_follows (flags c) \<noteq> 0 then 2 + unat (blen (password c)) else 0) +
     (if will (flags c) \<noteq> 0 then 4 + unat (blen (will_topic c)) + unat (blen (will_message c)) else 0)"
  by (auto simp: write_connect_def bind_eq_Some_conv dest!: length_write_string split: if_splits)

lemma length_serialise:
  assumes "serialise m = Some (rc, bs)"
  shows "length bs = mqtt_serialiser_size m + (if unat (m_length m) < 268435456 then 0 else 5)"
proof -
  have h: "length (write_length (m_length m)) =
      length_size (m_length m) + (if unat (m_length m) < 268435456 then 0 else 5)"
    by (simp add: write_length_varint length_size_varint)
      (simp add: length_size_def word_le_nat_alt)
  from assms show ?thesis
    by (auto simp: serialise_def mqtt_serialiser_size_def Let_def h bind_eq_Some_conv
      split: if_splits dest!: length_write_string length_write_connect mem_read_length)
qed

section \<open>Strings\<close>

lemma write_string_bytes:
  assumes "buf_str b = Some s" "length s < 65536"
  shows "write_string b = Some ([of_nat (length s div 255), of_nat (length s)] @ s)"
proof -
  have l: "unat (blen b) = length s" using assms by (auto simp: buf_str_def dest: mem_read_length)
  have "(ucast (blen b div 0xff) :: u8) = of_nat (length s div 255)"
    by (simp add: ucast_u8_of_nat unat_div l)
  moreover have "(ucast (blen b AND 0xff) :: u8) = of_nat (length s)"
  proof -
    have "blen b AND 0xff = take_bit 8 (blen b)"
      by (simp add: take_bit_eq_mask mask_eq_exp_minus_1)
    moreover have "(ucast (take_bit 8 (blen b)) :: u8) = ucast (blen b)"
      by (rule bit_word_eqI) (simp add: bit_simps)
    ultimately have "(ucast (blen b AND 0xff) :: u8) = ucast (blen b)" by (simp only:)
    then show ?thesis by (simp only: ucast_u8_of_nat l)
  qed
  ultimately show ?thesis using assms by (simp add: write_string_def buf_str_def)
qed

lemma of_nat_u8_eq_iff: "(of_nat a :: u8) = of_nat b \<longleftrightarrow> a mod 256 = b mod 256"
  by (simp add: word_unat_eq_iff unat_of_nat_u8 del: unsigned_of_nat)

lemma div_255_256: "n < 65536 \<Longrightarrow> (n div 255) mod 256 = n div 256 \<longleftrightarrow> n div 255 = n div 256" for n :: nat
proof (cases "n div 255 < 256")
  case False
  moreover assume "n < 65536"
  ultimately have "n div 256 = 255" "n div 255 = 256 \<or> n div 255 = 257" by auto
  then show ?thesis by auto
qed simp

text \<open>C25: A string is written with the big-endian length that the wire format asks for exactly
  when its length has the same quotient by 255 as by 256: the code divides by \<open>0xff\<close>, so a
  string of 255 bytes, of 510 or 511 bytes, and so on, is written with a wrong length.\<close>

theorem write_string_standard_iff:
  assumes "buf_str b = Some s" "length s < 65536"
  shows "write_string b = Some (utf8_field s) \<longleftrightarrow> length s div 255 = length s div 256"
  using write_string_bytes [OF assms] div_255_256 [OF assms(2)] assms(2)
  by (simp add: utf8_field_def be16_bytes_def of_nat_u8_eq_iff less_mult_imp_div_less)

theorem write_string_standard_iff_witness:
  "write_string \<lparr>blen = 3, bdata = Some [1, 2, 3]\<rparr> = Some (utf8_field [1, 2, 3])"
  using write_string_standard_iff [of "\<lparr>blen = 3, bdata = Some [1, 2, 3]\<rparr>" "[1, 2, 3]"]
  by (simp add: buf_str_def mem_read_def)



section \<open>The command byte and the CONNECT flags\<close>


lemma drop_and_mod:
  "unat (drop_bit 0 d AND 0x01) = unat d mod 2"
  "unat (drop_bit 1 d AND 0x03) = unat d div 2 mod 4"
  "unat (drop_bit 3 d AND 0x01) = unat d div 8 mod 2"
  "unat (drop_bit 4 d AND 0x0f) = unat d div 16 mod 16" for d :: u8
proof -
  have m: "x AND 0x01 = take_bit 1 x" "x AND 0x03 = take_bit 2 x" "x AND 0x0f = take_bit 4 x"
    for x :: u8
    by (simp_all add: take_bit_eq_mask mask_eq_exp_minus_1)
  show "unat (drop_bit 0 d AND 0x01) = unat d mod 2"
    "unat (drop_bit 1 d AND 0x03) = unat d div 2 mod 4"
    "unat (drop_bit 3 d AND 0x01) = unat d div 8 mod 2"
    "unat (drop_bit 4 d AND 0x0f) = unat d div 16 mod 16"
    unfolding m
    by (simp_all add: unsigned_take_bit_eq unsigned_drop_bit_eq take_bit_eq_mod drop_bit_eq_div unat_mod unat_div)
qed

lemma unat_ucast_u32 [simp]: "unat (ucast (x :: u8) :: u32) = unat x"
proof -
  have "unat x < 4294967296" using unat_u8_less [of x] by linarith
  then show ?thesis by (simp only: unsigned_ucast_eq take_bit_eq_mod) simp
qed

lemma command_fields:
  "unat (m_retain (mqtt_parser_command m d)) = unat d mod 2"
  "unat (m_qos (mqtt_parser_command m d)) = unat d div 2 mod 4"
  "unat (m_dup (mqtt_parser_command m d)) = unat d div 8 mod 2"
  "unat (m_type (mqtt_parser_command m d)) = unat d div 16 mod 16"
  using drop_and_mod [of d] by (simp_all add: mqtt_parser_command_def)

lemma unat_command_byte:
  "unat (command_byte m) =
     (unat (m_retain m) + 2 * unat (m_qos m) + 8 * unat (m_dup m) + 16 * unat (m_type m)) mod 256"
proof -
  have "m_retain m + push_bit 1 (m_qos m) + push_bit 3 (m_dup m) + push_bit 4 (m_type m) =
    of_nat (unat (m_retain m) + 2 * unat (m_qos m) + 8 * unat (m_dup m) + 16 * unat (m_type m))"
    by (simp add: push_bit_eq_mult mult.commute)
  moreover have "(x mod 4294967296) mod 256 = x mod 256" for x :: nat
    by (simp add: mod_mod_cancel)
  ultimately show ?thesis
    by (simp only: command_byte_def ucast_u8_of_nat unat_of_nat_u32 unat_of_nat_u8)
qed

text \<open>The command byte is decoded without loss: writing the retain, QoS, dup and type
  fields of a decoded command byte gives the byte back, for every byte.\<close>

lemma command_byte_command: "command_byte (mqtt_parser_command m d) = d"
proof -
  have arith: "n mod 2 + 2 * (n div 2 mod 4) + 8 * (n div 8 mod 2) + 16 * (n div 16 mod 16) = n"
    if "n < 256" for n :: nat
    using mod_mult2_eq [of n 2 4] mod_mult2_eq [of n 8 2] mod_mult2_eq [of n 16 16] that by simp
  show ?thesis
    by (simp add: word_unat_eq_iff unat_command_byte command_fields arith)
qed

lemma command_command_byte:
  assumes "m_retain m < 2" "m_qos m < 4" "m_dup m < 2" "m_type m < 16"
  shows "m_retain (mqtt_parser_command m0 (command_byte m)) = m_retain m"
    and "m_qos (mqtt_parser_command m0 (command_byte m)) = m_qos m"
    and "m_dup (mqtt_parser_command m0 (command_byte m)) = m_dup m"
    and "m_type (mqtt_parser_command m0 (command_byte m)) = m_type m"
proof -
  have b: "unat (m_retain m) < 2" "unat (m_qos m) < 4" "unat (m_dup m) < 2" "unat (m_type m) < 16"
    using assms by (simp_all add: word_less_nat_alt)
  have digit: "(r + c * x) mod c = r" "(r + c * x) div c = x" if "r < c" for r c x :: nat
    using that by simp_all
  define n where "n = unat (m_retain m) + 2 * (unat (m_qos m) + 4 * (unat (m_dup m) + 2 * unat (m_type m)))"
  have d2: "n mod 2 = unat (m_retain m)"
      "n div 2 = unat (m_qos m) + 4 * (unat (m_dup m) + 2 * unat (m_type m))"
    unfolding n_def by (rule digit, rule b)+
  have q8: "n div 8 = n div 2 div 4" and q16: "n div 16 = n div 8 div 2"
    by (simp_all add: div_mult2_eq [symmetric])
  have d8: "n div 2 mod 4 = unat (m_qos m)" "n div 8 = unat (m_dup m) + 2 * unat (m_type m)"
    unfolding q8 d2(2) by (rule digit, rule b)+
  have d16: "n div 8 mod 2 = unat (m_dup m)" "n div 16 = unat (m_type m)"
    unfolding q16 d8(2) by (rule digit, rule b)+
  have "n < 256" using b unfolding n_def by simp
  then have "unat (command_byte m) = n"
    by (simp add: unat_command_byte n_def)
  then show "m_retain (mqtt_parser_command m0 (command_byte m)) = m_retain m"
    "m_qos (mqtt_parser_command m0 (command_byte m)) = m_qos m"
    "m_dup (mqtt_parser_command m0 (command_byte m)) = m_dup m"
    "m_type (mqtt_parser_command m0 (command_byte m)) = m_type m"
    using b d2 d8 d16 by (simp_all add: word_unat_eq_iff command_fields)
qed

text \<open>The flags of a CONNECT survive writing and parsing, but for the will QoS, which comes
  back as twice the will-retain flag.\<close>

lemma connect_flags_roundtrip:
  assumes "username_follows f < 2" "password_follows f < 2" "will_retain f < 2" "will_qos f < 4"
    "will f < 2" "clean_session f < 2"
  shows "connect_flags_of (connect_flags_byte f) = f\<lparr>will_qos := 2 * will_retain f\<rparr>"
proof -
  have two: "x = 0 \<or> x = 1" if "x < 2" for x :: u8
    using that by (simp add: word_less_nat_alt word_unat_eq_iff) arith
  have four: "x = 0 \<or> x = 1 \<or> x = 2 \<or> x = 3" if "x < 4" for x :: u8
    using that by (simp add: word_less_nat_alt word_unat_eq_iff) arith
  show ?thesis
    using two [OF assms(1)] two [OF assms(2)] two [OF assms(3)] four [OF assms(4)]
      two [OF assms(5)] two [OF assms(6)]
    by (elim disjE) (simp_all add: connect_flags_of_def connect_flags_byte_def)
qed

section \<open>Round trip\<close>

lemma serialise_publish:
  assumes "m_type m = MQTT_TYPE_PUBLISH"
    and "buf_str (topic_name (m_publish m)) = Some t" "length t < 65536"
    and "buf_str (content (m_publish m)) = Some c"
  shows "serialise m = Some (MQTT_SERIALISER_RC_SUCCESS,
     command_byte m # varint (unat (m_length m)) @
     [of_nat (length t div 255), of_nat (length t)] @ t @ c)"
  using assms write_string_bytes [OF assms(2,3)]
  by (simp add: serialise_def write_length_varint buf_str_def)

text \<open>C11: A QoS 0 PUBLISH that the broker writes is one it reads back: the packet is the command
  byte, the remaining length and a body whose parse gives the same topic, content, retain
  and dup, when the topic's length is written correctly and the content has at least two
  bytes (the parser's limit).\<close>

theorem publish_roundtrip:
  assumes m: "m_type m = MQTT_TYPE_PUBLISH" "m_qos m = 0" "m_retain m < 2" "m_dup m < 2"
    and t: "buf_str (topic_name (m_publish m)) = Some t"
      "length t < 65536" "length t div 255 = length t div 256"
    and c: "buf_str (content (m_publish m)) = Some c" "2 \<le> length c"
    and n: "m_length m = of_nat (2 + length t + length c)" "2 + length t + length c < 268435456"
  shows "\<exists>b body. serialise m = Some (MQTT_SERIALISER_RC_SUCCESS, b # varint (length body) @ body) \<and>
    length body = 2 + length t + length c \<and>
    (\<exists>m' p'. mqtt_parser_execute parser0
        ((mqtt_parser_command message0 b)\<lparr>m_length := of_nat (length body)\<rparr>) body (length body) 0 =
      Some (PReturn MQTT_PARSER_RC_DONE p' m' (length body)) \<and>
     m_type m' = MQTT_TYPE_PUBLISH \<and> m_retain m' = m_retain m \<and> m_dup m' = m_dup m \<and>
     buf_str (topic_name (m_publish m')) = Some t \<and> buf_str (content (m_publish m')) = Some c)"
proof -
  let ?b = "command_byte m" and ?body = "utf8_field t @ c"
  have nat: "unat (m_length m) = length ?body"
    unfolding n(1) using n(2) by (subst unat_of_nat_u32_small) simp_all
  have "[of_nat (length t div 255), of_nat (length t)] @ t = utf8_field t"
    using t(3) by (simp add: utf8_field_def be16_bytes_def)
  with serialise_publish [OF m(1) t(1,2) c(1)] nat
  have ser: "serialise m = Some (MQTT_SERIALISER_RC_SUCCESS, ?b # varint (length ?body) @ ?body)"
    by simp
  let ?m0 = "(mqtt_parser_command message0 ?b)\<lparr>m_length := of_nat (length ?body)\<rparr>"
  have f: "m_retain ?m0 = m_retain m" "m_qos ?m0 = 0" "m_dup ?m0 = m_dup m"
      "m_type ?m0 = MQTT_TYPE_PUBLISH"
    using command_command_byte [of m message0] m by simp_all
  have "\<not> qos_acked ?m0" using f by (simp add: qos_acked_def)
  from parse_publish_run [OF _ f(4) this _ _ t(2) refl, of parser0] n(2) c(2)
  have run: "mqtt_parser_execute parser0 ?m0 ?body (length ?body) 0 =
    Some (PReturn MQTT_PARSER_RC_DONE (goto parser0 MQTT_PARSER_STATE_INITIAL)
      (?m0\<lparr>m_publish := \<lparr>topic_name = buf t c, pub_message_id = 0, content = buf c []\<rparr>\<rparr>)
      (length ?body))"
    by (simp add: parser0_def)
  have "buf_str (buf c []) = Some c"
    using n(2) by (simp add: buf_str_def buf_def mem_read_def)
  with ser run f t(2) show ?thesis
    by (intro exI [of _ ?b] exI [of _ ?body] conjI exI [of _ "?m0\<lparr>m_publish :=
        \<lparr>topic_name = buf t c, pub_message_id = 0, content = buf c []\<rparr>\<rparr>"]
        exI [of _ "goto parser0 MQTT_PARSER_STATE_INITIAL"]) simp_all
qed

theorem publish_roundtrip_witness:
  "\<exists>b body. serialise (message0\<lparr>m_type := 3, m_length := 5, m_publish :=
       \<lparr>topic_name = \<lparr>blen = 1, bdata = Some [0x61]\<rparr>, pub_message_id = 0,
        content = \<lparr>blen = 2, bdata = Some [8, 9]\<rparr>\<rparr>\<rparr>) =
      Some (MQTT_SERIALISER_RC_SUCCESS, b # varint (length body) @ body) \<and> length body = 5"
  using publish_roundtrip [of "message0\<lparr>m_type := 3, m_length := 5, m_publish :=
       \<lparr>topic_name = \<lparr>blen = 1, bdata = Some [0x61]\<rparr>, pub_message_id = 0,
        content = \<lparr>blen = 2, bdata = Some [8, 9]\<rparr>\<rparr>\<rparr>" "[0x61]" "[8, 9]"]
  by (simp add: message0_def buf_str_def mem_read_def) blast

end
