(* ===== verification/Token_Facts.thy ===== *)
theory Token_Facts
  imports Substree
begin

text \<open>
  What \<open>_sub_topic_tokenise\<close> computes: the levels of the topic, with an empty token in front
  unless the topic starts with a dollar sign, and never a wrong list when memory runs out.
\<close>

lemma strdup_ok [mem]: "strdup s [] = (Some s, [])"
  by (simp add: strdup_def)

lemma append_ok [mem]: "sub_topic_append toks (Some t) [] = (Some (toks @ [t]), [])"
  by (simp add: sub_topic_append_def)

lemma tokenise_step:
  assumes "i \<le> length s" "start \<le> i" "i = length s \<or> s ! i = c_slash"
    and "c_slash \<notin> set (take (i - start) (drop start s))"
  shows "split_at c_slash (drop start s) = take (i - start) (drop start s) #
    (if i = length s then [] else split_at c_slash (drop (Suc i) s))"
proof (cases "i = length s")
  case True
  with assms show ?thesis by (simp add: split_at_atom)
next
  case False
  with assms have "drop i s = c_slash # drop (Suc i) s" by (metis Cons_nth_drop_Suc le_neq_implies_less)
  moreover have "drop (i - start) (drop start s) = drop i s"
    using assms(2) by simp
  ultimately have "drop start s = take (i - start) (drop start s) @ c_slash # drop (Suc i) s"
    using append_take_drop_id [of "i - start" "drop start s"] by simp
  then have "split_at c_slash (drop start s) =
      split_at c_slash (take (i - start) (drop start s) @ c_slash # drop (Suc i) s)" by simp
  also note split_at_append [OF assms(4)]
  finally show ?thesis using False by simp
qed

lemma take_Suc_drop:
  assumes "i < length s" "start \<le> i"
  shows "take (Suc i - start) (drop start s) = take (i - start) (drop start s) @ [s ! i]"
  using assms by (simp add: Suc_diff_le take_Suc_conv_app_nth)

lemma tokenise_loop_stop [mem]:
  "i = length s \<or> s ! i = c_slash \<Longrightarrow> i \<le> length s \<Longrightarrow> start \<le> i \<Longrightarrow>
   tokenise_loop s i start toks [] =
     tokenise_loop s (Suc i) (Suc i) (toks @ [take (i - start) (drop start s)]) []"
  by (cases "start = i") (simp_all add: tokenise_loop.simps [of s i] mem)

lemma tokenise_loop_stop_any:
  assumes "tokenise_loop s i start toks al = (Some r, al')"
    and "i = length s \<or> s ! i = c_slash" "i \<le> length s" "start \<le> i"
  obtains al'' where "tokenise_loop s (Suc i) (Suc i) (toks @ [take (i - start) (drop start s)]) al''
      = (Some r, al')"
proof -
  let ?t = "take (i - start) (drop start s)"
  obtain ok1 a1 ok2 a2 where m: "malloc al = (ok1, a1)" "malloc a1 = (ok2, a2)" by fastforce
  have "(if start \<noteq> i then strdup ?t al else strdup [] al) = (if ok1 then Some ?t else None, a1)"
    by (simp add: strdup_def m)
  with assms m have "tokenise_loop s (Suc i) (Suc i) (toks @ [?t]) a2 = (Some r, al')"
    by (cases ok1; cases ok2) (simp_all add: tokenise_loop.simps [of s i start] sub_topic_append_def)
  then show thesis by (rule that)
qed

lemma tokenise_loop_skip:
  "i < length s \<Longrightarrow> s ! i \<noteq> c_slash \<Longrightarrow>
   tokenise_loop s i start toks al = tokenise_loop s (Suc i) start toks al"
  by (simp add: tokenise_loop.simps [of s i])

lemma tokenise_loop_end: "tokenise_loop s (Suc (length s)) start toks al = (Some toks, al)"
  by (simp add: tokenise_loop.simps)

lemma tokenise_loop_spec:
  assumes "start \<le> i" "i \<le> length s" "c_slash \<notin> set (take (i - start) (drop start s))"
  shows "tokenise_loop s i start toks [] = (Some (toks @ split_at c_slash (drop start s)), [])"
  using assms
proof (induction "length s - i" arbitrary: i start toks rule: less_induct)
  case less
  show ?case
  proof (cases "i = length s \<or> s ! i = c_slash")
    case True
    note run = tokenise_loop_stop [OF True less.prems(2,1)]
    note sp = tokenise_step [OF less.prems(2,1) True less.prems(3)]
    show ?thesis
    proof (cases "i = length s")
      case True
      then show ?thesis using sp run by (simp add: tokenise_loop_end)
    next
      case False
      with less.prems less.hyps [of "Suc i" "Suc i"] sp show ?thesis by (simp add: run)
    qed
  next
    case False
    with less.prems have i: "i < length s" "s ! i \<noteq> c_slash" by auto
    note skip = tokenise_loop_skip [OF i]
    with i less.prems less.hyps [of "Suc i" start] take_Suc_drop [of i s start] skip show ?thesis
      by simp
  qed
qed

lemma tokenise_loop_any:
  assumes "start \<le> i" "i \<le> length s" "c_slash \<notin> set (take (i - start) (drop start s))"
    and "tokenise_loop s i start toks al = (Some r, al')"
  shows "r = toks @ split_at c_slash (drop start s)"
  using assms
proof (induction "length s - i" arbitrary: i start toks al rule: less_induct)
  case less
  show ?case
  proof (cases "i = length s \<or> s ! i = c_slash")
    case True
    obtain al'' where run: "tokenise_loop s (Suc i) (Suc i)
        (toks @ [take (i - start) (drop start s)]) al'' = (Some r, al')"
      using tokenise_loop_stop_any [OF less.prems(4) True less.prems(2,1)] .
    note sp = tokenise_step [OF less.prems(2,1) True less.prems(3)]
    show ?thesis
    proof (cases "i = length s")
      case True
      then show ?thesis using sp run by (simp add: tokenise_loop_end)
    next
      case False
      with less.prems less.hyps [OF _ _ _ _ run] sp show ?thesis by simp
    qed
  next
    case False
    with less.prems have i: "i < length s" "s ! i \<noteq> c_slash" by auto
    note skip = tokenise_loop_skip [OF i]
    with i less.prems less.hyps [of "Suc i" start] take_Suc_drop [of i s start] skip show ?thesis
      by simp
  qed
qed

definition topic_tokens :: "token \<Rightarrow> token list" where
  "topic_tokens s = (if first_is s c_dollar then [] else [[]]) @ split_at c_slash s"

lemma tokenise_ok: "sub_topic_tokenise s [] = (Some (topic_tokens s), [])"
proof (cases "first_is s c_slash")
  case True
  then have ns: "\<not> first_is s c_dollar" "s \<noteq> []" by (auto simp: first_is_def)
  with True have "split_at c_slash s = [] # split_at c_slash (drop 1 s)"
    by (cases s) (auto simp: first_is_def)
  with True ns show ?thesis
    using tokenise_loop_spec [of 1 1 s "[[], []]"]
    by (simp add: sub_topic_tokenise_def topic_tokens_def mem Suc_le_eq)
next
  case False
  then show ?thesis
    using tokenise_loop_spec [of 0 0 s "[[]]"] tokenise_loop_spec [of 0 0 s "[]"]
    by (simp add: sub_topic_tokenise_def topic_tokens_def mem)
qed

definition push_empty :: "token list \<Rightarrow> alloc \<Rightarrow> token list option \<times> alloc" where
  "push_empty toks al = (let (e, al) = strdup [] al in sub_topic_append toks e al)"

lemma push_empty_any: "push_empty toks al = (Some r, al') \<Longrightarrow> r = toks @ [[]]"
  by (auto simp: push_empty_def strdup_def sub_topic_append_def split: prod.splits if_splits)

lemma tokenise_push:
  "sub_topic_tokenise s al =
     (case (if first_is s c_dollar then (Some [], al) else push_empty [] al) of
        (None, al) \<Rightarrow> (None, al)
      | (Some toks, al) \<Rightarrow>
          (if first_is s c_slash then
             (case push_empty toks al of (None, al) \<Rightarrow> (None, al)
              | (Some toks, al) \<Rightarrow> tokenise_loop s 1 1 toks al)
           else tokenise_loop s 0 0 toks al))"
  by (simp only: sub_topic_tokenise_def push_empty_def)

lemma tokenise_any:
  assumes "sub_topic_tokenise s al = (Some r, al')"
  shows "r = topic_tokens s"
proof -
  define pre :: "token list" where "pre = (if first_is s c_dollar then [] else [[]])"
  obtain a where r: "(if first_is s c_slash
      then (case push_empty pre a of (None, al) \<Rightarrow> (None, al)
            | (Some toks, al) \<Rightarrow> tokenise_loop s 1 1 toks al)
      else tokenise_loop s 0 0 pre a) = (Some r, al')"
  proof (cases "first_is s c_dollar")
    case True
    then have "pre = []" by (simp add: pre_def)
    with True assms that [of al] show thesis by (simp add: tokenise_push cong: if_cong)
  next
    case False
    obtain t a where pe: "push_empty [] al = (t, a)" by fastforce
    with False assms have "t = Some [[]]"
      using push_empty_any [of "[]" al _ a] by (cases t) (simp_all add: tokenise_push)
    moreover from False have "pre = [[]]" by (simp add: pre_def)
    ultimately show thesis using pe False assms that [of a] by (simp add: tokenise_push cong: if_cong)
  qed
  show ?thesis
  proof (cases "first_is s c_slash")
    case True
    then have "s \<noteq> []" "\<not> first_is s c_dollar"
      and sp: "split_at c_slash s = [] # split_at c_slash (drop 1 s)"
      by (auto simp: first_is_def neq_Nil_conv)
    moreover from r True obtain a' where "tokenise_loop s 1 1 (pre @ [[]]) a' = (Some r, al')"
      using push_empty_any [of pre a] by (auto split: option.splits prod.splits)
    ultimately show ?thesis using tokenise_loop_any [of 1 1 s "pre @ [[]]" a' r al']
      by (simp add: topic_tokens_def pre_def Suc_le_eq)
  next
    case False
    with r tokenise_loop_any [of 0 0 s pre a r al'] show ?thesis by (simp add: topic_tokens_def pre_def)
  qed
qed

lemma topic_tokens_ne [simp]: "topic_tokens s \<noteq> []"
  by (simp add: topic_tokens_def)

lemma topic_tokens_inj: "topic_tokens s = topic_tokens u \<Longrightarrow> s = u"
proof -
  assume eq: "topic_tokens s = topic_tokens u"
  have hd_empty: "hd (split_at c_slash v) = [] \<longleftrightarrow> v = [] \<or> hd v = c_slash" for v
    by (cases v) (auto split: list.splits)
  have "first_is s c_dollar = first_is u c_dollar"
  proof (rule ccontr)
    assume "first_is s c_dollar \<noteq> first_is u c_dollar"
    then consider "first_is s c_dollar" "hd (split_at c_slash s) = []"
      | "first_is u c_dollar" "hd (split_at c_slash u) = []"
      using eq by (auto simp: topic_tokens_def dest: arg_cong [where f = hd])
    then show False by cases (auto simp: hd_empty first_is_def)
  qed
  with eq show "s = u" by (auto simp: topic_tokens_def split_at_inj split: if_splits)
qed

lemma tokenise_loop_stop_alloc:
  "i = length s \<or> s ! i = c_slash \<Longrightarrow> i \<le> length s \<Longrightarrow> start \<le> i \<Longrightarrow>
   tokenise_loop s i start toks (True # True # al) =
     tokenise_loop s (Suc i) (Suc i) (toks @ [take (i - start) (drop start s)]) al"
  by (cases "start = i")
    (simp_all add: tokenise_loop.simps [of s i] strdup_def sub_topic_append_def)

lemma replicate_2: "replicate 2 x = [x, x]"
  by (simp add: numeral_2_eq_2)

lemma tokenise_loop_alloc:
  assumes "start \<le> i" "i \<le> length s" "c_slash \<notin> set (take (i - start) (drop start s))"
  shows "tokenise_loop s i start toks (replicate (2 * length (split_at c_slash (drop start s))) True @ al) =
    (Some (toks @ split_at c_slash (drop start s)), al)"
  using assms
proof (induction "length s - i" arbitrary: i start toks rule: less_induct)
  case less
  show ?case
  proof (cases "i = length s \<or> s ! i = c_slash")
    case True
    note sp = tokenise_step [OF less.prems(2,1) True less.prems(3)]
    note run = tokenise_loop_stop_alloc [OF True less.prems(2,1)]
    show ?thesis
    proof (cases "i = length s")
      case True
      then show ?thesis using sp run by (simp add: tokenise_loop_end replicate_2)
    next
      case False
      with less.prems less.hyps [of "Suc i" "Suc i"] sp show ?thesis by (simp add: run)
    qed
  next
    case False
    with less.prems have i: "i < length s" "s ! i \<noteq> c_slash" by auto
    note skip = tokenise_loop_skip [OF i]
    with i less.prems less.hyps [of "Suc i" start] take_Suc_drop [of i s start] show ?thesis
      by simp
  qed
qed

lemma push_empty_alloc: "push_empty toks (True # True # al) = (Some (toks @ [[]]), al)"
  by (simp add: push_empty_def strdup_def sub_topic_append_def)

lemma tokenise_alloc:
  "sub_topic_tokenise s (replicate (2 * length (topic_tokens s)) True @ al) = (Some (topic_tokens s), al)"
proof (cases "first_is s c_slash")
  case True
  then have "s \<noteq> []" "\<not> first_is s c_dollar"
    and sp: "split_at c_slash s = [] # split_at c_slash (drop 1 s)"
    by (auto simp: first_is_def neq_Nil_conv)
  with True tokenise_loop_alloc [of 1 1 s "[[], []]" al] show ?thesis
    by (simp add: tokenise_push topic_tokens_def push_empty_alloc Suc_le_eq)
next
  case False
  with tokenise_loop_alloc [of 0 0 s "[]" al] tokenise_loop_alloc [of 0 0 s "[[]]" al] show ?thesis
    by (simp add: tokenise_push topic_tokens_def push_empty_alloc)
qed

end
