(* ===== verification/Tree_Facts.thy ===== *)
theory Tree_Facts
  imports Token_Facts
begin

text \<open>
  The tree under one node: \<open>_sub_add\<close> changes the subscriptions of one path only and keeps
  the tree well formed, and \<open>_sub_search\<close> visits each node whose path matches the topic
  exactly once.
\<close>

section \<open>Finding a node\<close>

lemma branch_pos_map: "branch_pos t cs = length (takeWhile (\<lambda>x. x \<noteq> t) (map sh_topic cs))"
  by (simp add: branch_pos_def takeWhile_map comp_def)

lemma branch_pos_less [simp]: "branch_pos t cs < length cs \<longleftrightarrow> t \<in> sh_topic ` set cs"
  by (induction cs) (auto simp: branch_pos_def)

lemma branch_pos_topic: "t \<in> sh_topic ` set cs \<Longrightarrow> sh_topic (cs ! branch_pos t cs) = t"
  by (induction cs) (auto simp: branch_pos_def)

lemma branch_pos_in: "t \<in> sh_topic ` set cs \<Longrightarrow> cs ! branch_pos t cs \<in> set cs"
  by (rule nth_mem) simp

lemma branch_pos_unique:
  "distinct (map sh_topic cs) \<Longrightarrow> b \<in> set cs \<Longrightarrow> cs ! branch_pos (sh_topic b) cs = b"
  by (induction cs) (auto simp: branch_pos_def)

lemma map_topic_update:
  assumes "i < length cs" "sh_topic b = sh_topic (cs ! i)"
  shows "map sh_topic (cs[i := b]) = map sh_topic cs"
proof -
  have "map sh_topic (cs[i := b]) = (map sh_topic cs)[i := map sh_topic cs ! i]"
    using assms by (simp add: map_update)
  then show ?thesis by simp
qed

lemma branch_pos_update [simp]:
  assumes "i < length cs" "sh_topic b = sh_topic (cs ! i)"
  shows "branch_pos t (cs[i := b]) = branch_pos t cs"
  by (simp add: branch_pos_map map_topic_update [OF assms])

lemma branch_pos_append:
  "branch_pos t (cs @ [b]) =
     (if t \<in> sh_topic ` set cs then branch_pos t cs
      else if sh_topic b = t then length cs else length cs + 1)"
  by (induction cs) (auto simp: branch_pos_def)

lemma branch_pos_Cons:
  "branch_pos t (b # cs) = (if sh_topic b = t then 0 else Suc (branch_pos t cs))"
  by (simp add: branch_pos_def)

text \<open>The subscriptions at a path below a node; \<^const>\<open>None\<close> where there is no node.\<close>

fun hier_find :: "subhier \<Rightarrow> token list \<Rightarrow> subleaf list option" where
  "hier_find h [] = Some (sh_subs h)"
| "hier_find h (t # p) =
     (let cs = sh_children h; i = branch_pos t cs
      in if i < length cs then hier_find (cs ! i) p else None)"

definition leaves_of :: "subleaf list option \<Rightarrow> subleaf list" where
  "leaves_of x = (case x of None \<Rightarrow> [] | Some ls \<Rightarrow> ls)"

abbreviation hier_leaves :: "subhier \<Rightarrow> token list \<Rightarrow> subleaf list" where
  "hier_leaves h p \<equiv> leaves_of (hier_find h p)"

lemma leaves_of_simps [simp]: "leaves_of None = []" "leaves_of (Some ls) = ls"
  by (simp_all add: leaves_of_def)

lemma hier_find_new [simp]: "hier_find (Subhier t ls []) (x # p) = None"
  by (simp add: branch_pos_def)

section \<open>Well-formed trees\<close>

text \<open>Siblings have different topics, so that a path leads to one node.\<close>

fun hier_ok :: "subhier \<Rightarrow> bool" where
  "hier_ok (Subhier t ls cs) \<longleftrightarrow> distinct (map sh_topic cs) \<and> (\<forall>c \<in> set cs. hier_ok c)"

text \<open>A multi-level wildcard ends its filter.\<close>

fun hash_ok :: "subhier \<Rightarrow> bool" where
  "hash_ok (Subhier t ls cs) \<longleftrightarrow> (t = hash_tok \<longrightarrow> cs = []) \<and> (\<forall>c \<in> set cs. hash_ok c)"

lemma hier_ok_iff:
  "hier_ok h \<longleftrightarrow> distinct (map sh_topic (sh_children h)) \<and> (\<forall>c \<in> set (sh_children h). hier_ok c)"
  by (cases h) simp

lemma hash_ok_iff:
  "hash_ok h \<longleftrightarrow> (sh_topic h = hash_tok \<longrightarrow> sh_children h = []) \<and> (\<forall>c \<in> set (sh_children h). hash_ok c)"
  by (cases h) simp

definition hash_last :: "token list \<Rightarrow> bool" where
  "hash_last toks \<longleftrightarrow> hash_tok \<notin> set (butlast toks)"

section \<open>Adding\<close>

text \<open>The abstract operation on one node: the QoS of this identifier's leaf, or a new leaf.\<close>

definition upsert :: "(slot \<Rightarrow> client) \<Rightarrow> slot \<Rightarrow> int \<Rightarrow> subleaf list \<Rightarrow> subleaf list" where
  "upsert st ctx qos ls =
     (case leaf_update st ctx qos ls of Some ls' \<Rightarrow> ls'
      | None \<Rightarrow> ls @ [\<lparr>l_context = ctx, l_qos = qos\<rparr>])"

definition only_subs :: "slot \<Rightarrow> (slot \<Rightarrow> client) \<Rightarrow> (slot \<Rightarrow> client) \<Rightarrow> bool" where
  "only_subs ctx st st' \<longleftrightarrow> (\<exists>s. st' = st(ctx := (st ctx)\<lparr>subs := s\<rparr>))"

lemma only_subs_refl [simp]: "only_subs ctx st st"
proof -
  have "st = st(ctx := (st ctx)\<lparr>subs := subs (st ctx)\<rparr>)" by auto
  then show ?thesis unfolding only_subs_def by blast
qed

lemma only_subs_upd: "only_subs ctx st (st(ctx := (st ctx)\<lparr>subs := s\<rparr>))"
  unfolding only_subs_def by blast

lemma add_sub_ptr_only: "add_sub_ptr path c al = (Some c', al') \<Longrightarrow> \<exists>s. c' = c\<lparr>subs := s\<rparr>"
  by (auto simp: add_sub_ptr_def split: option.splits prod.splits if_splits)

lemma sub_add_leaf_any:
  assumes "sub_add_leaf ctx qos path st h al = (rc, st', h', al')"
  shows "rc = 0 \<or> rc = -2" "only_subs ctx st st'"
    "h' = (if rc = 0 then Subhier (sh_topic h) (upsert st ctx qos (sh_subs h)) (sh_children h) else h)"
proof -
  show "rc = 0 \<or> rc = -2"
    using assms by (auto simp: sub_add_leaf_def Let_def split: option.splits prod.splits if_splits)
  show "only_subs ctx st st'"
    using assms by (auto simp: sub_add_leaf_def Let_def dest!: add_sub_ptr_only
        intro: only_subs_refl only_subs_upd split: option.splits prod.splits if_splits)
  show "h' = (if rc = 0 then Subhier (sh_topic h) (upsert st ctx qos (sh_subs h)) (sh_children h) else h)"
    using assms by (auto simp: sub_add_leaf_def upsert_def Let_def
        split: option.splits prod.splits if_splits)
qed

lemma sub_add_rc:
  "rc = 0 \<or> rc = -2" if "sub_add ctx qos path toks st h al = (rc, st', h', al')"
  for h :: subhier
  using that
  by (induction ctx qos path toks st h al arbitrary: rc st' h' al' rule: sub_add.induct)
    (auto simp: Let_def dest: sub_add_leaf_any split: prod.splits if_splits)

text \<open>One round of the descent, as a case distinction on the child.\<close>

lemma sub_add_cases:
  assumes "sub_add ctx qos path (t # ts) st h al = (rc, st', h', al')"
  obtains (old) b where "t \<in> sh_topic ` set (sh_children h)"
      "sub_add ctx qos (path @ [t]) ts st (sh_children h ! branch_pos t (sh_children h)) al
         = (rc, st', b, al')"
      "h' = Subhier (sh_topic h) (sh_subs h) ((sh_children h)[branch_pos t (sh_children h) := b])"
  | (fresh) a b where "t \<notin> sh_topic ` set (sh_children h)"
      "sub_add ctx qos (path @ [t]) ts st (Subhier t [] []) a = (rc, st', b, al')"
      "h' = Subhier (sh_topic h) (sh_subs h) (sh_children h @ [b])"
  | (fail) "t \<notin> sh_topic ` set (sh_children h)" "rc = -2" "h' = h" "st' = st"
  using assms that
  by (cases "t \<in> sh_topic ` set (sh_children h)")
    (auto simp: Let_def split: prod.splits if_splits)

lemma sub_add_any:
  assumes "sub_add ctx qos path toks st h al = (rc, st', h', al')"
  shows "only_subs ctx st st' \<and> sh_topic h' = sh_topic h \<and>
    (\<forall>p. hier_leaves h' p =
      (if rc = 0 \<and> p = toks then upsert st ctx qos (hier_leaves h p) else hier_leaves h p))"
  using assms
proof (induction toks arbitrary: path h al rc st' h' al')
  case Nil
  then have "sub_add_leaf ctx qos path st h al = (rc, st', h', al')" by simp
  note leaf = sub_add_leaf_any [OF this]
  have "hier_leaves h' p = (if rc = 0 \<and> p = [] then upsert st ctx qos (hier_leaves h p) else hier_leaves h p)"
    for p using leaf(3) by (cases p) auto
  with leaf show ?case by (cases h) auto
next
  case (Cons t ts)
  from Cons.prems show ?case
  proof (cases rule: sub_add_cases)
    case (old b)
    let ?cs = "sh_children h" and ?i = "branch_pos t (sh_children h)"
    have top: "sh_topic (?cs ! ?i) = t" "sh_topic b = t" and less: "?i < length ?cs"
      using old Cons.IH [OF old(2)] by (simp_all add: branch_pos_topic)
    then have pos: "branch_pos x (?cs[?i := b]) = branch_pos x ?cs" for x by simp
    have "hier_leaves h' p = (if rc = 0 \<and> p = t # ts then upsert st ctx qos (hier_leaves h p)
        else hier_leaves h p)" for p
    proof (cases p)
      case (Cons x q)
      have "branch_pos x ?cs < length ?cs \<longrightarrow> x \<noteq> t \<longrightarrow> ?i \<noteq> branch_pos x ?cs"
        using top(1) branch_pos_topic [of x ?cs] by auto
      with Cons Cons.IH [OF old(2)] less show ?thesis
        by (cases "x = t") (simp_all add: old(3) pos Let_def del: branch_pos_less)
    qed (simp add: old(3))
    with Cons.IH [OF old(2)] old(3) show ?thesis by simp
  next
    case (fresh a b)
    have empty: "hier_leaves (Subhier t [] []) q = []" for q by (cases q) simp_all
    have "hier_leaves h' p = (if rc = 0 \<and> p = t # ts then upsert st ctx qos (hier_leaves h p)
        else hier_leaves h p)" for p
      using fresh(1) Cons.IH [OF fresh(2)] empty
      by (cases p) (auto simp: fresh(3) Let_def branch_pos_append nth_append)
    with Cons.IH [OF fresh(2)] fresh(3) show ?thesis by simp
  qed simp
qed

lemma sub_add_ok:
  assumes "sub_add ctx qos path toks st h al = (rc, st', h', al')"
  shows "(hier_ok h \<longrightarrow> hier_ok h') \<and>
    (hash_ok h \<and> hash_last toks \<and> (sh_topic h = hash_tok \<longrightarrow> toks = []) \<longrightarrow> hash_ok h')"
  using assms
proof (induction toks arbitrary: path h al rc st' h' al')
  case Nil
  then have "sub_add_leaf ctx qos path st h al = (rc, st', h', al')" by simp
  from sub_add_leaf_any(3) [OF this] show ?case by (cases h) auto
next
  case (Cons t ts)
  have last: "hash_last ts" "t = hash_tok \<longrightarrow> ts = []" if "hash_last (t # ts)"
    using that by (auto simp: hash_last_def split: if_splits)
  from Cons.prems show ?case
  proof (cases rule: sub_add_cases)
    case (old b)
    let ?cs = "sh_children h" and ?i = "branch_pos t (sh_children h)"
    have top: "sh_topic (?cs ! ?i) = t" "sh_topic b = t" "?cs ! ?i \<in> set ?cs"
      using old sub_add_any [OF old(2)] by (simp_all add: branch_pos_topic branch_pos_in)
    have "set (?cs[?i := b]) \<subseteq> insert b (set ?cs)" by (rule set_update_subset_insert)
    then show ?thesis
      using Cons.IH [OF old(2)] top last old
      by (auto simp: hier_ok_iff [of h] hash_ok_iff [of h] map_topic_update)
  next
    case (fresh a b)
    then have "sh_topic b = t" using sub_add_any [OF fresh(2)] by simp
    then show ?thesis
      using Cons.IH [OF fresh(2)] last fresh
      by (auto simp: hier_ok_iff [of h] hash_ok_iff [of h])
  qed auto
qed


section \<open>Searching\<close>

text \<open>
  A filter, as tokens, against the tokens of a topic: \<open>+\<close> takes one level, a final \<open>#\<close>
  takes all the remaining levels and the parent level itself.
\<close>

fun filter_matches :: "token list \<Rightarrow> token list \<Rightarrow> bool" where
  "filter_matches [] toks = (toks = [])"
| "filter_matches (f # fs) toks =
     (f = hash_tok \<and> fs = [] \<or>
      toks \<noteq> [] \<and> (f = hd toks \<or> f = plus_tok) \<and> filter_matches fs (tl toks))"

text \<open>The nodes that a search of branches visits, in the order it processes them.\<close>

function search_nodes :: "token list \<Rightarrow> subhier list \<Rightarrow> (token list \<times> subleaf list) list" where
  "search_nodes toks [] = []"
| "search_nodes toks (b # bs) =
     (if toks \<noteq> [] \<and> (sh_topic b = hd toks \<or> sh_topic b = plus_tok) then
        map (apfst ((#) (sh_topic b))) (search_nodes (tl toks) (sh_children b)) @
        (if tl toks = [] then [([sh_topic b], sh_subs b)] else [])
      else if sh_topic b = hash_tok \<and> sh_children b = [] then [([sh_topic b], sh_subs b)]
      else []) @ search_nodes toks bs"
  by pat_completeness auto
termination
  by (relation "measures [\<lambda>(toks, _). length toks, \<lambda>(_, bs). length bs]") auto

lemma subs_process_append:
  "subs_process cb topic payload len (xs @ ys) st =
     obind (subs_process cb topic payload len xs st) (subs_process cb topic payload len ys)"
  by (induction xs arbitrary: st) (simp_all add: obind_assoc)

lemma sub_search_nodes:
  "sub_search cb topic payload len toks bs =
     subs_process cb topic payload len (concat (map snd (search_nodes toks bs)))"
proof (induction toks bs rule: search_nodes.induct)
  case (2 toks b bs)
  show ?case
    by (rule ext) (use 2 in \<open>auto simp: subs_process_append comp_def obind_assoc\<close>)
qed (auto intro!: ext)

text \<open>What a branch contributes.\<close>

definition branch_nodes :: "token list \<Rightarrow> subhier \<Rightarrow> (token list \<times> subleaf list) list" where
  "branch_nodes toks b =
     (if toks \<noteq> [] \<and> (sh_topic b = hd toks \<or> sh_topic b = plus_tok) then
        map (apfst ((#) (sh_topic b))) (search_nodes (tl toks) (sh_children b)) @
        (if tl toks = [] then [([sh_topic b], sh_subs b)] else [])
      else if sh_topic b = hash_tok \<and> sh_children b = [] then [([sh_topic b], sh_subs b)]
      else [])"

lemma search_nodes_Cons: "search_nodes toks (b # bs) = branch_nodes toks b @ search_nodes toks bs"
  by (simp add: branch_nodes_def)

lemma branch_node_topic: "(p, ls) \<in> set (branch_nodes toks b) \<Longrightarrow> \<exists>q. p = sh_topic b # q"
  by (auto simp: branch_nodes_def split: if_splits)

lemma search_node_topic: "(p, ls) \<in> set (search_nodes toks bs) \<Longrightarrow> p \<noteq> [] \<and> hd p \<in> sh_topic ` set bs"
  by (induction bs) (auto simp: search_nodes_Cons simp del: search_nodes.simps(2) dest: branch_node_topic)

lemma hier_find_children: "p \<noteq> [] \<Longrightarrow> hier_find (Subhier t ls (sh_children b)) p = hier_find b p"
  by (cases p) (simp_all add: Let_def)

lemma hier_find_Cons:
  "hier_find (Subhier x ls (b # bs)) (t # q) =
     (if sh_topic b = t then hier_find b q else hier_find (Subhier x ls bs) (t # q))"
  by (auto simp: Let_def branch_pos_Cons)

lemma prefix_image_iff: "(x # q, y) \<in> apfst ((#) z) ` X \<longleftrightarrow> x = z \<and> (q, y) \<in> X"
  by (auto simp: image_iff apfst_def map_prod_def split: prod.splits intro!: bexI [of _ "(q, y)"])

lemma search_nodes_iff:
  assumes "distinct (map sh_topic bs)" "\<forall>b \<in> set bs. hier_ok b \<and> hash_ok b" "hash_tok \<notin> set toks"
  shows "(p, ls) \<in> set (search_nodes toks bs) \<longleftrightarrow>
    p \<noteq> [] \<and> filter_matches p toks \<and> hier_find (Subhier [] [] bs) p = Some ls"
  using assms
proof (induction toks bs arbitrary: p ls rule: search_nodes.induct)
  case (2 toks b bs)
  have ok: "hier_ok b" "hash_ok b" using 2(4) by auto
  then have kids: "distinct (map sh_topic (sh_children b))"
    "\<forall>c \<in> set (sh_children b). hier_ok c \<and> hash_ok c"
    by (simp_all add: hier_ok_iff [of b] hash_ok_iff [of b])
  have tl: "hash_tok \<notin> set (tl toks)" using 2(5) by (cases toks) auto
  have IH1: "(q, ls) \<in> set (search_nodes (tl toks) (sh_children b)) \<longleftrightarrow>
      q \<noteq> [] \<and> filter_matches q (tl toks) \<and> hier_find b q = Some ls"
    if "toks \<noteq> [] \<and> (sh_topic b = hd toks \<or> sh_topic b = plus_tok)" for q ls
    using 2(1) [OF that kids tl] by (auto simp: hier_find_children)
  have IH2: "(p, ls) \<in> set (search_nodes toks bs) \<longleftrightarrow>
      p \<noteq> [] \<and> filter_matches p toks \<and> hier_find (Subhier [] [] bs) p = Some ls"
    using 2(2) 2(3-5) by simp
  have branch: "(sh_topic b # q, ls) \<in> set (branch_nodes toks b) \<longleftrightarrow>
      filter_matches (sh_topic b # q) toks \<and> hier_find b q = Some ls" for q
  proof (cases "sh_topic b = hash_tok")
    case True
    with ok(2) have "sh_children b = []" by (simp add: hash_ok_iff [of b])
    moreover have "\<not> (toks \<noteq> [] \<and> (sh_topic b = hd toks \<or> sh_topic b = plus_tok))"
      using True 2(5) by (cases toks) auto
    ultimately show ?thesis using True by (cases q) (auto simp: branch_nodes_def branch_pos_def)
  next
    case False
    then show ?thesis
      using IH1 [of q ls] by (cases q) (auto simp: branch_nodes_def prefix_image_iff simp del: hier_find.simps(2))
  qed
  show ?case
  proof (cases p)
    case Nil
    then show ?thesis using search_node_topic by blast
  next
    case (Cons t q)
    have "(sh_topic b # q, ls) \<notin> set (search_nodes toks bs)"
      using 2(3) search_node_topic [of "sh_topic b # q" ls toks bs] by auto
    then show ?thesis
      using Cons IH2 branch [of q] branch_node_topic [of p ls toks b]
      by (auto simp: search_nodes_Cons hier_find_Cons
          simp del: search_nodes.simps(2) hier_find.simps(2) filter_matches.simps)
  qed
qed (auto simp: branch_pos_def neq_Nil_conv)

lemma prefix_distinct:
  assumes "distinct (map fst xs)"
  shows "distinct (map fst (map (apfst ((#) t)) xs))"
proof -
  have "map fst (map (apfst ((#) t)) xs) = map ((#) t) (map fst xs)" by simp
  then show ?thesis using assms by (simp add: distinct_map inj_on_def)
qed

lemma search_nodes_distinct:
  assumes "distinct (map sh_topic bs)" "\<forall>b \<in> set bs. hier_ok b"
  shows "distinct (map fst (search_nodes toks bs))"
  using assms
proof (induction toks bs rule: search_nodes.induct)
  case (2 toks b bs)
  let ?c = "search_nodes (tl toks) (sh_children b)"
  have ok: "hier_ok b" using 2(4) by auto
  have sub: "distinct (map fst (branch_nodes toks b))"
  proof (cases "toks \<noteq> [] \<and> (sh_topic b = hd toks \<or> sh_topic b = plus_tok)")
    case True
    have "distinct (map fst ?c)" using 2(1) [OF True] ok by (simp add: hier_ok_iff [of b])
    then have "distinct (map fst (map (apfst ((#) (sh_topic b))) ?c))"
      by (rule prefix_distinct)
    moreover have "[sh_topic b] \<notin> set (map fst (map (apfst ((#) (sh_topic b))) ?c))"
      using search_node_topic by fastforce
    ultimately show ?thesis using True by (cases "tl toks = []") (simp_all add: branch_nodes_def)
  qed (auto simp: branch_nodes_def)
  moreover have "distinct (map fst (search_nodes toks bs))" using 2(2-4) by simp
  moreover have "set (map fst (branch_nodes toks b)) \<inter> set (map fst (search_nodes toks bs)) = {}"
    using branch_node_topic search_node_topic 2(3) by fastforce
  ultimately show ?case by (simp add: search_nodes_Cons del: search_nodes.simps(2))
qed simp


end
