(* ===== verification/Substree_Facts.thy ===== *)
theory Substree_Facts
  imports Tree_Facts
begin

text \<open>
  The subscription store as a whole: what \<open>mqtt3_sub_add\<close> does to the subscriptions of every
  filter, that a valid filter keeps the tree well formed, and that
  \<open>mqtt3_sub_tree_process\<close> hands a message to the subscriptions of exactly the matching
  filters.  The locale \<open>subscription_store\<close> states the contract; the model interprets it.
\<close>

section \<open>The tree of the broker\<close>

text \<open>
  \<open>mqtt3_sub_add\<close> looks for the first token among the root's children and then descends
  with \<^emph>\<open>all\<close> tokens, so the first token stands twice on the path of a filter.
\<close>

definition filter_path :: "token \<Rightarrow> token list" where
  "filter_path f = hd (topic_tokens f) # topic_tokens f"

definition root :: "broker \<Rightarrow> subhier" where
  "root bro = Subhier [] [] (subs_children bro)"

definition sub_leaves :: "broker \<Rightarrow> token \<Rightarrow> subleaf list" where
  "sub_leaves bro f = hier_leaves (root bro) (filter_path f)"

lemma filter_path_inj [simp]: "filter_path f = filter_path g \<longleftrightarrow> f = g"
  by (auto simp: filter_path_def dest: topic_tokens_inj)

definition tree_ok :: "broker \<Rightarrow> bool" where
  "tree_ok bro \<longleftrightarrow> hier_ok (root bro) \<and> hash_ok (root bro) \<and> hash_tok \<notin> sh_topic ` set (subs_children bro) \<and>
     (\<forall>p. hier_leaves (root bro) p \<noteq> [] \<longrightarrow> p \<in> range filter_path)"

text \<open>The two ways through \<open>mqtt3_sub_add\<close> once the tokens are there, and its failures.\<close>

lemma mqtt3_sub_add_cases:
  assumes "mqtt3_sub_add bro ctx sub qos = Ok (rc, bro')"
  obtains (no_tokens) al where "rc = 1" "bro' = bro\<lparr>mem_alloc := al\<rparr>"
  | (no_node) al where "rc = -2" "bro' = bro\<lparr>root_lock := True, mem_alloc := al\<rparr>"
  | (old) t toks a st h al where "topic_tokens sub = t # toks" "\<not> root_lock bro"
      "t \<in> sh_topic ` set (subs_children bro)"
      "sub_add ctx qos [t] (t # toks) (clients bro)
         (subs_children bro ! branch_pos t (subs_children bro)) a = (rc, st, h, al)"
      "bro' = bro\<lparr>clients := st,
         subs_children := (subs_children bro)[branch_pos t (subs_children bro) := h], mem_alloc := al\<rparr>"
  | (fresh) t toks a st h al where "topic_tokens sub = t # toks" "\<not> root_lock bro"
      "t \<notin> sh_topic ` set (subs_children bro)"
      "sub_add ctx qos [t] (t # toks) (clients bro) (Subhier t [] []) a = (rc, st, h, al)"
      "bro' = bro\<lparr>clients := st, subs_children := h # subs_children bro, mem_alloc := al\<rparr>"
proof (cases "sub_topic_tokenise sub (mem_alloc bro)")
  case (Pair r a)
  show thesis
  proof (cases r)
    case None
    with Pair assms no_tokens [of a] show thesis by (auto simp: mqtt3_sub_add_def)
  next
    case (Some r')
    with Pair have "r' = topic_tokens sub" using tokenise_any by blast
    moreover obtain t toks where toks: "topic_tokens sub = t # toks" by (cases "topic_tokens sub") auto
    ultimately have toks: "topic_tokens sub = t # toks" "r = Some (t # toks)" using Some by simp_all
    have "\<not> root_lock bro" using assms Pair toks by (auto simp: mqtt3_sub_add_def)
    note common = toks Pair this assms
    show thesis
    proof (cases "t \<in> sh_topic ` set (subs_children bro)")
      case True
      obtain rc0 st h al where add: "sub_add ctx qos [t] (t # toks) (clients bro)
          (subs_children bro ! branch_pos t (subs_children bro)) a = (rc0, st, h, al)"
        by (cases "sub_add ctx qos [t] (t # toks) (clients bro)
          (subs_children bro ! branch_pos t (subs_children bro)) a") auto
      then have "rc0 = 0 \<or> rc0 = -2" by (rule sub_add_rc)
      with True common add old [of t toks a st h al] show thesis
        by (auto simp: mqtt3_sub_add_def Let_def simp del: sub_add.simps)
    next
      case False
      obtain ok1 a1 ok2 a2 where m: "malloc a = (ok1, a1)" "malloc a1 = (ok2, a2)" by fastforce
      obtain rc0 st h al where add: "sub_add ctx qos [t] (t # toks) (clients bro) (Subhier t [] []) a2
          = (rc0, st, h, al)"
        by (cases "sub_add ctx qos [t] (t # toks) (clients bro) (Subhier t [] []) a2") auto
      then have "rc0 = 0 \<or> rc0 = -2" by (rule sub_add_rc)
      consider "\<not> ok1" | "ok1" "\<not> ok2" | "ok1" "ok2" by blast
      then show thesis
      proof cases
        case 1
        with False common m have "rc = -2 \<and> bro' = bro\<lparr>root_lock := True, mem_alloc := a1\<rparr>"
          by (simp add: mqtt3_sub_add_def Let_def eq_commute)
        then show thesis using no_node by blast
      next
        case 2
        with False common m have "rc = -2 \<and> bro' = bro\<lparr>root_lock := True, mem_alloc := a2\<rparr>"
          by (simp add: mqtt3_sub_add_def Let_def eq_commute)
        then show thesis using no_node by blast
      next
        case 3
        with False common m add \<open>rc0 = 0 \<or> rc0 = -2\<close> have "rc0 = rc \<and>
            bro' = bro\<lparr>clients := st, subs_children := h # subs_children bro, mem_alloc := al\<rparr>"
          by (auto simp: mqtt3_sub_add_def Let_def simp del: sub_add.simps)
        with fresh common False add show thesis by blast
      qed
    qed
  qed
qed

text \<open>The law of the root: one node is replaced or put in front.\<close>

lemma child_update:
  assumes "t \<in> sh_topic ` set cs" "sh_topic h = t"
  shows "hier_leaves (Subhier x ls (cs[branch_pos t cs := h])) (u # p) =
    (if u = t then hier_leaves h p else hier_leaves (Subhier x ls cs) (u # p))"
proof -
  have less: "branch_pos t cs < length cs" using assms by simp
  have pos: "branch_pos u (cs[branch_pos t cs := h]) = branch_pos u cs" for u
    using assms less by (intro branch_pos_update) (auto simp: branch_pos_topic)
  have "branch_pos u cs < length cs \<longrightarrow> u \<noteq> t \<longrightarrow> branch_pos t cs \<noteq> branch_pos u cs"
    using branch_pos_topic [of u cs] branch_pos_topic [OF assms(1)] by auto
  with less show ?thesis
    by (cases "u = t") (simp_all add: pos Let_def del: branch_pos_less)
qed

lemma child_Cons:
  "hier_leaves (Subhier x ls (h # cs)) (u # p) =
    (if u = sh_topic h then hier_leaves h p else hier_leaves (Subhier x ls cs) (u # p))"
  by (auto simp: hier_find_Cons simp del: hier_find.simps(2))

lemma child_leaves:
  "t \<in> sh_topic ` set cs \<Longrightarrow>
   hier_leaves (Subhier x ls cs) (t # p) = hier_leaves (cs ! branch_pos t cs) p"
  by (simp add: Let_def)

lemma child_none: "t \<notin> sh_topic ` set cs \<Longrightarrow> hier_leaves (Subhier x ls cs) (t # p) = []"
  by (simp add: Let_def)

lemma empty_node_leaves [simp]: "hier_leaves (Subhier t [] []) q = []"
  by (cases q) simp_all

lemma mqtt3_sub_add_law:
  assumes "mqtt3_sub_add bro ctx sub qos = Ok (rc, bro')"
  shows "(rc = 0 \<or> rc = 1 \<or> rc = -2) \<and> only_subs ctx (clients bro) (clients bro') \<and>
    (\<forall>p. hier_leaves (root bro') p = (if rc = 0 \<and> p = filter_path sub
         then upsert (clients bro) ctx qos (hier_leaves (root bro) p) else hier_leaves (root bro) p))"
  using assms
proof (cases rule: mqtt3_sub_add_cases)
  case (old t toks a st h al)
  note add = sub_add_any [OF old(4)]
  have "sh_topic h = t" using add old(3) by (simp add: branch_pos_topic)
  then have "hier_leaves (root bro') p = (if rc = 0 \<and> p = filter_path sub
         then upsert (clients bro) ctx qos (hier_leaves (root bro) p) else hier_leaves (root bro) p)" for p
    using add old(1,3)
    by (cases p) (auto simp: old(5) root_def child_update child_leaves filter_path_def
        simp del: hier_find.simps(2))
  with add sub_add_rc [OF old(4)] old(5) show ?thesis by auto
next
  case (fresh t toks a st h al)
  note add = sub_add_any [OF fresh(4)]
  have "hier_leaves (root bro') p = (if rc = 0 \<and> p = filter_path sub
         then upsert (clients bro) ctx qos (hier_leaves (root bro) p) else hier_leaves (root bro) p)" for p
    using add fresh(1,3)
    by (cases p) (auto simp: fresh(5) root_def child_Cons child_none filter_path_def
        simp del: hier_find.simps(2))
  with add sub_add_rc [OF fresh(4)] fresh(5) show ?thesis by auto
qed (auto simp: root_def)

lemma sub_add_enough:
  "sub_add ctx qos path toks st h [] = (rc, st', h', al) \<Longrightarrow> rc = 0 \<and> al = []"
proof (induction toks arbitrary: path h rc st' h' al)
  case Nil
  then show ?case
    by (auto simp: sub_add_leaf_def add_sub_ptr_def split: option.splits)
next
  case (Cons t ts)
  from Cons.prems show ?case
    by (auto simp: Let_def split: prod.splits if_splits dest: Cons.IH)
qed

lemma mqtt3_sub_add_enough:
  assumes "mem_alloc bro = []" "\<not> root_lock bro"
  shows "\<exists>bro'. mqtt3_sub_add bro ctx sub qos = Ok (0, bro') \<and> mem_alloc bro' = [] \<and> \<not> root_lock bro'"
proof -
  let ?cs = "subs_children bro"
  obtain t toks where toks: "topic_tokens sub = t # toks" by (cases "topic_tokens sub") auto
  show ?thesis
  proof (cases "t \<in> sh_topic ` set ?cs")
    case True
    obtain rc st h al where add: "sub_add ctx qos [t] (t # toks) (clients bro) (?cs ! branch_pos t ?cs) []
        = (rc, st, h, al)"
      by (cases "sub_add ctx qos [t] (t # toks) (clients bro) (?cs ! branch_pos t ?cs) []") auto
    from sub_add_enough [OF add] add toks True assms show ?thesis
      by (simp add: mqtt3_sub_add_def tokenise_ok Let_def del: sub_add.simps)
  next
    case False
    obtain rc st h al where add: "sub_add ctx qos [t] (t # toks) (clients bro) (Subhier t [] []) []
        = (rc, st, h, al)"
      by (cases "sub_add ctx qos [t] (t # toks) (clients bro) (Subhier t [] []) []") auto
    from sub_add_enough [OF add] add toks False assms show ?thesis
      by (simp add: mqtt3_sub_add_def tokenise_ok Let_def del: sub_add.simps)
  qed
qed


text \<open>A valid filter has its multi-level wildcard at the end.\<close>

lemma filter_levels_hash_last: "filter_levels_ok ls \<Longrightarrow> hash_last ls"
  by (induction ls) (auto simp: hash_last_def)

lemma first_token_hash: "hd (topic_tokens f) \<noteq> hash_tok"
proof (cases "first_is f c_dollar")
  case True
  then obtain x s where "f = x # s" "x = c_dollar" by (cases f) (auto simp: first_is_def)
  then show ?thesis by (auto simp: topic_tokens_def first_is_def split: list.splits)
qed (simp add: topic_tokens_def)

lemma valid_hash_last: "sub_filter_ok f \<Longrightarrow> hash_last (topic_tokens f)"
  using filter_levels_hash_last [of "split_at c_slash f"]
  by (auto simp: sub_filter_ok_def topic_tokens_def hash_last_def)

lemma mqtt3_sub_add_ok:
  assumes "mqtt3_sub_add bro ctx sub qos = Ok (rc, bro')"
  shows "(hier_ok (root bro) \<longrightarrow> hier_ok (root bro')) \<and>
    (hash_last (topic_tokens sub) \<and> hash_ok (root bro) \<and> hash_tok \<notin> sh_topic ` set (subs_children bro)
      \<longrightarrow> hash_ok (root bro') \<and> hash_tok \<notin> sh_topic ` set (subs_children bro'))"
  using assms
proof (cases rule: mqtt3_sub_add_cases)
  case (old t toks a st h al)
  let ?cs = "subs_children bro" and ?i = "branch_pos t (subs_children bro)"
  note ok = sub_add_ok [OF old(4)]
  have top: "sh_topic (?cs ! ?i) = t" "sh_topic h = t" "?cs ! ?i \<in> set ?cs" "t \<noteq> hash_tok"
    using old sub_add_any [OF old(4)] first_token_hash [of sub]
    by (simp_all add: branch_pos_topic branch_pos_in)
  have same: "map sh_topic (?cs[?i := h]) = map sh_topic ?cs"
    using top old by (intro map_topic_update) simp_all
  have "set (?cs[?i := h]) \<subseteq> insert h (set ?cs)" by (rule set_update_subset_insert)
  then show ?thesis
    using ok top old same list.set_map [of sh_topic "?cs[?i := h]"] list.set_map [of sh_topic ?cs]
    by (auto simp: root_def)
next
  case (fresh t toks a st h al)
  note ok = sub_add_ok [OF fresh(4)]
  have "sh_topic h = t" "t \<noteq> hash_tok"
    using fresh sub_add_any [OF fresh(4)] first_token_hash [of sub] by simp_all
  then show ?thesis using ok fresh by (auto simp: root_def)
qed (simp_all add: root_def)

section \<open>Matching\<close>

text \<open>
  MQTT 3.1.1, section 4.7: the levels match, and a filter that starts with a wildcard does
  not match a topic that starts with a dollar sign.
\<close>

definition mqtt_matches :: "token \<Rightarrow> token \<Rightarrow> bool" where
  "mqtt_matches f t \<longleftrightarrow> filter_matches (split_at c_slash f) (split_at c_slash t) \<and>
     \<not> (first_is t c_dollar \<and> hd (split_at c_slash f) \<in> {plus_tok, hash_tok})"

lemma first_level_dollar: "first_is (hd (split_at c_slash s)) c_dollar = first_is s c_dollar"
  by (cases s) (auto simp: first_is_def split: list.splits)

lemma filter_matches_hd:
  "filter_matches p toks \<Longrightarrow> p \<noteq> [] \<Longrightarrow> hd p \<noteq> plus_tok \<Longrightarrow> hd p \<noteq> hash_tok \<Longrightarrow>
   toks \<noteq> [] \<and> hd p = hd toks"
  by (cases p) auto

lemma mqtt_matches_tokens:
  "mqtt_matches f t \<longleftrightarrow>
    hd (topic_tokens f) = hd (topic_tokens t) \<and> filter_matches (topic_tokens f) (topic_tokens t)"
proof -
  let ?f = "split_at c_slash f" and ?t = "split_at c_slash t"
  have wild: "first_is f c_dollar \<Longrightarrow> hd ?f \<noteq> plus_tok \<and> hd ?f \<noteq> hash_tok"
    using first_level_dollar [of f] by (auto simp: first_is_def)
  have hds: "hd ?f = hd ?t \<Longrightarrow> first_is f c_dollar = first_is t c_dollar"
    using first_level_dollar [of f] first_level_dollar [of t] by simp
  have empty: "first_is s c_dollar \<Longrightarrow> hd (split_at c_slash s) \<noteq> []" for s
    using first_level_dollar [of s] by (auto simp: first_is_def)
  show ?thesis
    using wild hds empty [of f] empty [of t] filter_matches_hd [of ?f ?t]
    by (cases "first_is f c_dollar"; cases "first_is t c_dollar")
      (auto simp: mqtt_matches_def topic_tokens_def)
qed

text \<open>The paths that a published topic reaches are those of the filters that match it.\<close>

definition delivered_nodes :: "broker \<Rightarrow> token \<Rightarrow> (token list \<times> subleaf list) list" where
  "delivered_nodes bro t = (let toks = topic_tokens t in
     concat (map (\<lambda>h. if sh_topic h = hd toks
       then map (apfst ((#) (sh_topic h))) (search_nodes toks (sh_children h)) else [])
       (subs_children bro)))"

lemma process_tops_nodes:
  "process_tops cb topic payload len toks hs =
     subs_process cb topic payload len (concat (map snd (concat (map (\<lambda>h. if sh_topic h = hd toks
       then map (apfst ((#) (sh_topic h))) (search_nodes toks (sh_children h)) else []) hs))))"
proof (induction hs)
  case (Cons h hs)
  show ?case
    by (rule ext) (simp add: Cons subs_process_append sub_search_nodes comp_def)
qed (auto intro: ext)

lemma tree_process_nodes:
  "mem_alloc db = [] \<Longrightarrow> mqtt3_sub_tree_process db ctx topic payload len cb =
     obind (subs_process cb topic payload len (concat (map snd (delivered_nodes db topic))) (clients db))
       (\<lambda>st. Ok (0, db\<lparr>clients := st\<rparr>))"
proof -
  assume "mem_alloc db = []"
  then have same: "db\<lparr>clients := st, mem_alloc := []\<rparr> = db\<lparr>clients := st\<rparr>" for st
    by (cases db) simp
  from \<open>mem_alloc db = []\<close> show ?thesis
    by (simp add: mqtt3_sub_tree_process_def tokenise_ok process_tops_nodes delivered_nodes_def Let_def
        same)
qed

lemma split_at_subset: "l \<in> set (split_at c xs) \<Longrightarrow> set l \<subseteq> set xs"
proof (induction xs arbitrary: l)
  case (Cons x xs)
  then show ?case by (cases "split_at c xs") (fastforce split: if_splits)+
qed simp

lemma topic_no_hash: "c_hash \<notin> set t \<Longrightarrow> hash_tok \<notin> set (topic_tokens t)"
  using split_at_subset [of hash_tok c_slash t] by (auto simp: topic_tokens_def)

lemma delivered_find:
  assumes "tree_ok bro" "c_hash \<notin> set t"
  shows "(p, ls) \<in> set (delivered_nodes bro t) \<longleftrightarrow>
    (\<exists>q. p = hd (topic_tokens t) # q \<and> q \<noteq> [] \<and> filter_matches q (topic_tokens t) \<and>
      hier_find (root bro) p = Some ls)"
proof -
  let ?cs = "subs_children bro" and ?toks = "topic_tokens t"
  from assms(1) have d: "distinct (map sh_topic ?cs)" and h: "\<forall>h \<in> set ?cs. hier_ok h \<and> hash_ok h"
    by (auto simp: tree_ok_def root_def)
  have find: "hier_find (root bro) (sh_topic h # q) = hier_find h q" if "h \<in> set ?cs" for h q
    using that branch_pos_unique [OF d that] by (auto simp: root_def Let_def)
  have kids: "(q, ls) \<in> set (search_nodes ?toks (sh_children b)) \<longleftrightarrow>
      q \<noteq> [] \<and> filter_matches q ?toks \<and> hier_find b q = Some ls" if "b \<in> set ?cs" for b q
  proof -
    have "hier_ok b" "hash_ok b" using h that by blast+
    then have "distinct (map sh_topic (sh_children b))" "\<forall>c \<in> set (sh_children b). hier_ok c \<and> hash_ok c"
      by (simp_all add: hier_ok_iff [of b] hash_ok_iff [of b])
    from search_nodes_iff [OF this topic_no_hash [OF assms(2)]] show ?thesis
      by (auto simp: hier_find_children)
  qed
  have "(p, ls) \<in> set (delivered_nodes bro t) \<longleftrightarrow>
      (\<exists>b \<in> set ?cs. sh_topic b = hd ?toks \<and> (\<exists>q. p = hd ?toks # q \<and>
         (q, ls) \<in> set (search_nodes ?toks (sh_children b))))"
    by (auto simp: delivered_nodes_def Let_def prefix_image_iff)
  also have "\<dots> \<longleftrightarrow> (\<exists>b \<in> set ?cs. sh_topic b = hd ?toks \<and> (\<exists>q. p = hd ?toks # q \<and>
      q \<noteq> [] \<and> filter_matches q ?toks \<and> hier_find b q = Some ls))"
    using kids by blast
  also have "\<dots> \<longleftrightarrow> (\<exists>b \<in> set ?cs. sh_topic b = hd ?toks \<and> (\<exists>q. p = hd ?toks # q \<and>
      q \<noteq> [] \<and> filter_matches q ?toks \<and> hier_find (root bro) p = Some ls))"
    using find by metis
  also have "\<dots> \<longleftrightarrow> (\<exists>q. p = hd ?toks # q \<and> q \<noteq> [] \<and> filter_matches q ?toks \<and>
      hier_find (root bro) p = Some ls)"
    by (auto simp: root_def Let_def split: if_splits) blast
  finally show ?thesis .
qed

lemma delivered_nodes_iff:
  assumes "tree_ok bro" "c_hash \<notin> set t"
  shows "(p, ls) \<in> set (delivered_nodes bro t) \<and> ls \<noteq> [] \<longleftrightarrow>
    (\<exists>f. p = filter_path f \<and> mqtt_matches f t \<and> ls = sub_leaves bro f \<and> ls \<noteq> [])"
proof -
  have "(p, ls) \<in> set (delivered_nodes bro t) \<and> ls \<noteq> [] \<longleftrightarrow>
      (\<exists>q. p = hd (topic_tokens t) # q \<and> q \<noteq> [] \<and> filter_matches q (topic_tokens t)) \<and>
      ls = hier_leaves (root bro) p \<and> ls \<noteq> []"
    unfolding delivered_find [OF assms] by (cases "hier_find (root bro) p") auto
  also have "\<dots> \<longleftrightarrow> (\<exists>f q. p = filter_path f \<and> p = hd (topic_tokens t) # q \<and> q \<noteq> [] \<and>
      filter_matches q (topic_tokens t) \<and> ls = hier_leaves (root bro) p \<and> ls \<noteq> [])"
    using assms(1) unfolding tree_ok_def by blast
  also have "\<dots> \<longleftrightarrow> (\<exists>f. p = filter_path f \<and> mqtt_matches f t \<and> ls = sub_leaves bro f \<and> ls \<noteq> [])"
    unfolding mqtt_matches_tokens sub_leaves_def
    by (intro ex_cong1) (auto simp: filter_path_def simp del: hier_find.simps(2))
  finally show ?thesis .
qed

lemma heads_disjoint: "hd ` X \<subseteq> {a} \<Longrightarrow> a \<notin> hd ` Y \<Longrightarrow> X \<inter> Y = {}"
  by auto

lemma delivered_nodes_distinct:
  assumes "tree_ok bro"
  shows "distinct (map fst (delivered_nodes bro t))"
proof -
  let ?toks = "topic_tokens t"
  let ?g = "\<lambda>h. if sh_topic h = hd ?toks
    then map (apfst ((#) (sh_topic h))) (search_nodes ?toks (sh_children h)) else []"
  have "distinct (map fst (concat (map ?g hs)))"
    if "distinct (map sh_topic hs)" "\<forall>h \<in> set hs. hier_ok h" for hs
    using that
  proof (induction hs)
    case (Cons h hs)
    have "distinct (map fst (search_nodes ?toks (sh_children h)))"
      using Cons.prems by (intro search_nodes_distinct) (auto simp: hier_ok_iff [of h])
    then have "distinct (map fst (?g h))" by (simp add: prefix_distinct del: map_map)
    have "hd ` fst ` set (concat (map ?g hs)) \<subseteq> sh_topic ` set hs"
      by (auto simp: apfst_def map_prod_def split: if_splits prod.splits) (metis imageI)
    moreover have "sh_topic h \<notin> sh_topic ` set hs" using Cons.prems(1) by simp
    ultimately have "sh_topic h \<notin> hd ` fst ` set (concat (map ?g hs))" by (meson subsetD)
    moreover have "hd ` fst ` set (?g h) \<subseteq> {sh_topic h}" by auto
    ultimately have "fst ` set (?g h) \<inter> fst ` set (concat (map ?g hs)) = {}" by (intro heads_disjoint)
    with Cons \<open>distinct (map fst (?g h))\<close> show ?case
      by (simp only: list.map concat.simps map_append distinct_append set_map) simp
  qed simp
  with assms show ?thesis by (simp add: delivered_nodes_def Let_def tree_ok_def root_def)
qed


lemma concat_nonempty: "concat (map snd (filter (\<lambda>x. snd x \<noteq> []) xs)) = concat (map snd xs)"
  by (induction xs) auto

lemma delivered_filters:
  assumes "tree_ok bro" "c_hash \<notin> set t"
  shows "\<exists>fs. distinct fs \<and> set fs = {f. mqtt_matches f t \<and> sub_leaves bro f \<noteq> []} \<and>
    concat (map snd (delivered_nodes bro t)) = concat (map (sub_leaves bro) fs)"
proof -
  let ?N = "filter (\<lambda>x. snd x \<noteq> []) (delivered_nodes bro t)"
  let ?g = "inv filter_path"
  have inv: "?g (filter_path f) = f" for f by (rule inv_f_f) (simp add: inj_def)
  have N: "(p, ls) \<in> set ?N \<longleftrightarrow> (\<exists>f. p = filter_path f \<and> mqtt_matches f t \<and>
      ls = sub_leaves bro f \<and> ls \<noteq> [])" for p ls
    using delivered_nodes_iff [OF assms, of p ls] by auto
  have "distinct (map fst ?N)"
    using delivered_nodes_distinct [OF assms(1)] by (rule distinct_map_filter)
  moreover have "inj_on ?g (fst ` set ?N)"
    by (rule inj_onI) (auto dest!: N [THEN iffD1] simp: inv simp del: set_filter)
  ultimately have "distinct (map ?g (map fst ?N))" by (simp only: distinct_map set_map simp_thms)
  moreover have "set (map ?g (map fst ?N)) = {f. mqtt_matches f t \<and> sub_leaves bro f \<noteq> []}"
  proof (intro set_eqI iffI)
    fix f assume "f \<in> set (map ?g (map fst ?N))"
    then obtain p ls where "f = ?g p" "(p, ls) \<in> set ?N" by (auto simp del: set_filter)
    then show "f \<in> {f. mqtt_matches f t \<and> sub_leaves bro f \<noteq> []}"
      by (auto dest!: N [THEN iffD1] simp: inv simp del: set_filter)
  next
    fix f assume "f \<in> {f. mqtt_matches f t \<and> sub_leaves bro f \<noteq> []}"
    then have "(filter_path f, sub_leaves bro f) \<in> set ?N" by (intro N [THEN iffD2]) auto
    then have "?g (fst (filter_path f, sub_leaves bro f)) \<in> ?g ` fst ` set ?N" by (intro imageI)
    then show "f \<in> set (map ?g (map fst ?N))" by (simp add: inv image_image del: set_filter)
  qed
  moreover have "map (sub_leaves bro) (map ?g (map fst ?N)) = map snd ?N"
    unfolding map_map
  proof (rule map_cong [OF refl])
    fix x assume "x \<in> set ?N"
    then have "(fst x, snd x) \<in> set ?N" by simp
    from N [THEN iffD1, OF this] show "(sub_leaves bro \<circ> (?g \<circ> fst)) x = snd x"
      by (auto simp: inv)
  qed
  then have "concat (map snd (delivered_nodes bro t)) = concat (map (sub_leaves bro) (map ?g (map fst ?N)))"
    by (simp only: concat_nonempty)
  ultimately show ?thesis by blast
qed

lemma tree_ok_add:
  assumes "mqtt3_sub_add bro ctx sub qos = Ok (rc, bro')" "tree_ok bro" "sub_filter_ok sub"
  shows "tree_ok bro'"
proof -
  have "p \<in> range filter_path" if "hier_leaves (root bro') p \<noteq> []" for p
    using that assms(2) mqtt3_sub_add_law [OF assms(1)]
    by (cases "p = filter_path sub") (auto simp: tree_ok_def)
  then show ?thesis
    using mqtt3_sub_add_ok [OF assms(1)] valid_hash_last [OF assms(3)] assms(2)
    by (simp add: tree_ok_def)
qed

section \<open>Who gets a message\<close>

definition client_ident :: "broker \<Rightarrow> slot \<Rightarrow> u8 list" where
  "client_ident bro ctx = cstr (cid (clients bro ctx))"

definition subscribers_of :: "broker \<Rightarrow> token \<Rightarrow> u8 list list" where
  "subscribers_of bro f = map (\<lambda>l. client_ident bro (l_context l)) (sub_leaves bro f)"

lemma leaf_update_None: "leaf_update st ctx qos ls = None \<longleftrightarrow> (\<forall>l \<in> set ls. \<not> same_id st (l_context l) ctx)"
  by (induction ls) auto

lemma leaf_update_contexts:
  "leaf_update st ctx qos ls = Some ls' \<Longrightarrow> map l_context ls' = map l_context ls"
  by (induction ls arbitrary: ls') (auto split: if_splits)

lemma only_subs_ident: "only_subs ctx st st' \<Longrightarrow> cid (st' x) = cid (st x)"
  by (auto simp: only_subs_def)

lemma upsert_idents:
  "map (\<lambda>l. cstr (cid (st (l_context l)))) (upsert st ctx qos ls) =
   (let ids = map (\<lambda>l. cstr (cid (st (l_context l)))) ls; i = cstr (cid (st ctx))
    in ids @ (if i \<in> set ids then [] else [i]))"
proof (cases "leaf_update st ctx qos ls")
  case None
  then have "cstr (cid (st ctx)) \<notin> set (map (\<lambda>l. cstr (cid (st (l_context l)))) ls)"
    by (auto simp: leaf_update_None same_id_def)
  with None show ?thesis by (simp add: upsert_def Let_def)
next
  case (Some ls')
  have "map (\<lambda>l. cstr (cid (st (l_context l)))) ls' = map (\<lambda>l. cstr (cid (st (l_context l)))) ls"
    using arg_cong [OF leaf_update_contexts [OF Some], of "map (\<lambda>c. cstr (cid (st c)))"] by (simp add: comp_def)
  moreover from Some have "\<exists>l \<in> set ls. same_id st (l_context l) ctx"
    using leaf_update_None [of st ctx qos ls] by auto
  then have "cstr (cid (st ctx)) \<in> set (map (\<lambda>l. cstr (cid (st (l_context l)))) ls)"
    by (force simp: same_id_def)
  ultimately show ?thesis using Some by (simp add: upsert_def)
qed


text \<open>
  What a broker needs of its subscription store: adding a subscription changes the
  subscribers of its own filter only, and a message goes to the subscribers of the filters
  that match its topic.
\<close>

locale subscription_store =
  fixes ok :: "'s \<Rightarrow> bool"
    and ident :: "'s \<Rightarrow> 'r \<Rightarrow> 'i"
    and subscribers :: "'s \<Rightarrow> token \<Rightarrow> 'i list"
    and add :: "'s \<Rightarrow> 'r \<Rightarrow> token \<Rightarrow> 's"
    and receivers :: "'s \<Rightarrow> token \<Rightarrow> 'i list"
  assumes ok_add: "ok s \<Longrightarrow> sub_filter_ok f \<Longrightarrow> ok (add s r f)"
    and ident_add: "ok s \<Longrightarrow> ident (add s r f) q = ident s q"
    and subscribers_add: "ok s \<Longrightarrow> set (subscribers (add s r f) g) =
      set (subscribers s g) \<union> (if g = f then {ident s r} else {})"
    and receivers_match: "ok s \<Longrightarrow> pub_topic_ok t \<Longrightarrow>
      set (receivers s t) = (\<Union>f \<in> {f. mqtt_matches f t}. set (subscribers s f))"
begin

definition run :: "'s \<Rightarrow> ('r \<times> token) list \<Rightarrow> 's" where
  "run s reqs = foldl (\<lambda>s (r, f). add s r f) s reqs"

lemma run_ok: "ok s \<Longrightarrow> \<forall>(r, f) \<in> set reqs. sub_filter_ok f \<Longrightarrow>
    ok (run s reqs) \<and> (\<forall>q. ident (run s reqs) q = ident s q) \<and>
    (\<forall>g. set (subscribers (run s reqs) g) = set (subscribers s g) \<union> {ident s r |r. (r, g) \<in> set reqs})"
proof (induction reqs rule: rev_induct)
  case (snoc x reqs)
  obtain r f where x: "x = (r, f)" by (cases x)
  have run: "run s (reqs @ [x]) = add (run s reqs) r f" by (simp add: run_def x)
  from snoc have "ok (run s reqs)" "sub_filter_ok f"
    and IH: "\<forall>q. ident (run s reqs) q = ident s q"
      "\<forall>g. set (subscribers (run s reqs) g) = set (subscribers s g) \<union> {ident s r |r. (r, g) \<in> set reqs}"
    by (auto simp: x)
  then show ?case unfolding run
    by (auto simp: x ok_add ident_add subscribers_add split: if_splits)
qed (simp add: run_def)

lemma receivers_run:
  assumes "ok s" "\<forall>(r, f) \<in> set reqs. sub_filter_ok f" "pub_topic_ok t"
  shows "i \<in> set (receivers (run s reqs) t) \<longleftrightarrow>
    i \<in> set (receivers s t) \<or> (\<exists>r f. (r, f) \<in> set reqs \<and> ident s r = i \<and> mqtt_matches f t)"
  using run_ok [OF assms(1,2)] assms by (auto simp: receivers_match)

end

definition store_ok :: "broker \<Rightarrow> bool" where
  "store_ok bro \<longleftrightarrow> tree_ok bro \<and> mem_alloc bro = [] \<and> \<not> root_lock bro"

definition add_subscription :: "broker \<Rightarrow> slot \<times> int \<Rightarrow> token \<Rightarrow> broker" where
  "add_subscription bro r f =
     (case mqtt3_sub_add bro (fst r) f (snd r) of Ok (_, bro') \<Rightarrow> bro' | _ \<Rightarrow> bro)"

definition receivers_of :: "broker \<Rightarrow> token \<Rightarrow> u8 list list" where
  "receivers_of bro t =
     map (\<lambda>l. client_ident bro (l_context l)) (concat (map snd (delivered_nodes bro t)))"

lemma add_subscription_law:
  assumes "store_ok bro"
  shows "\<exists>bro'. mqtt3_sub_add bro (fst r) f (snd r) = Ok (0, bro') \<and> add_subscription bro r f = bro' \<and>
    (sub_filter_ok f \<longrightarrow> store_ok bro') \<and>
    (\<forall>x. client_ident bro' x = client_ident bro x) \<and>
    (\<forall>g. subscribers_of bro' g = subscribers_of bro g @
      (if g = f \<and> client_ident bro (fst r) \<notin> set (subscribers_of bro g)
       then [client_ident bro (fst r)] else []))"
proof -
  from assms have ok: "mem_alloc bro = []" "\<not> root_lock bro" "tree_ok bro" by (simp_all add: store_ok_def)
  from mqtt3_sub_add_enough [OF ok(1,2), of "fst r" f "snd r"] obtain bro' where
    add: "mqtt3_sub_add bro (fst r) f (snd r) = Ok (0, bro')" "mem_alloc bro' = []" "\<not> root_lock bro'" by auto
  note law = mqtt3_sub_add_law [OF add(1)]
  then have cids: "cid (clients bro' x) = cid (clients bro x)" for x
    using only_subs_ident [of "fst r" "clients bro" "clients bro'" x] by simp
  then have id: "client_ident bro' x = client_ident bro x" for x by (simp add: client_ident_def)
  have "subscribers_of bro' g = subscribers_of bro g @
      (if g = f \<and> client_ident bro (fst r) \<notin> set (subscribers_of bro g)
       then [client_ident bro (fst r)] else [])" for g
    using law upsert_idents [of "clients bro" "fst r" "snd r" "sub_leaves bro f"]
    by (auto simp: subscribers_of_def cids sub_leaves_def client_ident_def Let_def)
  then show ?thesis using add id tree_ok_add [OF add(1) ok(3)]
    by (auto simp: store_ok_def add_subscription_def)
qed

interpretation store: subscription_store store_ok "\<lambda>bro r. client_ident bro (fst r)" subscribers_of
  add_subscription receivers_of
proof
  fix bro f and r :: "slot \<times> int" and q :: "slot \<times> int" and g t
  assume ok: "store_ok bro"
  note law = add_subscription_law [OF ok, of r f]
  show "client_ident (add_subscription bro r f) (fst q) = client_ident bro (fst q)"
    using law by auto
  show "set (subscribers_of (add_subscription bro r f) g) =
      set (subscribers_of bro g) \<union> (if g = f then {client_ident bro (fst r)} else {})"
    using law by (auto split: if_splits)
  show "store_ok (add_subscription bro r f)" if "sub_filter_ok f" using law that by auto
  assume "pub_topic_ok t"
  then have "tree_ok bro" "c_hash \<notin> set t" using ok by (simp_all add: store_ok_def pub_topic_ok_def)
  from delivered_filters [OF this] obtain fs where
    "set fs = {f. mqtt_matches f t \<and> sub_leaves bro f \<noteq> []}"
    "concat (map snd (delivered_nodes bro t)) = concat (map (sub_leaves bro) fs)" by blast
  then show "set (receivers_of bro t) = (\<Union>f \<in> {f. mqtt_matches f t}. set (subscribers_of bro f))"
    by (fastforce simp: receivers_of_def subscribers_of_def)
qed

section \<open>The properties\<close>

definition example_broker :: broker where
  "example_broker = \<lparr>clients = (\<lambda>s. client0\<lparr>cid := [of_nat s + 0x41, 0], is_subscribe := True\<rparr>),
     subs_children = [Subhier [] [] []], root_lock = False, mem_alloc = []\<rparr>"

lemma single_root_leaves: "hier_leaves (Subhier [] [] [Subhier [] [] []]) p = []"
  by (cases p) (simp_all add: child_Cons child_none del: hier_find.simps(2))

lemma example_store: "store_ok example_broker" "sub_leaves example_broker f = []"
  by (simp_all add: store_ok_def tree_ok_def root_def example_broker_def sub_leaves_def single_root_leaves
      del: hier_find.simps)

text \<open>\<open>_sub_topic_tokenise\<close> yields the levels of the topic, preceded by an empty token
  unless the topic starts with a dollar sign; whatever allocations fail, it yields either
  these tokens or its failure code, never a shortened or wrong list.\<close>

lemma tokenise_levels:
  "sub_topic_tokenise s [] = (Some (topic_tokens s), []) \<and>
   fst (sub_topic_tokenise s al) \<in> {None, Some (topic_tokens s)}"
proof (cases "sub_topic_tokenise s al")
  case (Pair r a)
  then show ?thesis using tokenise_any [of s al] by (cases r) (simp_all add: tokenise_ok)
qed



text \<open>Subscribing with a filter that satisfies the syntax of MQTT keeps the subscription
  tree well formed: siblings stay distinct, a multi-level wildcard node stays a leaf, and
  subscriptions stand only at the paths of filters.\<close>

lemma subscribe_keeps_tree:
  assumes "tree_ok bro" "sub_filter_ok sub" "mqtt3_sub_add bro ctx sub qos = Ok (rc, bro')"
  shows "tree_ok bro'"
  using tree_ok_add assms by blast

text \<open>On a well-formed tree, publishing to a topic without wildcards runs the callback over
  the subscriptions of exactly the filters that match the topic by the rules of MQTT 3.1.1,
  each filter's subscriptions once and in the order they were made.\<close>

lemma publish_reaches_matching:
  assumes "tree_ok db" "pub_topic_ok topic" "mem_alloc db = []"
  shows "\<exists>fs. distinct fs \<and> set fs = {f. mqtt_matches f topic \<and> sub_leaves db f \<noteq> []} \<and>
    mqtt3_sub_tree_process db ctx topic payload len cb =
      obind (subs_process cb topic payload len (concat (map (sub_leaves db) fs)) (clients db))
        (\<lambda>st. Ok (0, db\<lparr>clients := st\<rparr>))"
  using delivered_filters [of db topic] tree_process_nodes [OF assms(3)] assms(1,2)
  by (auto simp: pub_topic_ok_def)



text \<open>The store starts well formed: with enough memory \<open>init_database\<close> makes a broker whose
  tree is well formed and holds no subscription.\<close>

lemma init_database_store:
  "\<exists>b. init_database [] = Ok (0, Some b) \<and> store_ok b \<and> (\<forall>f. sub_leaves b f = []) \<and> clients b = (\<lambda>_. client0)"
  by (simp add: init_database_def broker0_def store_ok_def tree_ok_def root_def sub_leaves_def
      single_root_leaves del: hier_find.simps)




end
