(* ===== verification/Hand_Mqtt_Facts.thy ===== *)
theory Hand_Mqtt_Facts
  imports Hand_Mqtt Serialiser_Facts Substree_Facts
begin

text \<open>
  What the handlers of \<open>broker/hand_mqtt.c\<close> do: the packets they queue, byte for byte, their
  reaction to CONNECT, SUBSCRIBE and PUBLISH, and that they are safe on every packet the
  parser can leave.
\<close>

section \<open>Outgoing packets\<close>

lemma make_packet_ok:
  assumes "serialise m = Some (rc, bs)" "unat (m_length m) < 268435456" "length bs < 4294967296"
  shows "make_packet m = Ok (new_packet bs (of_nat (length bs)))"
  using length_serialise [OF assms(1)] assms
  by (simp add: make_packet_def mqtt_serialiser_write_def Let_def)

text \<open>The bytes the broker sends for a message: QoS 0, not retained.\<close>

definition publish_bytes :: "token \<Rightarrow> u8 list \<Rightarrow> u8 list" where
  "publish_bytes t c = 0x30 # varint (2 + length t + length c) @
     [of_nat (length t div 255), of_nat (length t)] @ t @ c"

definition sized_packet :: "u8 list \<Rightarrow> packet" where
  "sized_packet bs = new_packet bs (of_nat (length bs))"

lemma sized_packet [simp]: "pnext (sized_packet bs) = None" "send_buf (sized_packet bs) = bs"
  "wcur (sized_packet bs) = 0" "wlen (sized_packet bs) = of_nat (length bs)"
  by (simp_all add: sized_packet_def new_packet_def)

lemma length_publish_bytes:
  assumes "2 + length t + length c < 268435456"
  shows "length (publish_bytes t c) \<le> 7 + length t + length c"
  using length_varint [OF assms] by (simp add: publish_bytes_def)

lemma make_publish_packet:
  assumes "length t < 65536" "unat len \<le> length payload" "2 + length t + unat len < 268435456"
  shows "make_packet (publish_packet t payload len) =
    Ok (sized_packet (publish_bytes t (take (unat len) payload)))"
proof -
  let ?m = "publish_packet t payload len" and ?c = "take (unat len) payload"
  have l: "unat (m_length ?m) = 2 + length t + length ?c"
  proof -
    have "m_length ?m = of_nat (2 + length t + unat len)" by (simp add: publish_packet_def)
    moreover have "unat (of_nat (2 + length t + unat len) :: u32) = 2 + length t + unat len"
      by (rule unat_of_nat_u32_small) (use assms(3) in simp)
    ultimately show ?thesis using assms(2) by (simp only: length_take min_absorb2)
  qed
  have "command_byte ?m = 0x30"
    by (simp add: command_byte_def publish_packet_def message0_def)
  moreover have "buf_str (topic_name (m_publish ?m)) = Some t"
    using assms(1) by (simp add: publish_packet_def buf_str_def mem_read_def)
  moreover have "buf_str (content (m_publish ?m)) = Some ?c"
    using assms(2) by (auto simp: publish_packet_def buf_str_def mem_read_def)
  ultimately have "serialise ?m = Some (MQTT_SERIALISER_RC_SUCCESS, publish_bytes t ?c)"
    using serialise_publish [of ?m t ?c] assms(1) l
    by (simp add: publish_bytes_def publish_packet_def)
  then show ?thesis
    using make_packet_ok [of ?m _ "publish_bytes t ?c"] assms l length_publish_bytes [of t ?c]
    by (simp add: sized_packet_def)
qed

lemma enqueue_frame:
  assumes "enqueue pk c = Ok c'"
  shows "is_subscribe c' = is_subscribe c \<and> cstate c' = cstate c \<and> cid c' = cid c \<and> sock c' = sock c \<and>
    in_packet c' = in_packet c \<and> last_mid c' = last_mid c \<and> subs c' = subs c"
  using assms by (auto simp: enqueue_def Let_def deref_def split: option.splits)

lemma enqueue_cur: "enqueue pk c = Ok c' \<Longrightarrow> sending_cur_packet c' = sending_cur_packet c"
  by (auto simp: enqueue_def Let_def deref_def split: option.splits)

lemma publish_msg_cur: "publish_msg c t p len = Ok c' \<Longrightarrow> sending_cur_packet c' = sending_cur_packet c"
  by (auto simp: publish_msg_def obind_eq_Ok dest: enqueue_cur)

lemma publish_msg_ok:
  assumes "queued c pks" "length t < 65536" "unat len \<le> length payload"
    "2 + length t + unat len < 268435456"
  shows "\<exists>c'. publish_msg c t payload len = Ok c' \<and>
    queued c' (pks @ [sized_packet (publish_bytes t (take (unat len) payload))]) \<and>
    num_sending_pack c' = num_sending_pack c + 1 \<and> is_subscribe c' = is_subscribe c"
proof -
  from enqueue_queued [OF assms(1) sized_packet(1)] obtain c' where c':
    "enqueue (sized_packet (publish_bytes t (take (unat len) payload))) c = Ok c'"
    "queued c' (pks @ [sized_packet (publish_bytes t (take (unat len) payload))])"
    "num_sending_pack c' = num_sending_pack c + 1" by blast
  with enqueue_frame [OF c'(1)] make_publish_packet [OF assms(2-4)] show ?thesis
    by (simp add: publish_msg_def)
qed

text \<open>Every subscription of a list gets one packet, in the queue of its client.\<close>

definition leaf_count :: "subleaf list \<Rightarrow> slot \<Rightarrow> nat" where
  "leaf_count ls x = length (filter (\<lambda>l. l_context l = x) ls)"

lemma leaf_count_simps [simp]:
  "leaf_count [] x = 0"
  "leaf_count (l # ls) x = (if l_context l = x then 1 else 0) + leaf_count ls x"
  "leaf_count (ls @ ks) x = leaf_count ls x + leaf_count ks x"
  by (simp_all add: leaf_count_def)

definition got :: "packet \<Rightarrow> nat \<Rightarrow> client \<Rightarrow> packet list \<Rightarrow> client \<Rightarrow> bool" where
  "got pk n c q c' \<longleftrightarrow> (let k = (if is_subscribe c then n else 0)
     in is_subscribe c' = is_subscribe c \<and> queued c' (q @ replicate k pk) \<and>
        num_sending_pack c' = num_sending_pack c + int k \<and> sending_cur_packet c' = sending_cur_packet c)"

lemma got_0: "queued c q \<Longrightarrow> got pk 0 c q c"
  by (simp add: got_def)

lemma got_Suc: "got pk n c (q @ [pk]) c' \<Longrightarrow> is_subscribe c0 \<Longrightarrow> is_subscribe c \<Longrightarrow>
    num_sending_pack c = num_sending_pack c0 + 1 \<Longrightarrow> sending_cur_packet c = sending_cur_packet c0 \<Longrightarrow>
    got pk (Suc n) c0 q c'"
  by (auto simp: got_def Let_def)

lemma got_skip: "\<not> is_subscribe c \<Longrightarrow> got pk n c q c' = got pk m c q c'"
  by (simp add: got_def Let_def)

lemma subs_process_publish:
  assumes "\<forall>x. queued (st x) (qs x)" "length t < 65536" "unat len \<le> length payload"
    "2 + length t + unat len < 268435456"
  defines "pk \<equiv> sized_packet (publish_bytes t (take (unat len) payload))"
  shows "\<exists>st'. subs_process publish_msg t payload len ls st = Ok st' \<and>
    (\<forall>x. got pk (leaf_count ls x) (st x) (qs x) (st' x))"
  using assms(1)
proof (induction ls arbitrary: st qs)
  case Nil
  then show ?case by (simp add: got_0)
next
  case (Cons l ls)
  let ?x = "l_context l"
  show ?case
  proof (cases "is_subscribe (st ?x)")
    case False
    from Cons.IH [OF Cons.prems] obtain st' where
      st': "subs_process publish_msg t payload len ls st = Ok st'"
      "\<forall>x. got pk (leaf_count ls x) (st x) (qs x) (st' x)" by blast
    have "got pk (leaf_count (l # ls) x) (st x) (qs x) (st' x)" for x
      using st'(2) False got_skip [of "st ?x" pk "leaf_count ls ?x"] by (cases "x = ?x") auto
    with st'(1) False show ?thesis by auto
  next
    case True
    obtain c where c: "publish_msg (st ?x) t payload len = Ok c" "queued c (qs ?x @ [pk])"
      "num_sending_pack c = num_sending_pack (st ?x) + 1" "is_subscribe c = is_subscribe (st ?x)"
      using publish_msg_ok [OF Cons.prems [rule_format, of ?x] assms(2-4)] by (auto simp: pk_def)
    have "\<forall>x. queued ((st(?x := c)) x) ((qs(?x := qs ?x @ [pk])) x)" using Cons.prems c by simp
    from Cons.IH [OF this] obtain st' where st':
      "subs_process publish_msg t payload len ls (st(?x := c)) = Ok st'"
      "\<forall>x. got pk (leaf_count ls x) ((st(?x := c)) x) ((qs(?x := qs ?x @ [pk])) x) (st' x)" by blast
    have "got pk (leaf_count (l # ls) x) (st x) (qs x) (st' x)" for x
      using st'(2) [rule_format, of x] c publish_msg_cur [OF c(1)] True by (cases "x = ?x") (auto intro: got_Suc)
    with st'(1) c(1) True show ?thesis by auto
  qed
qed


text \<open>The fields of a client that belong to the packet being read.\<close>

definition reader :: "client \<Rightarrow> _" where
  "reader c = (in_packet c, in_parser c, remaining_count c, remaining_mult c, in_payload c,
     in_to_process c, in_cur c)"

lemma reader_update [simp]:
  "reader (c\<lparr>last_mid := mid\<rparr>) = reader c"
  "reader (c\<lparr>packets := h\<rparr>) = reader c" "reader (c\<lparr>next_addr := a\<rparr>) = reader c"
  "reader (c\<lparr>sending_packet := p\<rparr>) = reader c" "reader (c\<lparr>sending_packet_tail := p\<rparr>) = reader c"
  "reader (c\<lparr>num_sending_pack := n\<rparr>) = reader c"
  by (simp_all add: reader_def)

lemma enqueue_reader: "enqueue pk c = Ok c' \<Longrightarrow> reader c' = reader c"
  by (auto simp: enqueue_def Let_def deref_def split: option.splits)

lemma subs_process_reader:
  "subs_process publish_msg t payload len ls st = Ok st' \<Longrightarrow> reader (st' x) = reader (st x)"
proof (induction ls arbitrary: st)
  case (Cons l ls)
  show ?case
  proof (cases "is_subscribe (st (l_context l))")
    case True
    with Cons.prems obtain c where c: "publish_msg (st (l_context l)) t payload len = Ok c"
      "subs_process publish_msg t payload len ls (st(l_context l := c)) = Ok st'"
      by (auto simp: obind_eq_Ok)
    from c(1) have "reader c = reader (st (l_context l))"
      by (auto simp: publish_msg_def obind_eq_Ok dest: enqueue_reader)
    with Cons.IH [OF c(2)] show ?thesis by (auto split: if_splits)
  qed (use Cons in simp)
qed simp


section \<open>Acknowledgements\<close>

definition connack_bytes :: "u8 \<Rightarrow> u8 list" where
  "connack_bytes rc = [0x20, 2, 0, rc]"

definition suback_bytes :: "u16 \<Rightarrow> u8 \<Rightarrow> u8 list" where
  "suback_bytes mid rc = [0x90, 3, hi16 mid, lo16 mid, rc]"

definition pingresp_bytes :: "u8 list" where
  "pingresp_bytes = [0xD0, 0]"

lemma write_length_small: "unat l < 128 \<Longrightarrow> write_length l = [of_nat (unat l)]"
  by (simp add: write_length_varint varint.simps)

lemma ack_packets:
  "ack_msg c MQTT_TYPE_CONNACK 2 rc = enqueue (sized_packet (connack_bytes rc)) c"
  "ack_msg c MQTT_TYPE_SUBACK 3 rc = enqueue (sized_packet (suback_bytes (last_mid c) rc)) c"
  "ack_msg c MQTT_TYPE_PINGRESP 0 rc = enqueue (sized_packet pingresp_bytes) c"
proof -
  let ?m1 = "message0\<lparr>m_type := 2, m_length := 2, m_connack := \<lparr>ca_unused = 0, ca_return_code = rc\<rparr>\<rparr>"
  let ?m2 = "message0\<lparr>m_type := 9, m_length := 3,
    m_suback := \<lparr>sa_message_id = last_mid c, sa_return_code = rc\<rparr>\<rparr>"
  let ?m3 = "message0\<lparr>m_type := 13, m_length := 0\<rparr>"
  have "serialise ?m1 = Some (MQTT_SERIALISER_RC_SUCCESS, connack_bytes rc)"
    "serialise ?m2 = Some (MQTT_SERIALISER_RC_SUCCESS, suback_bytes (last_mid c) rc)"
    "serialise ?m3 = Some (MQTT_SERIALISER_RC_ERROR, pingresp_bytes)"
    by (simp_all add: serialise_def command_byte_def write_length_small message0_def Let_def
        connack_bytes_def suback_bytes_def pingresp_bytes_def)
  then have "make_packet ?m1 = Ok (sized_packet (connack_bytes rc))"
    "make_packet ?m2 = Ok (sized_packet (suback_bytes (last_mid c) rc))"
    "make_packet ?m3 = Ok (sized_packet pingresp_bytes)"
    using make_packet_ok [of ?m1] make_packet_ok [of ?m2] make_packet_ok [of ?m3]
    by (simp_all add: sized_packet_def connack_bytes_def suback_bytes_def pingresp_bytes_def)
  then show "ack_msg c MQTT_TYPE_CONNACK 2 rc = enqueue (sized_packet (connack_bytes rc)) c"
    "ack_msg c MQTT_TYPE_SUBACK 3 rc = enqueue (sized_packet (suback_bytes (last_mid c) rc)) c"
    "ack_msg c MQTT_TYPE_PINGRESP 0 rc = enqueue (sized_packet pingresp_bytes) c"
    by (simp_all add: ack_msg_def ack_packet_def)
qed

lemma copy_terminated_ok:
  assumes "buf_str b = Some s" "length s < 4294967295"
  shows "copy_terminated b = Ok (s @ [0])"
proof -
  have l: "unat (blen b) = length s" using assms(1) by (auto simp: buf_str_def dest: mem_read_length)
  have "blen b + 1 \<noteq> 0"
  proof
    assume "blen b + 1 = 0"
    then have "blen b = -1" by (simp add: eq_neg_iff_add_eq_0)
    moreover have "unat (-1 :: u32) = 4294967295"
      by (simp add: unsigned_minus_1_eq_mask mask_eq_exp_minus_1)
    ultimately show False using l assms(2) by simp
  qed
  then show ?thesis using assms(1) by (simp add: copy_terminated_def buf_str_def)
qed

lemma clients_set_client [simp]: "clients (set_client s c bro) = (clients bro)(s := c)"
  "subs_children (set_client s c bro) = subs_children bro" "mem_alloc (set_client s c bro) = mem_alloc bro"
  "root_lock (set_client s c bro) = root_lock bro"
  by (simp_all add: set_client_def)

lemma sub_leaves_set_client [simp]: "sub_leaves (set_client s c bro) f = sub_leaves bro f"
  "tree_ok (set_client s c bro) = tree_ok bro" "root (set_client s c bro) = root bro"
  by (simp_all add: sub_leaves_def tree_ok_def root_def)


section \<open>The handlers\<close>

lemma example_queued: "queued (clients example_broker x) []" "sender_ok (clients example_broker x)"
proof -
  show q: "queued (clients example_broker x) []"
    by (simp add: queued_def queue_at_def packets_at_def client0_def example_broker_def)
  show "sender_ok (clients example_broker x)"
    unfolding sender_ok_def using q
    by (intro exI [of _ "[]"]) (simp add: cur_packet_def example_broker_def client0_def)
qed


lemma enqueue_sized:
  assumes "queued c pks"
  shows "\<exists>c'. enqueue (sized_packet bs) c = Ok c' \<and> queued c' (pks @ [sized_packet bs]) \<and>
    num_sending_pack c' = num_sending_pack c + 1 \<and> is_subscribe c' = is_subscribe c \<and>
    cstate c' = cstate c \<and> cid c' = cid c"
proof -
  from enqueue_queued [OF assms sized_packet(1)] obtain c' where
    "enqueue (sized_packet bs) c = Ok c'" "queued c' (pks @ [sized_packet bs])"
    "num_sending_pack c' = num_sending_pack c + 1" by blast
  with enqueue_frame show ?thesis by blast
qed

lemma queued_update [simp]:
  "queued (c\<lparr>itself := i, cid := ident, num_sending_pack := n, cstate := st\<rparr>) pks = queued c pks"
  "queued (c\<lparr>last_mid := mid\<rparr>) pks = queued c pks"
  "queued (c\<lparr>subs := ss\<rparr>) pks = queued c pks"
  "queued (c\<lparr>is_subscribe := b\<rparr>) pks = queued c pks"
  "queued (c\<lparr>in_packet := ip\<rparr>) pks = queued c pks"
  by (simp_all add: queued_def queue_at_def packets_at_def cong: option.case_cong)

lemma handle_connect_run:
  assumes "queued (clients bro s) pks" "sock (clients bro s) = int s"
    and "buf_str (client_id (m_connect m)) = Some ident"
  defines "rc \<equiv> (if 23 < length ident then 2 else 0)"
  defines "connected \<equiv> 0 < length ident \<and> length ident \<le> 23"
  shows "\<exists>c'. handle_connect 0 s m bro = Ok (rc, set_client s c' bro) \<and>
    queued c' (pks @ [sized_packet (connack_bytes rc)]) \<and>
    (connected \<longrightarrow> cstate c' = cs_connected \<and> cid c' = ident @ replicate (24 - length ident) 0 \<and>
       num_sending_pack c' = 1) \<and>
    (\<not> connected \<longrightarrow> cstate c' = cstate (clients bro s) \<and> cid c' = cid (clients bro s) \<and>
       num_sending_pack c' = num_sending_pack (clients bro s) + 1)"
proof -
  let ?b = "client_id (m_connect m)" and ?c = "clients bro s"
  have l: "unat (blen ?b) = length ident" using assms(3) by (auto simp: buf_str_def dest: mem_read_length)
  then have cmp: "23 < blen ?b \<longleftrightarrow> 23 < length ident" "0 < blen ?b \<longleftrightarrow> 0 < length ident"
    by (simp_all add: word_less_nat_alt)
  show ?thesis
  proof (cases connected)
    case True
    let ?c1 = "?c\<lparr>itself := Some s, cid := ident @ replicate (24 - length ident) 0,
      num_sending_pack := 0, cstate := cs_connected\<rparr>"
    have "add_client ?b s bro = Ok (set_client s ?c1 bro)"
      using True assms(3) by (simp add: add_client_def buf_str_def set_client_def connected_def)
    moreover obtain c' where "enqueue (sized_packet (connack_bytes 0)) ?c1 = Ok c'"
      "queued c' (pks @ [sized_packet (connack_bytes 0)])"
      "num_sending_pack c' = 1" "cstate c' = cs_connected"
      "cid c' = ident @ replicate (24 - length ident) 0"
      using enqueue_sized [of ?c1 pks "connack_bytes 0"] assms(1) by auto
    ultimately show ?thesis using True cmp assms(2)
      by (auto simp: handle_connect_def ack_packets rc_def connected_def set_client_def)
  next
    case False
    obtain c' where "enqueue (sized_packet (connack_bytes rc)) ?c = Ok c'"
      "queued c' (pks @ [sized_packet (connack_bytes rc)])"
      "num_sending_pack c' = num_sending_pack ?c + 1" "cstate c' = cstate ?c" "cid c' = cid ?c"
      using enqueue_sized [OF assms(1), of "connack_bytes rc"] by auto
    with False cmp show ?thesis
      by (auto simp: handle_connect_def ack_packets rc_def connected_def split: if_splits)
  qed
qed

text \<open>C9: A CONNECT with a client identifier of 1 to 23 bytes is accepted: the identifier is
  stored, the client becomes connected and CONNACK with code 0 is queued.  A longer
  identifier is refused with code 2, a CONNACK with code 2 being queued, and an empty one is
  acknowledged with code 0 without the client becoming connected.\<close>

theorem connect_handled:
  assumes "queued (clients bro s) pks" "sock (clients bro s) = int s"
    and "buf_str (client_id (m_connect m)) = Some ident"
  defines "rc \<equiv> (if 23 < length ident then 2 else 0)"
  defines "connected \<equiv> 0 < length ident \<and> length ident \<le> 23"
  shows "\<exists>c'. handle_connect 0 s m bro = Ok (rc, set_client s c' bro) \<and>
    queued c' (pks @ [sized_packet (connack_bytes rc)]) \<and>
    (connected \<longrightarrow> cstate c' = cs_connected \<and> cid c' = ident @ replicate (24 - length ident) 0 \<and>
       num_sending_pack c' = 1) \<and>
    (\<not> connected \<longrightarrow> cstate c' = cstate (clients bro s) \<and> cid c' = cid (clients bro s) \<and>
       num_sending_pack c' = num_sending_pack (clients bro s) + 1)"
  using handle_connect_run [OF assms(1-3)] unfolding assms(4,5) .

theorem connect_handled_witness:
  "\<exists>c'. handle_connect 0 0 (message0\<lparr>m_connect := connect0\<lparr>client_id := \<lparr>blen = 1, bdata = Some [0x61]\<rparr>\<rparr>\<rparr>)
      example_broker = Ok (0, set_client 0 c' example_broker) \<and> cstate c' = cs_connected"
proof -
  let ?m = "message0\<lparr>m_connect := connect0\<lparr>client_id := \<lparr>blen = 1, bdata = Some [0x61]\<rparr>\<rparr>\<rparr>"
  have "buf_str (client_id (m_connect ?m)) = Some [0x61]" by (simp add: buf_str_def mem_read_def)
  moreover have "sock (clients example_broker 0) = int 0" by (simp add: example_broker_def client0_def)
  ultimately show ?thesis
    using connect_handled [of example_broker 0 "[]" ?m "[0x61]"] example_queued(1) by auto
qed




lemma publish_handled_run:
  assumes "tree_ok bro" "mem_alloc bro = []" "\<forall>x. queued (clients bro x) (qs x)"
    and m: "m_qos m = 0" "bdata (topic_name (m_publish m)) = Some bs" "pub_topic_valid (Some bs) \<noteq> None"
      "buf_str (topic_name (m_publish m)) = Some t" "0 \<notin> set t" "pub_topic_ok t"
      "buf_str (content (m_publish m)) = Some c" "2 + length t + length c < 268435456"
  shows "\<exists>fs bro'. distinct fs \<and> set fs = {f. mqtt_matches f t \<and> sub_leaves bro f \<noteq> []} \<and>
    handle_publish s m bro = Ok (0, bro') \<and>
    (\<forall>x. got (sized_packet (publish_bytes t c)) (\<Sum>f\<leftarrow>fs. leaf_count (sub_leaves bro f) x)
       (clients bro x) (qs x) (clients bro' x) \<and>
       reader (clients bro' x) = reader (clients bro x))"
proof -
  obtain v where v: "pub_topic_valid (Some bs) = Some v" using m(3) by auto
  let ?p = "m_publish m"
  let ?b = "set_client s ((clients bro s)\<lparr>last_mid := pub_message_id ?p\<rparr>) bro"
  let ?len = "blen (content ?p)"
  have len: "unat ?len = length c" using m(7) by (auto simp: buf_str_def dest: mem_read_length)
  have t: "length t < 65536" using m(6) by (simp add: pub_topic_ok_def)
  have copies: "copy_terminated (content ?p) = Ok (c @ [0])" "copy_terminated (topic_name ?p) = Ok (t @ [0])"
    using copy_terminated_ok m(4,7,8) t by simp_all
  have "sub_leaves ?b = sub_leaves bro" by (rule ext) simp
  then obtain fs where fs: "distinct fs" "set fs = {f. mqtt_matches f t \<and> sub_leaves bro f \<noteq> []}"
    "concat (map snd (delivered_nodes ?b t)) = concat (map (sub_leaves bro) fs)"
    using delivered_filters [of ?b t] assms(1) m(6) by (auto simp: pub_topic_ok_def)
  let ?ls = "concat (map (sub_leaves bro) fs)"
  let ?pk = "sized_packet (publish_bytes t c)"
  have q: "\<forall>x. queued (clients ?b x) (qs x)" using assms(3) by simp
  have sizes: "unat ?len \<le> length (c @ [0])" "2 + length t + unat ?len < 268435456"
    and tk: "take (unat ?len) (c @ [0]) = c" using len m(8) by simp_all
  from subs_process_publish [OF q t sizes, of ?ls, unfolded tk] obtain st' where
    st': "subs_process publish_msg t (c @ [0]) ?len ?ls (clients ?b) = Ok st'"
    "\<forall>x. got ?pk (leaf_count ?ls x) (clients ?b x) (qs x) (st' x)" by blast
  have "handle_publish s m bro = Ok (0, ?b\<lparr>clients := st'\<rparr>)"
    using m(1,2,5) v copies tree_process_nodes [of ?b s t "c @ [0]" ?len publish_msg] assms(2) fs(3) st'(1)
    by (simp add: handle_publish_def)
  moreover have "leaf_count ?ls x = (\<Sum>f\<leftarrow>fs. leaf_count (sub_leaves bro f) x)" for x
    by (induction fs) simp_all
  then have "got ?pk (\<Sum>f\<leftarrow>fs. leaf_count (sub_leaves bro f) x) (clients bro x) (qs x) (st' x)" for x
    using st'(2) [rule_format, of x] by (cases "x = s") (simp_all add: got_def)
  moreover have "reader (st' x) = reader (clients bro x)" for x
    using subs_process_reader [OF st'(1), of x] by (cases "x = s") simp_all
  ultimately show ?thesis using fs(1,2) by auto
qed

text \<open>A QoS 0 PUBLISH whose topic has no wildcard puts, for every subscription of a filter
  that matches the topic, one packet with this topic and content at the end of the queue of
  the subscription's client, if that client is a subscriber at all; the queues of all other
  clients stay as they are.  The handler returns 0.  (The topic check must stay inside the
  packet: it is given a pointer into the packet, where no zero byte ends the topic.)\<close>

lemma publish_handled:
  assumes "tree_ok bro" "mem_alloc bro = []" "\<forall>x. queued (clients bro x) (qs x)"
    and m: "m_qos m = 0" "bdata (topic_name (m_publish m)) = Some bs" "pub_topic_valid (Some bs) \<noteq> None"
      "buf_str (topic_name (m_publish m)) = Some t" "0 \<notin> set t" "pub_topic_ok t"
      "buf_str (content (m_publish m)) = Some c" "2 + length t + length c < 268435456"
  shows "\<exists>fs bro'. distinct fs \<and> set fs = {f. mqtt_matches f t \<and> sub_leaves bro f \<noteq> []} \<and>
    handle_publish s m bro = Ok (0, bro') \<and>
    (\<forall>x. got (sized_packet (publish_bytes t c)) (\<Sum>f\<leftarrow>fs. leaf_count (sub_leaves bro f) x)
       (clients bro x) (qs x) (clients bro' x))"
  using publish_handled_run [OF assms, of s] by blast

section \<open>Safety of the handlers\<close>

definition clients_ok :: "broker \<Rightarrow> bool" where
  "clients_ok bro \<longleftrightarrow> (\<forall>x. sender_ok (clients bro x))"

lemma sender_ok_update [simp]:
  "sender_ok (c\<lparr>last_mid := mid\<rparr>) = sender_ok c"
  "sender_ok (c\<lparr>subs := ss\<rparr>) = sender_ok c"
  "sender_ok (c\<lparr>is_subscribe := b\<rparr>) = sender_ok c"
  "sender_ok (c\<lparr>in_packet := ip\<rparr>) = sender_ok c"
  by (simp_all add: sender_ok_def cur_packet_def cong: option.case_cong)

lemma sender_ok_added:
  "sender_ok c \<Longrightarrow> sender_ok (c\<lparr>itself := i, cid := ident, num_sending_pack := 0, cstate := st\<rparr>)"
  by (auto simp: sender_ok_def cur_packet_def cong: option.case_cong)

lemma sized_packet_size: "unat (wlen (sized_packet bs)) \<le> length (send_buf (sized_packet bs))"
  by (simp add: unat_of_nat_u32)

lemma enqueue_sized_ok: "sender_ok c \<Longrightarrow> \<exists>c'. enqueue (sized_packet bs) c = Ok c' \<and> sender_ok c'"
  by (rule enqueue_sender_ok) (simp_all add: unat_of_nat_u32)

lemma clients_ok_set: "clients_ok bro \<Longrightarrow> sender_ok c \<Longrightarrow> clients_ok (set_client s c bro)"
  by (simp add: clients_ok_def)

lemma subs_process_ok:
  assumes "\<forall>x. sender_ok (st x)" "length t < 65536" "unat len \<le> length payload"
    "2 + length t + unat len < 268435456"
  shows "\<exists>st'. subs_process publish_msg t payload len ls st = Ok st' \<and> (\<forall>x. sender_ok (st' x))"
  using assms(1)
proof (induction ls arbitrary: st)
  case (Cons l ls)
  let ?x = "l_context l"
  obtain c where "publish_msg (st ?x) t payload len = Ok c" "sender_ok c"
    using enqueue_sized_ok [of "st ?x"] Cons.prems make_publish_packet [OF assms(2-4)]
    by (auto simp: publish_msg_def)
  moreover have "\<forall>x. sender_ok ((st(?x := c)) x)" using \<open>sender_ok c\<close> Cons.prems by simp
  from Cons.IH [OF this] obtain st' where
    "subs_process publish_msg t payload len ls (st(?x := c)) = Ok st'" "\<forall>x. sender_ok (st' x)" by blast
  ultimately show ?case using Cons.IH [OF Cons.prems] by (cases "is_subscribe (st ?x)") auto
qed simp

lemma tree_process_ok:
  assumes "clients_ok db" "length t < 65536" "unat len \<le> length payload"
    "2 + length t + unat len < 268435456"
  shows "\<exists>rc db'. mqtt3_sub_tree_process db ctx t payload len publish_msg = Ok (rc, db') \<and> clients_ok db' \<and>
    root_lock db' = root_lock db"
proof (cases "sub_topic_tokenise t (mem_alloc db)")
  case (Pair r al)
  show ?thesis
  proof (cases r)
    case None
    with Pair assms(1) show ?thesis by (simp add: mqtt3_sub_tree_process_def clients_ok_def)
  next
    case (Some toks)
    with Pair have "toks = topic_tokens t" using tokenise_any [of t "mem_alloc db" toks al] by simp
    then have "toks \<noteq> []" by simp
    moreover obtain st' where
      "process_tops publish_msg t payload len toks (subs_children db) (clients db) = Ok st'"
      "\<forall>x. sender_ok (st' x)"
      using subs_process_ok [OF _ assms(2-4)] assms(1) unfolding process_tops_nodes clients_ok_def by blast
    ultimately show ?thesis using Some Pair
      by (simp add: mqtt3_sub_tree_process_def clients_ok_def)
  qed
qed

lemma sub_add_returns:
  assumes "\<not> root_lock bro"
  shows "\<exists>rc bro'. mqtt3_sub_add bro ctx sub qos = Ok (rc, bro')"
proof (cases "sub_topic_tokenise sub (mem_alloc bro)")
  case (Pair r al)
  with assms tokenise_any [of sub "mem_alloc bro"] topic_tokens_ne [of sub, THEN not_sym] show ?thesis
    by (auto simp: mqtt3_sub_add_def Let_def split: option.split list.split prod.split)
qed


text \<open>The topic checks are given pointers into the packet and must stay inside it.\<close>

definition checks_inside :: "mqtt_message \<Rightarrow> bool" where
  "checks_inside m \<longleftrightarrow>
     (m_type m = MQTT_TYPE_PUBLISH \<and> m_qos m = 0 \<longrightarrow>
        pub_topic_valid (bdata (topic_name (m_publish m))) \<noteq> None) \<and>
     (m_type m = MQTT_TYPE_SUBSCRIBE \<longrightarrow>
        (case topics (m_subscribe m) of None \<Rightarrow> True | Some tp \<Rightarrow> sub_topic_valid (bdata (tp_name tp)) \<noteq> None))"

lemma ack_ok:
  assumes "sender_ok c"
  shows "\<exists>c'. ack_msg c MQTT_TYPE_CONNACK 2 rc = Ok c' \<and> sender_ok c'"
    "\<exists>c'. ack_msg c MQTT_TYPE_SUBACK 3 rc = Ok c' \<and> sender_ok c'"
    "\<exists>c'. ack_msg c MQTT_TYPE_PINGRESP 0 rc = Ok c' \<and> sender_ok c'"
  unfolding ack_packets by (rule enqueue_sized_ok [OF assms])+

lemma buf_strE:
  assumes "buf_str b \<noteq> None"
  obtains s where "buf_str b = Some s" "length s = unat (blen b)"
  using assms by (auto simp: buf_str_def dest: mem_read_length)

lemma handle_publish_ok:
  assumes "clients_ok bro" "publish_bufs_ok (m_publish m)" "publish_sizes_ok len m" "len < 268435456"
    and "m_qos m = 0 \<longrightarrow> pub_topic_valid (bdata (topic_name (m_publish m))) \<noteq> None"
  shows "\<exists>bro'. handle_publish s m bro = Ok (0, bro') \<and> clients_ok bro'"
proof (cases "m_qos m = 0 \<and> bdata (topic_name (m_publish m)) \<noteq> None")
  case False
  with assms(1) show ?thesis by (auto simp: handle_publish_def)
next
  case True
  let ?p = "m_publish m"
  obtain t where t: "buf_str (topic_name ?p) = Some t" "length t = unat (blen (topic_name ?p))"
    using assms(2) buf_strE by (auto simp: publish_bufs_ok_def simp del: not_None_eq)
  obtain c where c: "buf_str (content ?p) = Some c" "length c = unat (blen (content ?p))"
    using assms(2) buf_strE by (auto simp: publish_bufs_ok_def simp del: not_None_eq)
  have sizes: "length t < 65536" "2 + length t + length c < 268435456"
    using assms(3,4) t c by (simp_all add: publish_sizes_ok_def)
  let ?b = "set_client s ((clients bro s)\<lparr>last_mid := pub_message_id ?p\<rparr>) bro"
  have "clients_ok ?b" using assms(1) by (simp add: clients_ok_def)
  moreover have "length (cstr (t @ [0])) \<le> length t"
    using length_cstr [of t] by simp
  ultimately obtain rc db where "mqtt3_sub_tree_process ?b s (cstr (t @ [0])) (c @ [0])
      (blen (content ?p)) publish_msg = Ok (rc, db)" "clients_ok db"
    using tree_process_ok [of ?b "cstr (t @ [0])" "blen (content ?p)" "c @ [0]" s] sizes c(2) by auto
  with True assms(5) copy_terminated_ok [OF t(1)] copy_terminated_ok [OF c(1)] sizes show ?thesis
    by (auto simp: handle_publish_def)
qed

lemma handle_connect_ok:
  assumes "clients_ok bro" "connect_bufs_ok (m_connect m)"
  shows "\<exists>rc bro'. handle_connect base s m bro = Ok (rc, bro') \<and> clients_ok bro'"
proof -
  let ?i = "client_id (m_connect m)" and ?x = "nat (int base + sock (clients bro s))"
  obtain i where i: "buf_str ?i = Some i" "length i = unat (blen ?i)"
    using assms(2) buf_strE by (auto simp: connect_bufs_ok_def simp del: not_None_eq)
  have add: "\<exists>b. add_client ?i ?x bro = Ok b \<and> clients_ok b" if "\<not> 23 < blen ?i"
  proof -
    have "length i \<le> 23" using that i by (simp add: word_less_nat_alt)
    then show ?thesis using i assms(1)
      by (simp add: add_client_def buf_str_def clients_ok_def sender_ok_added)
  qed
  have fin: "\<exists>rc b'. obind (ack_msg (clients b s) MQTT_TYPE_CONNACK 2 r)
      (\<lambda>c. Ok (r, set_client s c b)) = Ok (rc, b') \<and> clients_ok b'" if "clients_ok b" for b and r :: u8
    using ack_ok(1) [of "clients b s" r] that clients_ok_set [OF that] by (auto simp: clients_ok_def)
  show ?thesis
    using add fin [of _ 0] fin [OF assms(1), of 2] fin [OF assms(1), of 0]
    by (cases "23 < blen ?i"; cases "0 < blen ?i") (auto simp: handle_connect_def Let_def)
qed

lemma handle_subscribe_ok:
  assumes "clients_ok bro" "subscribe_bufs_ok (m_subscribe m)" "\<not> root_lock bro"
    and "case topics (m_subscribe m) of None \<Rightarrow> True
      | Some tp \<Rightarrow> sub_topic_valid (bdata (tp_name tp)) \<noteq> None \<and> unat (blen (tp_name tp)) < 65536"
  shows "\<exists>rc bro'. handle_subscribe s m bro = Ok (rc, bro') \<and> clients_ok bro'"
proof -
  have fin: "\<exists>rc b'. obind (ack_msg (clients b s) MQTT_TYPE_SUBACK 3 r)
      (\<lambda>c. Ok (r, set_client s c b)) = Ok (rc, b') \<and> clients_ok b'" if "clients_ok b" for b and r :: u8
    using ack_ok(2) [of "clients b s" r] that clients_ok_set [OF that] by (auto simp: clients_ok_def)
  show ?thesis
  proof (cases "topics (m_subscribe m)")
    case None
    with fin [OF assms(1)] show ?thesis by (simp add: handle_subscribe_def)
  next
    case (Some tp)
    have "buf_str (tp_name tp) \<noteq> None" using assms(2) Some by (simp add: subscribe_bufs_ok_def)
    then obtain f where "buf_str (tp_name tp) = Some f" "length f = unat (blen (tp_name tp))" by (rule buf_strE)
    then have f: "buf_str (tp_name tp) = Some f" "length f < 65536" using assms(4) Some by simp_all
    let ?b = "set_client s ((clients bro s)\<lparr>last_mid := sub_message_id (m_subscribe m)\<rparr>) bro"
    obtain rc b where add: "mqtt3_sub_add ?b s (cstr (f @ [0])) (int (unat (tp_qos tp))) = Ok (rc, b)"
      using sub_add_returns [of ?b] assms(3) by fastforce
    then have "only_subs s (clients ?b) (clients b)" using mqtt3_sub_add_law by blast
    then have "clients_ok b" "clients_ok (set_client s ((clients b s)\<lparr>is_subscribe := True\<rparr>) b)"
      using assms(1) by (auto simp: only_subs_def clients_ok_def)
    note ok = this
    obtain v where v: "sub_topic_valid (bdata (tp_name tp)) = Some v" using assms(4) Some by auto
    have copy: "copy_terminated (tp_name tp) = Ok (f @ [0])" using copy_terminated_ok f by simp
    show ?thesis
      using fin [OF ok(1), of "of_int rc"] fin [OF ok(2), of "of_int rc"] fin [OF assms(1), of 0]
        fin [OF assms(1), of "0x80"]
      by (cases "(of_int rc :: u8) = 0")
        (simp_all add: handle_subscribe_def Some v copy add [simplified] Let_def)
  qed
qed


text \<open>For a packet as the parser leaves it, the handler comes to an end and never follows a
  null or dangling pointer nor reads or writes outside an object, whatever allocations of the
  subscription store fail, provided that the topic checks stay inside the packet and no
  earlier request left the root lock held; the queues of all clients stay consistent and the
  packet is freed.\<close>

lemma handler_is_safe:
  assumes "clients_ok bro" "\<not> root_lock bro" "in_packet (clients bro s) = Some m"
    and "msg_bufs_ok m" "checks_inside m"
    and "m_type m = MQTT_TYPE_PUBLISH \<longrightarrow> publish_sizes_ok len m" "len < 268435456"
    and "m_type m = MQTT_TYPE_SUBSCRIBE \<longrightarrow>
      (case topics (m_subscribe m) of None \<Rightarrow> True | Some tp \<Rightarrow> unat (blen (tp_name tp)) < 65536)"
  shows "\<exists>rc bro'. handle_mqtt_command base s bro = Ok (rc, bro') \<and> clients_ok bro' \<and>
    in_packet (clients bro' s) = None"
proof -
  let ?r = "if m_type m = MQTT_TYPE_PUBLISH then handle_publish s m bro
     else if m_type m = MQTT_TYPE_CONNECT then handle_connect base s m bro
     else if m_type m = MQTT_TYPE_SUBSCRIBE then handle_subscribe s m bro
     else if m_type m = MQTT_TYPE_PINGREQ then
       obind (ack_msg (clients bro s) MQTT_TYPE_PINGRESP 0 0) (\<lambda>c. Ok (0, set_client s c bro))
     else if m_type m = MQTT_TYPE_UNSUBSCRIBE then Ok (0, bro)
     else if m_type m = MQTT_TYPE_DISCONNECT then Ok (1, bro) else Ok (0, bro)"
  have "\<exists>rc b. ?r = Ok (rc, b) \<and> clients_ok b"
  proof -
    consider "m_type m = MQTT_TYPE_PUBLISH" | "m_type m = MQTT_TYPE_CONNECT"
      | "m_type m = MQTT_TYPE_SUBSCRIBE" | "m_type m = MQTT_TYPE_PINGREQ"
      | "m_type m \<notin> {MQTT_TYPE_PUBLISH, MQTT_TYPE_CONNECT, MQTT_TYPE_SUBSCRIBE, MQTT_TYPE_PINGREQ}" by blast
    then show ?thesis
    proof cases
      case 1
      with handle_publish_ok [of bro m len s] assms show ?thesis
        by (auto simp: msg_bufs_ok_def checks_inside_def)
    next
      case 2
      with handle_connect_ok [of bro m base s] assms show ?thesis by (simp add: msg_bufs_ok_def)
    next
      case 3
      then have "case topics (m_subscribe m) of None \<Rightarrow> True
        | Some tp \<Rightarrow> sub_topic_valid (bdata (tp_name tp)) \<noteq> None \<and> unat (blen (tp_name tp)) < 65536"
        using assms(5,8) by (cases "topics (m_subscribe m)") (simp_all add: checks_inside_def)
      with 3 handle_subscribe_ok [of bro m s] assms show ?thesis by (simp add: msg_bufs_ok_def)
    next
      case 4
      obtain c where "ack_msg (clients bro s) MQTT_TYPE_PINGRESP 0 0 = Ok c" "sender_ok c"
        using ack_ok(3) [of "clients bro s" 0] assms(1) by (auto simp: clients_ok_def)
      with 4 assms(1) show ?thesis by (simp add: clients_ok_set)
    next
      case 5
      with assms(1) show ?thesis by simp
    qed
  qed
  then obtain rc b where r: "?r = Ok (rc, b)" "clients_ok b" by blast
  have "handle_mqtt_command base s bro = Ok (rc,
      set_client s ((clients b s)\<lparr>in_packet := free_mqtt_msg (in_packet (clients b s))\<rparr>) b)"
    using assms(3) r(1) by (simp only: handle_mqtt_command_def option.case obind.simps prod.case)
  with r(2) show ?thesis by (auto simp: clients_ok_def)
qed

end
