(* ===== verification/Event_Io_Facts.thy ===== *)
theory Event_Io_Facts
  imports Event_Io Hand_Mqtt_Facts
begin

text \<open>
  What \<open>loop_read\<close> does: packets may come in any pieces, reading stays inside its buffer, and a
  PUBLISH goes from the bytes of the publisher to the queues of the subscribers.
\<close>

section \<open>Input in several pieces\<close>

lemma recv_extend: "recv n es = (Got bs, es') \<Longrightarrow> recv n (es @ es2) = (Got bs, es' @ es2)"
  by (induction n es rule: recv.induct) (auto split: if_splits)

lemma recv_dry: "recv n es = (Got_again, es') \<Longrightarrow> es' = [] \<and> recv n (es @ es2) = recv n es2"
  by (induction n es rule: recv.induct) (auto split: if_splits)

lemma recv_code_1: "recv_code r = 1 \<Longrightarrow> \<forall>bs. r \<noteq> Got bs \<Longrightarrow> r = Got_again"
  by (cases r) auto

text \<open>One byte of the remaining length.\<close>

definition length_byte :: "u8 \<Rightarrow> client \<Rightarrow> client" where
  "length_byte b c = c\<lparr>remaining_count := remaining_count c - 1,
     in_packet := map_option (\<lambda>m. m\<lparr>m_length := m_length m + ucast (b AND 127) * remaining_mult c\<rparr>) (in_packet c),
     remaining_mult := remaining_mult c * 128\<rparr>"

lemma read_length_Got:
  "recv 1 es = (Got bs, es1) \<Longrightarrow> read_length c es =
     (if remaining_count c < -3 then Return (-1) (c\<lparr>remaining_count := remaining_count c - 1\<rparr>) es1
      else if hd bs AND 128 \<noteq> 0 then read_length (length_byte (hd bs) c) es1
      else Go (length_byte (hd bs) c) 1 es1)"
  by (subst read_length.simps) (simp add: Let_def length_byte_def)

lemma read_length_stop:
  "recv 1 es = (x, es1) \<Longrightarrow> \<forall>bs. x \<noteq> Got bs \<Longrightarrow> read_length c es = Return (recv_code x) c es1"
  by (subst read_length.simps) (cases x, simp_all)

lemma read_length_cong: "recv 1 es = recv 1 es' \<Longrightarrow> read_length c es = read_length c es'"
  by (simp only: read_length.simps [of c es] read_length.simps [of c es'])

lemma length_byte_fields [simp]:
  "remaining_count (length_byte b c) = remaining_count c - 1"
  "packet_type (length_byte b c) = packet_type c"
  "in_packet (length_byte b c) = None \<longleftrightarrow> in_packet c = None"
  "in_to_process (length_byte b c) = in_to_process c" "in_cur (length_byte b c) = in_cur c"
  "in_payload (length_byte b c) = in_payload c"
  by (simp_all add: length_byte_def split: option.split)

lemma recv_cases [case_names Got Stop]:
  assumes "\<And>bs es1. recv n es = (Got bs, es1) \<Longrightarrow> P" "\<And>x es1. recv n es = (x, es1) \<Longrightarrow> \<forall>bs. x \<noteq> Got bs \<Longrightarrow> P"
  shows P
  using assms by (cases "recv n es") (metis recv_result.exhaust)

lemma read_length_pieces:
  "(read_length c es = Go c' r es' \<longrightarrow> read_length c (es @ es2) = Go c' r (es' @ es2) \<and>
      remaining_count c' < remaining_count c \<and> packet_type c' = packet_type c \<and>
      (in_packet c' = None \<longleftrightarrow> in_packet c = None)) \<and>
   (read_length c es = Return 1 c' es' \<longrightarrow> es' = [] \<and> read_length c (es @ es2) = read_length c' es2 \<and>
      remaining_count c' \<le> remaining_count c \<and> packet_type c' = packet_type c \<and>
      (in_packet c' = None \<longleftrightarrow> in_packet c = None))"
proof (induction "nat (remaining_count c + 5)" arbitrary: c es rule: less_induct)
  case less
  show ?case
  proof (cases rule: recv_cases [of 1 es])
    case (Got bs es1)
    note g = read_length_Got [OF Got] and g2 = read_length_Got [OF recv_extend [OF Got], of c es2]
    show ?thesis
    proof (cases "remaining_count c < -3 \<or> hd bs AND 128 = 0")
      case True
      then show ?thesis using g g2 by auto
    next
      case False
      then have "nat (remaining_count (length_byte (hd bs) c) + 5) < nat (remaining_count c + 5)" by simp
      from less [OF this, of es1] False g g2 show ?thesis by auto
    qed
  next
    case (Stop x es1)
    have "x = Got_again \<Longrightarrow> es1 = [] \<and> read_length c (es @ es2) = read_length c es2"
      using recv_dry [of 1 es es1 es2] Stop(1) read_length_cong by blast
    then show ?thesis using read_length_stop [OF Stop, of c] recv_code_1 [OF _ Stop(2)] by auto
  qed
qed

lemma read_command_pieces:
  "(read_command c r es = Go c' r' es' \<longrightarrow> read_command c r (es @ es2) = Go c' r' (es' @ es2)) \<and>
   (read_command c r es = Return 1 c' es' \<longrightarrow> es' = [] \<and> c' = c \<and> packet_type c = 0 \<and>
      read_command c r (es @ es2) = read_command c r es2)"
proof (cases rule: recv_cases [of 1 es])
  case (Got bs es1)
  then show ?thesis using recv_extend [OF Got] by (cases "packet_type c = 0") (auto simp: read_command_def)
next
  case (Stop x es1)
  have "x = Got_again \<Longrightarrow> es1 = [] \<and> read_command c r (es @ es2) = read_command c r es2"
    if "packet_type c = 0"
    using recv_dry [of 1 es es1 es2] Stop(1) that by (simp only: read_command_def simp_thms if_True)
  moreover have "read_command c r es = Return (recv_code x) c es1" if "packet_type c = 0"
    using Stop that by (cases x) (simp_all add: read_command_def)
  moreover have "read_command c r bs = Go c r bs" if "packet_type c \<noteq> 0" for bs
    using that by (simp add: read_command_def)
  ultimately show ?thesis using recv_code_1 [OF _ Stop(2)] by (cases "packet_type c = 0") auto
qed

lemma read_payload_done: "in_to_process c = 0 \<Longrightarrow> read_payload c r es = Go c r es"
  by (simp add: read_payload.simps [of c r es])

lemma read_payload_cong:
  "recv (unat (in_to_process c)) es = recv (unat (in_to_process c)) es' \<Longrightarrow> 0 < in_to_process c \<Longrightarrow>
   read_payload c r es = read_payload c r2 es'"
  by (simp only: read_payload.simps [of c r es] read_payload.simps [of c r2 es'] if_True)

lemma read_payload_stop:
  "recv (unat (in_to_process c)) es = (x, es1) \<Longrightarrow> \<forall>bs. x \<noteq> Got bs \<Longrightarrow> 0 < in_to_process c \<Longrightarrow>
   read_payload c r es = Return (recv_code x) c es1"
  by (cases x) (simp_all add: read_payload.simps [of c r es])

text \<open>One successful \<open>recv\<close> of the payload.\<close>

definition payload_chunk :: "u8 list \<Rightarrow> client \<Rightarrow> client" where
  "payload_chunk bs c = c\<lparr>in_payload := map_option (\<lambda>d. write_at d (unat (in_cur c)) bs) (in_payload c),
     in_to_process := in_to_process c - of_nat (length bs), in_cur := in_cur c + of_nat (length bs)\<rparr>"

lemma payload_chunk_fields [simp]:
  "in_to_process (payload_chunk bs c) = in_to_process c - of_nat (length bs)"
  "in_cur (payload_chunk bs c) = in_cur c + of_nat (length bs)"
  "in_packet (payload_chunk bs c) = in_packet c" "remaining_count (payload_chunk bs c) = remaining_count c"
  by (simp_all add: payload_chunk_def)

definition payload_room :: "client \<Rightarrow> bool" where
  "payload_room c \<longleftrightarrow> (case in_payload c of None \<Rightarrow> False
     | Some d \<Rightarrow> unat (in_cur c) + unat (in_to_process c) \<le> length d)"

lemma read_payload_Got:
  assumes "recv (unat (in_to_process c)) es = (Got bs, es1)" "0 < in_to_process c"
  shows "read_payload c r es =
     (if payload_room c then read_payload (payload_chunk bs c) (int (length bs)) es1 else Bad_write)"
  using assms
  by (cases "in_payload c") (auto simp: read_payload.simps [of c r es] payload_chunk_def payload_room_def)

lemma read_payload_pieces:
  "(read_payload c r es = Go c' r' es' \<longrightarrow> read_payload c r (es @ es2) = Go c' r' (es' @ es2)) \<and>
   (read_payload c r es = Return 1 c' es' \<longrightarrow> es' = [] \<and> 0 < in_to_process c' \<and>
      in_packet c' = in_packet c \<and> remaining_count c' = remaining_count c \<and>
      (\<forall>r2. read_payload c r (es @ es2) = read_payload c' r2 es2))"
proof (induction "unat (in_to_process c)" arbitrary: c r es rule: less_induct)
  case less
  show ?case
  proof (cases "0 < in_to_process c")
    case False
    then have "in_to_process c = 0" by (simp add: word_gt_0)
    then show ?thesis using read_payload_done by auto
  next
    case True
    show ?thesis
    proof (cases rule: recv_cases [of "unat (in_to_process c)" es])
      case (Got bs es1)
      note g = read_payload_Got [OF Got True, of r] read_payload_Got [OF recv_extend [OF Got] True, of r es2]
      have "0 < unat (in_to_process c)" using True by (simp add: word_less_nat_alt)
      with recv_Got [OF Got] minus_of_nat_less [of "length bs" "in_to_process c"]
      have "unat (in_to_process (payload_chunk bs c)) < unat (in_to_process c)" by simp
      from less [OF this, of "int (length bs)" es1] g show ?thesis by auto
    next
      case (Stop x es1)
      have stop2: "read_payload c r (es @ es2) = read_payload c r2 es2" if "x = Got_again" for r2
        using recv_dry [of _ es es1 es2] Stop(1) True that
          read_payload_cong [of c "es @ es2" es2] by simp
      show ?thesis
        using read_payload_stop [OF Stop True, of r] recv_code_1 [OF _ Stop(2)] recv_dry [of _ es es1 es2] Stop(1)
          stop2 True by auto
    qed
  qed
qed


lemma and_then_Go: "and_then x f = Go c r es \<longleftrightarrow> (\<exists>c1 r1 es1. x = Go c1 r1 es1 \<and> f c1 r1 es1 = Go c r es)"
  by (cases x) auto

lemma and_then_Return:
  "and_then x f = Return r c es \<longleftrightarrow> x = Return r c es \<or> (\<exists>c1 r1 es1. x = Go c1 r1 es1 \<and> f c1 r1 es1 = Return r c es)"
  by (cases x) auto

definition set_payload :: "bool \<Rightarrow> client \<Rightarrow> int \<Rightarrow> sock_event list \<Rightarrow> read_step" where
  "set_payload ok c rlen es = (let c = c\<lparr>remaining_count := remaining_count c * -1\<rparr>
     in if 0 < packet_length c then
          (if \<not> ok then Return (-2) (c\<lparr>in_payload := None\<rparr>) es
           else Go (c\<lparr>in_payload := Some (replicate (unat (packet_length c)) 0),
                      in_to_process := packet_length c\<rparr>) rlen es)
        else Go c rlen es)"

lemma read_remaining_eq: "read_remaining ok c rlen es =
    (if remaining_count c \<le> 0 then and_then (read_length c es) (set_payload ok) else Go c rlen es)"
proof -
  have "set_payload ok = (\<lambda>c rlen es. let c = c\<lparr>remaining_count := remaining_count c * -1\<rparr>
     in if 0 < packet_length c then
          (if \<not> ok then Return (-2) (c\<lparr>in_payload := None\<rparr>) es
           else Go (c\<lparr>in_payload := Some (replicate (unat (packet_length c)) 0),
                      in_to_process := packet_length c\<rparr>) rlen es)
        else Go c rlen es)"
    by (intro ext) (simp only: set_payload_def)
  then show ?thesis by (simp only: read_remaining_def)
qed

lemma set_payload_cases:
  "set_payload ok c r es = Go c' r' es' \<Longrightarrow>
     es' = es \<and> r' = r \<and> (\<forall>es2. set_payload ok c r es2 = Go c' r es2) \<and>
     remaining_count c' = - remaining_count c \<and> in_packet c' = in_packet c"
  "set_payload ok c r es \<noteq> Return 1 c' es'"
  by (auto simp: set_payload_def Let_def split: if_splits)

lemma read_remaining_pieces:
  "(read_remaining ok c r es = Go c' r' es' \<longrightarrow> read_remaining ok c r (es @ es2) = Go c' r' (es' @ es2) \<and>
      0 < remaining_count c' \<and> packet_type c' = packet_type c \<and> (in_packet c' = None \<longleftrightarrow> in_packet c = None)) \<and>
   (read_remaining ok c r es = Return 1 c' es' \<longrightarrow> es' = [] \<and>
      packet_type c' = packet_type c \<and> (in_packet c' = None \<longleftrightarrow> in_packet c = None) \<and>
      (\<forall>r2. read_remaining ok c r (es @ es2) = read_remaining ok c' r2 es2))"
proof (cases "remaining_count c \<le> 0")
  case True
  have "read_remaining ok c r (es @ es2) = Go c' r' (es' @ es2) \<and> 0 < remaining_count c' \<and>
      packet_type c' = packet_type c \<and> (in_packet c' = None \<longleftrightarrow> in_packet c = None)"
    if "read_remaining ok c r es = Go c' r' es'"
  proof -
    from that True obtain c1 r1 es1 where 1: "read_length c es = Go c1 r1 es1" "set_payload ok c1 r1 es1 = Go c' r' es'"
      by (auto simp: read_remaining_eq and_then_Go)
    from read_length_pieces [of c es c1 r1 es1 es2] 1(1) set_payload_cases(1) [OF 1(2)] True show ?thesis
      by (simp add: read_remaining_eq)
  qed
  moreover have "read_length c es = Return 1 c' es'" if "read_remaining ok c r es = Return 1 c' es'"
    using that True set_payload_cases(2) by (auto simp: read_remaining_eq and_then_Return)
  ultimately show ?thesis using read_length_pieces [of c es c' r' es' es2] True
    by (auto simp: read_remaining_eq)
qed (auto simp: read_remaining_eq)

lemma start_packet_idem: "in_packet c \<noteq> None \<Longrightarrow> start_packet c = c"
  by (auto simp: start_packet_def)

lemma start_packet_fields [simp]:
  "in_packet (start_packet c) \<noteq> None" "packet_type (start_packet c) = packet_type c"
  by (auto simp: start_packet_def mqtt_message_init_def message0_def)

lemma read_command_go:
  "packet_type c \<noteq> 0 \<Longrightarrow> read_command c r es = Go c r es"
  "read_command c r es = Go c' r' es' \<Longrightarrow> in_packet c' = None \<longleftrightarrow> in_packet c = None"
  "fst (recv 1 es) = Got_again \<Longrightarrow> packet_type c = 0 \<Longrightarrow> read_command c r es = Return 1 c (snd (recv 1 es))"
  by (auto simp: read_command_def split: prod.splits recv_result.splits if_splits)

lemma collect_rest_pieces:
  assumes "and_then (read_remaining ok c r es) read_payload = Return 1 c' es'"
  shows "es' = [] \<and> packet_type c' = packet_type c \<and> (in_packet c' = None \<longleftrightarrow> in_packet c = None) \<and>
    and_then (read_remaining ok c r (es @ es2)) read_payload = and_then (read_remaining ok c' (-1) es2) read_payload"
proof (cases "read_remaining ok c r es")
  case (Go c2 r2 es3)
  with assms have "read_payload c2 r2 es3 = Return 1 c' es'" by simp
  with read_payload_pieces [of c2 r2 es3 c' r2 es' es2] read_remaining_pieces [of ok c r es c2 r2 es3 es2] Go
  show ?thesis by (auto simp: read_remaining_eq [of ok c'])
next
  case (Return r2 c2 es3)
  with assms read_remaining_pieces [of ok c r es c' r2 es' es2] show ?thesis by auto
qed (use assms in simp)

lemma collect_pieces:
  assumes "collect ok c es = Return 1 c' es'" "packet_type c' = 0 \<longrightarrow> fst (recv 1 es) = Got_again"
  shows "es' = [] \<and> collect ok c (es @ es2) = collect ok c' es2"
proof (cases "read_command (start_packet c) (-1) es")
  case (Go c1 r1 es1)
  note cmd = read_command_pieces [of "start_packet c" "-1" es c1 r1 es1 es2]
    and ne = read_command_go(2) [OF Go]
  from assms(1) Go have "and_then (read_remaining ok c1 r1 es1) read_payload = Return 1 c' es'"
    by (simp add: collect_def)
  note rest = collect_rest_pieces [OF this, of es2]
  have "packet_type c' \<noteq> 0"
  proof
    assume t: "packet_type c' = 0"
    show False
    proof (cases "packet_type (start_packet c) = 0")
      case True
      with t assms(2) Go read_command_go(3) [of es "start_packet c" "-1"] show False by simp
    next
      case False
      with t rest Go read_command_go(1) [OF False, of "-1" es] show False by simp
    qed
  qed
  then have "collect ok c' es2 = and_then (read_remaining ok c' (-1) es2) read_payload"
    using rest ne by (simp add: collect_def start_packet_idem read_command_go(1))
  with rest cmd Go show ?thesis by (simp add: collect_def)
next
  case (Return r c1 es1)
  with assms(1) have "read_command (start_packet c) (-1) es = Return 1 c' es'" by (simp add: collect_def)
  with read_command_pieces [of "start_packet c" "-1" es c' _ es' es2]
  have "es' = []" "c' = start_packet c"
    "read_command (start_packet c) (-1) (es @ es2) = read_command c' (-1) es2" by auto
  then show ?thesis by (simp add: collect_def start_packet_idem)
qed (use assms(1) in \<open>simp add: collect_def\<close>)

section \<open>A whole packet\<close>

text \<open>The bytes that can be read now: those before the first event that is not data.\<close>

fun avail :: "sock_event list \<Rightarrow> u8 list" where
  "avail (Bytes bs # es) = bs @ avail es"
| "avail _ = []"

lemma recv_avail:
  assumes "avail es \<noteq> []" "0 < n"
  obtains bs es' where "recv n es = (Got bs, es')" "bs \<noteq> []" "length bs \<le> n" "avail es = bs @ avail es'"
  using assms
proof (induction es rule: avail.induct)
  case (1 bs es)
  show ?case
  proof (cases "bs = []")
    case True
    with 1 show ?thesis by auto
  next
    case False
    show ?thesis
    proof (rule 1(2))
      show "recv n (Bytes bs # es) = (Got (take n bs), if length bs \<le> n then es else Bytes (drop n bs) # es)"
        using False by simp
      show "avail (Bytes bs # es) = take n bs @ avail (if length bs \<le> n then es else Bytes (drop n bs) # es)"
        by simp
    qed (use False 1(4) in auto)
  qed
qed auto

lemma recv_byte:
  assumes "avail es = b # bs"
  obtains es' where "recv 1 es = (Got [b], es')" "avail es' = bs"
proof -
  from assms recv_avail [of es 1] obtain xs es' where
    "recv 1 es = (Got xs, es')" "xs \<noteq> []" "length xs \<le> 1" "avail es = xs @ avail es'" by auto
  with assms that show ?thesis by (cases xs) auto
qed

lemma seven_bits: "ucast (b AND 127) = (of_nat (unat b mod 128) :: u32)" for b :: u8
proof -
  have "b AND 127 = take_bit 7 b" by (simp add: take_bit_eq_mask mask_eq_exp_minus_1)
  then have "unat (b AND 127) = take_bit 7 (unat b)" by (simp only: unsigned_take_bit_eq)
  then have "unat (b AND 127) = unat b mod 128" by (simp add: take_bit_eq_mod)
  then show ?thesis by (metis of_nat_unat)
qed

lemma continuation_bit: "b AND 128 = 0 \<longleftrightarrow> unat b < 128" for b :: u8
proof -
  have "b AND 128 = 0 \<longleftrightarrow> \<not> bit b 7"
    using and_exp_eq_0_iff_not_bit [of b 7] by simp
  also have "\<dots> \<longleftrightarrow> even (unat b div 128)"
    using bit_unsigned_iff [where 'a = nat, of b 7] by (simp add: bit_iff_odd)
  also have "unat b div 128 < 2" using unat_u8_less [of b] by linarith
  then have "even (unat b div 128) \<longleftrightarrow> unat b div 128 = 0" by (auto elim!: evenE)
  finally show ?thesis by auto
qed

definition length_read :: "u8 list \<Rightarrow> client \<Rightarrow> client" where
  "length_read bs c = c\<lparr>remaining_count := remaining_count c - int (length bs),
     in_packet := map_option (\<lambda>m. m\<lparr>m_length := m_length m + remaining_mult c * of_nat (varint_value bs)\<rparr>) (in_packet c),
     remaining_mult := remaining_mult c * 128 ^ length bs\<rparr>"

lemma length_read_Cons: "length_read (b # bs) c = length_read bs (length_byte b c)"
  by (cases "in_packet c") (simp_all add: length_read_def length_byte_def seven_bits algebra_simps)

lemma read_length_avail:
  "avail es = bs @ rest \<Longrightarrow> varint_ok bs \<Longrightarrow> int (length bs) \<le> 4 + remaining_count c \<Longrightarrow>
   \<exists>es'. read_length c es = Go (length_read bs c) 1 es' \<and> avail es' = rest"
proof (induction bs arbitrary: c es)
  case (Cons b bs)
  from Cons.prems(1) obtain es' where r: "recv 1 es = (Got [b], es')" "avail es' = bs @ rest"
    by (auto elim: recv_byte)
  have g: "read_length c es = (if unat b < 128 then Go (length_byte b c) 1 es' else read_length (length_byte b c) es')"
    using read_length_Got [OF r(1), of c] Cons.prems(3) continuation_bit [of b] by auto
  show ?case
  proof (cases "bs = []")
    case True
    have "length_read [] x = x" for x by (cases x; cases "in_packet x") (simp_all add: length_read_def)
    with True Cons.prems(2) g r show ?thesis by (simp add: length_read_Cons)
  next
    case False
    with Cons.prems(2) have "varint_ok bs" "\<not> unat b < 128" by (cases bs; simp)+
    with Cons.IH [OF r(2), of "length_byte b c"] Cons.prems(3) g show ?thesis by (simp add: length_read_Cons)
  qed
qed simp

lemma write_at_end: "length d = n + length bs + k \<Longrightarrow> take (n + length bs) (write_at d n bs) = take n d @ bs"
  by (simp add: write_at_def)

lemma unat_plus_of_nat: "unat a + k < 4294967296 \<Longrightarrow> unat (a + of_nat k :: u32) = unat a + k"
  by (metis of_nat_add of_nat_unat ucast_id unat_of_nat_u32_small)

lemma read_payload_avail:
  "avail es = bs @ rest \<Longrightarrow> length bs = unat (in_to_process c) \<Longrightarrow> in_payload c = Some d \<Longrightarrow>
   length d = unat (in_cur c) + length bs \<Longrightarrow> length d < 4294967296 \<Longrightarrow>
   \<exists>es' r'. read_payload c r es = Go (c\<lparr>in_payload := Some (take (unat (in_cur c)) d @ bs), in_to_process := 0,
      in_cur := in_cur c + in_to_process c\<rparr>) r' es' \<and> avail es' = rest \<and> (bs = [] \<longrightarrow> r' = r) \<and> (bs \<noteq> [] \<longrightarrow> 0 < r')"
proof (induction "length bs" arbitrary: c r es bs d rule: less_induct)
  case less
  show ?case
  proof (cases "bs = []")
    case True
    with less.prems have "in_to_process c = 0" by (simp add: unat_eq_0)
    with True less.prems read_payload_done [OF this] show ?thesis by (cases c) simp
  next
    case False
    then have tp: "0 < in_to_process c" "0 < unat (in_to_process c)" using less.prems(2) by (simp_all add: word_less_nat_alt flip: less.prems(2))
    from False less.prems(1) have "avail es \<noteq> []" by simp
    from recv_avail [OF this tp(2)] obtain xs es1 where
      r: "recv (unat (in_to_process c)) es = (Got xs, es1)" "xs \<noteq> []" "length xs \<le> unat (in_to_process c)"
        "avail es = xs @ avail es1" by metis
    define ys where "ys = drop (length xs) bs"
    have bs: "bs = xs @ ys" "avail es1 = ys @ rest"
    proof -
      have "xs @ avail es1 = bs @ rest" "length xs \<le> length bs" using r(3,4) less.prems(1,2) by simp_all
      then show "bs = xs @ ys" "avail es1 = ys @ rest"
        unfolding ys_def by (metis append_eq_conv_conj append_take_drop_id take_append diff_is_0_eq take_0 append_Nil2,
            metis append_eq_conv_conj drop_append diff_is_0_eq drop0)
    qed
    let ?c = "payload_chunk xs c" and ?d = "write_at d (unat (in_cur c)) xs"
    have cur: "unat (in_cur ?c) = unat (in_cur c) + length xs"
      using unat_plus_of_nat [of "in_cur c" "length xs"] less.prems(4,5) bs by simp
    have room: "payload_room c" using less.prems(2-4) by (simp add: payload_room_def)
    have tp': "unat (in_to_process ?c) = length ys"
      using minus_of_nat_less [of "length xs" "in_to_process c"] r(2,3) less.prems(2) bs by simp
    have "length ys < length bs" using bs r(2) by simp
    moreover have "in_payload ?c = Some ?d" using less.prems(3) by (simp add: payload_chunk_def)
    moreover have "length ?d = unat (in_cur ?c) + length ys" "length ?d < 4294967296"
      using less.prems(4,5) cur bs by (simp_all add: write_at_def)
    ultimately obtain es' r' where 1: "read_payload ?c (int (length xs)) es1 =
        Go (?c\<lparr>in_payload := Some (take (unat (in_cur ?c)) ?d @ ys), in_to_process := 0,
          in_cur := in_cur ?c + in_to_process ?c\<rparr>) r' es'" "avail es' = rest"
        "ys = [] \<longrightarrow> r' = int (length xs)" "ys \<noteq> [] \<longrightarrow> 0 < r'"
      using less.hyps [OF _ bs(2) tp' [symmetric], of ?d "int (length xs)"] by blast
    have "take (unat (in_cur ?c)) ?d = take (unat (in_cur c)) d @ xs"
      unfolding cur by (rule write_at_end [of _ _ _ "length ys"]) (use less.prems(4) bs in simp)
    then have "read_payload c r es = Go (c\<lparr>in_payload := Some (take (unat (in_cur c)) d @ bs), in_to_process := 0,
      in_cur := in_cur c + in_to_process c\<rparr>) r' es'"
      using read_payload_Got [OF r(1) tp(1), of r] room 1(1) bs(1) by (simp add: payload_chunk_def)
    moreover have "0 < r'" using 1(3,4) r(2) by (cases "ys = []") auto
    ultimately show ?thesis using 1(2) False by blast
  qed
qed


text \<open>A client between two packets.\<close>

definition idle :: "client \<Rightarrow> bool" where
  "idle c \<longleftrightarrow> in_packet c = None \<and> remaining_count c = 0 \<and> in_to_process c = 0 \<and> in_cur c = 0"

text \<open>The command byte and the remaining length, up to the allocation of the payload.\<close>

lemma collect_header:
  assumes "idle c" "avail es = cmd # varint n @ rest" "n < 268435456"
  obtains es' where "avail es' = rest"
    "collect True c es = and_then (set_payload True (c\<lparr>
       in_packet := Some ((mqtt_parser_command message0 cmd)\<lparr>m_length := of_nat n\<rparr>),
       remaining_mult := 128 ^ length (varint n), remaining_count := - int (length (varint n))\<rparr>) 1 es') read_payload"
proof -
  let ?m = "mqtt_parser_command message0 cmd" and ?v = "varint n"
  have v: "varint_ok ?v" "varint_value ?v = n" "length ?v \<le> 4"
    using varint_ok_varint varint_value_varint length_varint [OF assms(3)] by simp_all
  have st: "start_packet c = c\<lparr>in_packet := Some message0\<rparr>"
    using assms(1) by (simp add: idle_def start_packet_def mqtt_message_init_def)
  obtain es1 where 1: "recv 1 es = (Got [cmd], es1)" "avail es1 = ?v @ rest"
    using recv_byte [OF assms(2)] by blast
  let ?c1 = "c\<lparr>in_packet := Some ?m, remaining_mult := 1\<rparr>"
  have cmd: "read_command (start_packet c) (-1) es = Go ?c1 1 es1"
    using 1(1) by (simp add: read_command_def st zero_fields)
  have rc: "remaining_count ?c1 = 0" using assms(1) by (simp add: idle_def)
  obtain es2 where 2: "read_length ?c1 es1 = Go (length_read ?v ?c1) 1 es2" "avail es2 = rest"
    using read_length_avail [OF 1(2) v(1), of ?c1] v(3) rc by auto
  have "length_read ?v ?c1 = c\<lparr>in_packet := Some (?m\<lparr>m_length := of_nat n\<rparr>),
      remaining_mult := 128 ^ length ?v, remaining_count := - int (length ?v)\<rparr>"
    using assms(1) by (cases c) (simp add: length_read_def v(2) idle_def mqtt_parser_command_def zero_fields)
  with cmd 2(1) rc have "collect True c es = and_then (set_payload True (c\<lparr>
       in_packet := Some (?m\<lparr>m_length := of_nat n\<rparr>),
       remaining_mult := 128 ^ length ?v, remaining_count := - int (length ?v)\<rparr>) 1 es2) read_payload"
    by (simp add: collect_def read_remaining_eq)
  with 2(2) show thesis by (rule that)
qed

lemma collect_avail:
  assumes "idle c" "avail es = cmd # varint (length payload) @ payload @ rest" "length payload < 268435456"
  shows "\<exists>r es'. collect True c es = Go (c\<lparr>
      in_packet := Some ((mqtt_parser_command message0 cmd)\<lparr>m_length := of_nat (length payload)\<rparr>),
      remaining_count := int (length (varint (length payload))),
      remaining_mult := 128 ^ length (varint (length payload)),
      in_payload := (if payload = [] then in_payload c else Some payload),
      in_to_process := 0, in_cur := of_nat (length payload)\<rparr>) r es' \<and> 0 < r \<and> avail es' = rest"
proof -
  let ?n = "length payload" and ?v = "varint (length payload)"
  let ?m = "(mqtt_parser_command message0 cmd)\<lparr>m_length := of_nat ?n\<rparr>"
  let ?c = "c\<lparr>in_packet := Some ?m, remaining_mult := 128 ^ length ?v, remaining_count := - int (length ?v)\<rparr>"
  obtain es1 where 1: "avail es1 = payload @ rest" "collect True c es = and_then (set_payload True ?c 1 es1) read_payload"
    by (rule collect_header [OF assms])
  have un: "unat (of_nat ?n :: u32) = ?n" using assms(3) by simp
  show ?thesis
  proof (cases "payload = []")
    case True
    then have "collect True c es = Go (?c\<lparr>remaining_count := int (length ?v)\<rparr>) 1 es1"
      using 1(2) assms(1) by (simp add: set_payload_def read_payload_done idle_def)
    moreover have "?c\<lparr>remaining_count := int (length ?v)\<rparr> = c\<lparr>
      in_packet := Some ?m, remaining_count := int (length ?v), remaining_mult := 128 ^ length ?v,
      in_payload := (if payload = [] then in_payload c else Some payload),
      in_to_process := 0, in_cur := of_nat ?n\<rparr>"
      using True assms(1) by (cases c) (simp add: idle_def)
    ultimately show ?thesis using 1(1) True by auto
  next
    case False
    let ?c3 = "?c\<lparr>remaining_count := int (length ?v), in_payload := Some (replicate ?n 0), in_to_process := of_nat ?n\<rparr>"
    have pos: "0 < (of_nat ?n :: u32)" using False un by (simp add: word_less_nat_alt)
    have cur: "in_cur ?c3 = 0" using assms(1) by (simp add: idle_def)
    obtain es3 r where 3: "read_payload ?c3 1 es1 = Go (?c3\<lparr>in_payload := Some payload, in_to_process := 0,
        in_cur := of_nat ?n\<rparr>) r es3" "avail es3 = rest" "0 < r"
      using read_payload_avail [OF 1(1), of ?c3 "replicate ?n 0" 1] un assms(3) False cur by auto
    have "collect True c es = Go (?c3\<lparr>in_payload := Some payload, in_to_process := 0,
        in_cur := of_nat ?n\<rparr>) r es3"
      using 1(2) 3(1) pos un by (simp add: set_payload_def)
    moreover have "?c3\<lparr>in_payload := Some payload, in_to_process := 0, in_cur := of_nat ?n\<rparr> = c\<lparr>
      in_packet := Some ?m, remaining_count := int (length ?v), remaining_mult := 128 ^ length ?v,
      in_payload := (if payload = [] then in_payload c else Some payload),
      in_to_process := 0, in_cur := of_nat ?n\<rparr>"
      using False by (cases c) simp
    ultimately show ?thesis using 3(2,3) by auto
  qed
qed

section \<open>From the bytes of a publisher to the queues of the subscribers\<close>

lemma parse_loop_done:
  "mqtt_parser_execute p m data len n = Some (PReturn rc p' m' n') \<Longrightarrow>
   rc \<noteq> MQTT_PARSER_RC_CONTINUE \<Longrightarrow> rc \<noteq> MQTT_PARSER_RC_WANT_MEMORY \<Longrightarrow>
   parse_loop p m data len n = Some (PReturn rc p' m' n')"
  by (subst parse_loop.simps) simp

lemma queued_reading [simp]:
  "queued (c\<lparr>in_parser := ip\<rparr>) pks = queued c pks"
  "queued (c\<lparr>in_cur := n\<rparr>) pks = queued c pks"
  "queued (c\<lparr>in_to_process := n\<rparr>) pks = queued c pks"
  "queued (c\<lparr>in_payload := pl\<rparr>) pks = queued c pks"
  "queued (c\<lparr>remaining_count := i\<rparr>) pks = queued c pks"
  "queued (c\<lparr>remaining_mult := n\<rparr>) pks = queued c pks"
  by (simp_all add: queued_def queue_at_def packets_at_def cong: option.case_cong)

lemma set_client_twice [simp]: "set_client s c' (set_client s c bro) = set_client s c' bro"
  by (simp add: set_client_def)

lemma finish_packet_done:
  assumes "in_packet c = Some m" "in_payload c = Some data"
    and "parse_loop (goto (in_parser c) MQTT_PARSER_STATE_INITIAL) m data (unat (m_length m)) 0 =
      Some (PReturn MQTT_PARSER_RC_DONE p' m' n')"
    and "handle_mqtt_command base s (set_client s (c\<lparr>in_cur := 0, remaining_count := 0, in_parser := p',
      in_packet := Some m'\<rparr>) bro) = Ok (0, bro1)"
  shows "finish_packet_in base s r (set_client s c bro) =
    Ok (r, set_client s ((clients bro1 s)\<lparr>in_payload := None\<rparr>) bro1)"
proof -
  have "c\<lparr>in_cur := 0, remaining_count := 0, in_parser := ip, in_parser := p', in_packet := k\<rparr> =
    c\<lparr>in_cur := 0, remaining_count := 0, in_parser := p', in_packet := k\<rparr>" for ip k by simp
  with assms show ?thesis by (simp add: finish_packet_in_def Let_def)
qed

lemma command_type:
  "m_length (mqtt_parser_command m d) = m_length m"
  "m_publish (mqtt_parser_command m d) = m_publish m"
  by (simp_all add: mqtt_parser_command_def)

section \<open>The invariant of the reader\<close>

text \<open>
  \<open>remaining_count\<close> is at most 0 while the length is being read, minus the number of its bytes
  read so far; afterwards it is that number.
\<close>

definition reader_ok :: "client \<Rightarrow> bool" where
  "reader_ok c \<longleftrightarrow> -4 \<le> remaining_count c \<and> remaining_count c \<le> 4 \<and>
     unat (packet_length c) < 128 ^ nat \<bar>remaining_count c\<bar> \<and>
     (if remaining_count c \<le> 0
      then in_to_process c = 0 \<and> in_cur c = 0 \<and>
        (packet_type c \<noteq> 0 \<longrightarrow> unat (remaining_mult c) \<le> 128 ^ nat (- remaining_count c))
      else in_packet c \<noteq> None \<and> unat (in_cur c) + unat (in_to_process c) = unat (packet_length c) \<and>
        (packet_length c \<noteq> 0 \<longrightarrow> (\<exists>d. in_payload c = Some d \<and> length d = unat (packet_length c))))"

lemma reader_ok_idle: "idle c \<Longrightarrow> reader_ok c"
  by (simp add: idle_def reader_ok_def)

lemma reader_ok_start: "reader_ok c \<Longrightarrow> reader_ok (start_packet c)"
  by (auto simp: start_packet_def reader_ok_def mqtt_message_init_def zero_fields)

lemma packet_length_command: "in_packet c = Some m \<Longrightarrow> m_length (mqtt_parser_command m b) = packet_length c"
  by (simp add: mqtt_parser_command_def)

lemma read_command_ok:
  assumes "reader_ok c" "in_packet c \<noteq> None"
  shows "case read_command c r es of Bad_write \<Rightarrow> False
    | Return r' c' es' \<Rightarrow> c' = c
    | Go c' r' es' \<Rightarrow> reader_ok c' \<and> in_packet c' \<noteq> None \<and>
        (remaining_count c' \<le> 0 \<longrightarrow> unat (remaining_mult c') \<le> 128 ^ nat (- remaining_count c'))"
proof (cases "packet_type c = 0")
  case False
  with assms show ?thesis by (simp add: read_command_def reader_ok_def split: if_splits)
next
  case True
  obtain m where m: "in_packet c = Some m" using assms(2) by auto
  show ?thesis
  proof (cases rule: recv_cases [of 1 es])
    case (Got bs es1)
    have "m_length (mqtt_parser_command m (hd bs)) = packet_length c" by (rule packet_length_command [OF m])
    with Got True m assms(1) show ?thesis
      by (cases "remaining_count c \<le> 0") (auto simp: read_command_def reader_ok_def)
  next
    case (Stop x es1)
    with True show ?thesis by (cases x) (simp_all add: read_command_def)
  qed
qed

lemma length_step:
  assumes "unat l < 128 ^ k" "unat mult \<le> 128 ^ k" "k \<le> (3 :: nat)"
  shows "unat (l + ucast (b AND 127 :: u8) * mult :: u32) < 128 ^ Suc k" "unat (mult * 128 :: u32) \<le> 128 ^ Suc k"
proof -
  let ?v = "unat b mod 128"
  have p: "(128 :: nat) ^ Suc k \<le> 128 ^ 4" using assms(3) by (intro power_increasing) auto
  have v: "?v \<le> 127" using mod_less_divisor [of 128 "unat b"] by linarith
  have "?v * unat mult \<le> 127 * 128 ^ k" using v assms(2) by (intro mult_mono) auto
  then have s: "unat l + ?v * unat mult < 128 ^ Suc k" using assms(1) by simp
  have e: "l + ucast (b AND 127) * mult = of_nat (unat l + ?v * unat mult)"
    by (simp add: seven_bits)
  have "unat (of_nat (unat l + ?v * unat mult) :: u32) = unat l + ?v * unat mult"
    by (rule unat_of_nat_u32_small) (use s p in simp)
  with s show "unat (l + ucast (b AND 127) * mult :: u32) < 128 ^ Suc k" unfolding e by simp
  have m: "unat mult * 128 \<le> 128 ^ Suc k" using assms(2) by simp
  have e2: "mult * 128 = of_nat (unat mult * 128)" by simp
  have "unat (of_nat (unat mult * 128) :: u32) = unat mult * 128"
    by (rule unat_of_nat_u32_small) (use m p in simp)
  with m show "unat (mult * 128 :: u32) \<le> 128 ^ Suc k" unfolding e2 by simp
qed

definition length_ok :: "client \<Rightarrow> bool" where
  "length_ok c \<longleftrightarrow> in_packet c \<noteq> None \<and> -4 \<le> remaining_count c \<and> remaining_count c \<le> 0 \<and>
     in_to_process c = 0 \<and> in_cur c = 0 \<and>
     unat (packet_length c) < 128 ^ nat (- remaining_count c) \<and>
     unat (remaining_mult c) \<le> 128 ^ nat (- remaining_count c)"

lemma length_ok_reader: "length_ok c \<Longrightarrow> reader_ok c"
  by (simp add: length_ok_def reader_ok_def)

lemma length_ok_byte:
  assumes "length_ok c" "\<not> remaining_count c < -3"
  shows "length_ok (length_byte b c)"
proof -
  obtain m where m: "in_packet c = Some m" using assms(1) by (auto simp: length_ok_def)
  let ?k = "nat (- remaining_count c)"
  have k: "?k \<le> 3" "nat (1 - remaining_count c) = Suc ?k" using assms by (auto simp: length_ok_def)
  have "unat (m_length m) < 128 ^ ?k" "unat (remaining_mult c) \<le> 128 ^ ?k"
    using assms(1) m by (simp_all add: length_ok_def)
  note step = length_step(1) [OF this k(1), of b] length_step(2) [OF this k(1)]
  show ?thesis using assms m step k(2) by (simp add: length_ok_def length_byte_def)
qed

lemma read_length_ok:
  "length_ok c \<Longrightarrow> case read_length c es of Bad_write \<Rightarrow> False
    | Return r c' es' \<Rightarrow> r = 1 \<longrightarrow> length_ok c'
    | Go c' r es' \<Rightarrow> length_ok c' \<and> remaining_count c' < 0"
proof (induction "nat (remaining_count c + 5)" arbitrary: c es rule: less_induct)
  case less
  show ?case
  proof (cases rule: recv_cases [of 1 es])
    case (Got bs es1)
    note g = read_length_Got [OF Got, of c]
    show ?thesis
    proof (cases "remaining_count c < -3")
      case True
      then show ?thesis by (simp add: g)
    next
      case False
      note ok = length_ok_byte [OF less.prems False, of "hd bs"]
      have "nat (remaining_count (length_byte (hd bs) c) + 5) < nat (remaining_count c + 5)"
        using False by simp
      from less.hyps [OF this ok, of es1] ok False less.prems show ?thesis
        by (auto simp: g length_ok_def)
    qed
  next
    case (Stop x es1)
    with less.prems show ?thesis by (simp add: read_length_stop)
  qed
qed

lemma set_payload_ok:
  assumes "length_ok c" "remaining_count c < 0"
  shows "case set_payload ok c r es of Bad_write \<Rightarrow> False
    | Return r' c' es' \<Rightarrow> r' \<noteq> 1
    | Go c' r' es' \<Rightarrow> reader_ok c' \<and> 0 < remaining_count c'"
proof -
  obtain m where m: "in_packet c = Some m" using assms(1) by (auto simp: length_ok_def)
  show ?thesis
    using assms m by (auto simp: set_payload_def Let_def length_ok_def reader_ok_def word_gt_0)
qed

lemma read_remaining_ok:
  assumes "reader_ok c" "in_packet c \<noteq> None"
    "remaining_count c \<le> 0 \<longrightarrow> unat (remaining_mult c) \<le> 128 ^ nat (- remaining_count c)"
  shows "case read_remaining ok c r es of Bad_write \<Rightarrow> False
    | Return r' c' es' \<Rightarrow> r' = 1 \<longrightarrow> reader_ok c'
    | Go c' r' es' \<Rightarrow> reader_ok c' \<and> 0 < remaining_count c'"
proof (cases "remaining_count c \<le> 0")
  case True
  with assms have ok: "length_ok c" by (simp add: reader_ok_def length_ok_def)
  show ?thesis
  proof (cases "read_length c es")
    case (Go c1 r1 es1)
    with read_length_ok [OF ok, of es] set_payload_ok [of c1 ok r1 es1] True show ?thesis
      by (auto simp: read_remaining_eq split: read_step.splits)
  next
    case (Return r1 c1 es1)
    with read_length_ok [OF ok, of es] True length_ok_reader show ?thesis by (simp add: read_remaining_eq)
  next
    case Bad_write
    with read_length_ok [OF ok, of es] show ?thesis by simp
  qed
qed (use assms(1) in \<open>simp add: read_remaining_eq\<close>)

definition packet_read :: "client \<Rightarrow> bool" where
  "packet_read c \<longleftrightarrow> reader_ok c \<and> 0 < remaining_count c \<and> in_to_process c = 0"

lemma read_payload_ok:
  "reader_ok c \<Longrightarrow> 0 < remaining_count c \<Longrightarrow> case read_payload c r es of Bad_write \<Rightarrow> False
    | Return r' c' es' \<Rightarrow> r' = 1 \<longrightarrow> reader_ok c'
    | Go c' r' es' \<Rightarrow> packet_read c'"
proof (induction "unat (in_to_process c)" arbitrary: c r es rule: less_induct)
  case less
  show ?case
  proof (cases "0 < in_to_process c")
    case False
    then have "in_to_process c = 0" by (simp add: word_gt_0)
    with less.prems show ?thesis by (simp add: read_payload_done packet_read_def)
  next
    case True
    then have pos: "0 < unat (in_to_process c)" by (simp add: word_less_nat_alt)
    show ?thesis
    proof (cases rule: recv_cases [of "unat (in_to_process c)" es])
      case (Got bs es1)
      note l = recv_Got [OF Got pos]
      have ip: "unat (in_cur c) + unat (in_to_process c) = unat (packet_length c)"
        using less.prems by (simp add: reader_ok_def)
      then have "packet_length c \<noteq> 0" using pos by auto
      with less.prems obtain d where d: "in_payload c = Some d" "length d = unat (packet_length c)"
        by (auto simp: reader_ok_def)
      have room: "payload_room c" using d ip by (simp add: payload_room_def)
      have tp: "unat (in_to_process (payload_chunk bs c)) = unat (in_to_process c) - length bs"
        using minus_of_nat_less l by simp
      have cur: "unat (in_cur (payload_chunk bs c)) = unat (in_cur c) + length bs"
        using unat_plus_of_nat [of "in_cur c" "length bs"] l ip unat_u32_less [of "packet_length c"] by simp
      have pl: "in_payload (payload_chunk bs c) = Some (write_at d (unat (in_cur c)) bs)"
        using d by (simp add: payload_chunk_def)
      have wl: "length (write_at d (unat (in_cur c)) bs) = unat (packet_length c)"
        using d(2) ip l by (simp add: write_at_def)
      have "reader_ok (payload_chunk bs c)" using less.prems tp cur pl wl ip l unfolding reader_ok_def by simp
      with less.hyps [of "payload_chunk bs c" "int (length bs)" es1] tp l less.prems(2) pos room
        read_payload_Got [OF Got True, of r] show ?thesis by simp
    next
      case (Stop x es1)
      with less.prems True show ?thesis by (simp add: read_payload_stop)
    qed
  qed
qed

lemma packet_read_bounds:
  assumes "packet_read c"
  shows "reader_ok c" "in_packet c \<noteq> None" "unat (packet_length c) < 268435456"
    "packet_length c \<noteq> 0 \<longrightarrow> (\<exists>d. in_payload c = Some d \<and> length d = unat (packet_length c))"
proof -
  have "(128 :: nat) ^ nat \<bar>remaining_count c\<bar> \<le> 128 ^ 4"
    using assms by (intro power_increasing) (auto simp: packet_read_def reader_ok_def)
  moreover have "unat (packet_length c) < 128 ^ nat \<bar>remaining_count c\<bar>"
    using assms unfolding packet_read_def reader_ok_def by blast
  ultimately show "unat (packet_length c) < 268435456" by simp
qed (use assms in \<open>auto simp: packet_read_def reader_ok_def\<close>)

lemma collect_reader:
  assumes "reader_ok c"
  shows "case collect ok c es of Bad_write \<Rightarrow> False
    | Return r c' es' \<Rightarrow> r = 1 \<longrightarrow> reader_ok c'
    | Go c' r es' \<Rightarrow> packet_read c'"
proof (cases "read_command (start_packet c) (-1) es")
  case (Go c1 r1 es1)
  note rc = this
  with read_command_ok [OF reader_ok_start [OF assms], of "-1" es]
  have c1: "reader_ok c1" "in_packet c1 \<noteq> None"
    "remaining_count c1 \<le> 0 \<longrightarrow> unat (remaining_mult c1) \<le> 128 ^ nat (- remaining_count c1)" by simp_all
  show ?thesis
  proof (cases "read_remaining ok c1 r1 es1")
    case (Go c2 r2 es2)
    with read_remaining_ok [OF c1, of ok r1 es1] read_payload_ok [of c2 r2 es2] rc show ?thesis
      by (auto simp: collect_def split: read_step.splits)
  next
    case (Return r2 c2 es2)
    with read_remaining_ok [OF c1, of ok r1 es1] rc show ?thesis by (simp add: collect_def)
  next
    case Bad_write
    with read_remaining_ok [OF c1, of ok r1 es1] show ?thesis by simp
  qed
next
  case (Return r1 c1 es1)
  with read_command_ok [OF reader_ok_start [OF assms], of "-1" es] reader_ok_start [OF assms]
  show ?thesis by (simp add: collect_def)
next
  case Bad_write
  with read_command_ok [OF reader_ok_start [OF assms], of "-1" es] show ?thesis by simp
qed

lemma read_length_overlong:
  "avail es = bs @ b # rest \<Longrightarrow> \<forall>x\<in>set bs. 128 \<le> unat x \<Longrightarrow> int (length bs) = 4 + remaining_count c \<Longrightarrow>
   \<exists>c' es'. read_length c es = Return (-1) c' es'"
proof (induction bs arbitrary: c es)
  case Nil
  then obtain es' where "recv 1 es = (Got [b], es')" by (auto elim: recv_byte)
  with Nil.prems(3) show ?case by (simp add: read_length_Got)
next
  case (Cons x bs)
  then obtain es' where r: "recv 1 es = (Got [x], es')" "avail es' = bs @ b # rest" by (auto elim: recv_byte)
  with Cons.IH [OF r(2), of "length_byte x c"] Cons.prems continuation_bit [of x] show ?case
    by (simp add: read_length_Got [OF r(1)])
qed

section \<open>What reading and handling do\<close>

text \<open>C14: A packet may arrive in any pieces: when \<open>loop_read\<close> has to wait in the middle of one, a
  later call with the rest of the input has the effect that one call with all of it would have
  had.  (A packet of the reserved type 0, whose type byte would be read twice, is left out.)\<close>

theorem read_in_pieces:
  assumes "collect ok (clients bro s) es = Return 1 c' es'"
    and "packet_type c' = 0 \<longrightarrow> fst (recv 1 es) = Got_again"
  shows "loop_read base s ok False False True es bro = Ok (1, set_client s c' bro, []) \<and>
    loop_read base s ok False False True (es @ es2) bro =
      loop_read base s ok False False True es2 (set_client s c' bro)"
  using collect_pieces [OF assms, of es2] assms(1)
  by (simp add: loop_read_def cong: read_step.case_cong)

theorem read_in_pieces_witness:
  "\<exists>bro'. loop_read 0 3 True False False True ([Bytes [0x30]] @ [Bytes [4, 0, 1, 0x61, 0]]) example_broker =
     loop_read 0 3 True False False True [Bytes [4, 0, 1, 0x61, 0]] bro'"
proof -
  let ?c = "clients example_broker 3"
  let ?c' = "?c\<lparr>in_packet := Some (mqtt_parser_command message0 0x30), remaining_mult := 1\<rparr>"
  have "in_packet ?c = None" "remaining_count ?c = 0" by (simp_all add: example_broker_def client0_def)
  then have "collect True ?c [Bytes [0x30]] = Return 1 ?c' []"
    by (simp add: collect_def start_packet_def mqtt_message_init_def read_command_def zero_fields
        read_remaining_eq read_length_stop)
  moreover have "packet_type ?c' \<noteq> 0" by (simp add: mqtt_parser_command_def)
  ultimately show ?thesis
    using read_in_pieces [of True example_broker 3 "[Bytes [0x30]]" ?c' "[]" 0 "[Bytes [4, 0, 1, 0x61, 0]]"] by blast
qed

text \<open>The parse of a QoS 0 PUBLISH that has been read.\<close>

lemma publish_parsed:
  assumes cmd: "m_type (mqtt_parser_command message0 cmd) = MQTT_TYPE_PUBLISH"
      "m_qos (mqtt_parser_command message0 cmd) = 0"
    and "length t < 65536" "2 \<le> length c" "2 + length t + length c < 268435456"
  defines "m \<equiv> (mqtt_parser_command message0 cmd)\<lparr>m_length := of_nat (2 + length t + length c)\<rparr>"
  shows "parse_loop (goto p MQTT_PARSER_STATE_INITIAL) m (utf8_field t @ c) (unat (m_length m)) 0 =
    Some (PReturn MQTT_PARSER_RC_DONE (goto p MQTT_PARSER_STATE_INITIAL)
      (m\<lparr>m_publish := \<lparr>topic_name = buf t c, pub_message_id = 0, content = buf c []\<rparr>\<rparr>) (2 + length t + length c))"
proof -
  let ?pl = "utf8_field t @ c" and ?n = "2 + length t + length c"
  have ln: "length ?pl = ?n" by simp
  have "unat (of_nat ?n :: u32) = ?n" by (rule unat_of_nat_u32_small) (use assms(5) in simp)
  then have len: "unat (m_length m) = ?n" by (simp add: m_def)
  have "mqtt_parser_execute (goto p MQTT_PARSER_STATE_INITIAL) m ?pl (length ?pl) 0 =
      Some (PReturn MQTT_PARSER_RC_DONE (goto p MQTT_PARSER_STATE_INITIAL)
        (m\<lparr>m_publish := \<lparr>topic_name = buf t c, pub_message_id = 0, content = buf c []\<rparr>\<rparr>) (length ?pl))"
    using parse_publish_run [of "goto p MQTT_PARSER_STATE_INITIAL" m ?pl t c] assms(1-5) ln
    by (simp add: qos_acked_def m_def)
  then show ?thesis unfolding len ln by (rule parse_loop_done) simp_all
qed

text \<open>From the bytes of a publisher to the queues of the subscribers: when a client between two
  packets sends a complete QoS 0 PUBLISH, \<open>loop_read\<close> consumes exactly its bytes and puts, for
  every subscription of a filter that matches the topic, one packet with this topic and content
  at the end of the queue of its client; no other queue changes, and the publisher is again
  between two packets.\<close>

lemma publish_end_to_end:
  assumes "tree_ok bro" "mem_alloc bro = []" "\<forall>x. queued (clients bro x) (qs x)" "idle (clients bro s)"
    and cmd: "m_type (mqtt_parser_command message0 cmd) = MQTT_TYPE_PUBLISH"
      "m_qos (mqtt_parser_command message0 cmd) = 0"
    and t: "0 \<notin> set t" "pub_topic_ok t" "pub_topic_valid (Some (t @ c)) \<noteq> None"
    and c: "2 \<le> length c" "2 + length t + length c < 268435456"
    and es: "avail es = cmd # varint (2 + length t + length c) @ utf8_field t @ c @ rest"
  shows "\<exists>fs r bro' es'. distinct fs \<and> set fs = {f. mqtt_matches f t \<and> sub_leaves bro f \<noteq> []} \<and>
    loop_read base s True False False True es bro = Ok (r, bro', es') \<and> 0 < r \<and> avail es' = rest \<and>
    idle (clients bro' s) \<and>
    (\<forall>x. got (sized_packet (publish_bytes t c)) (\<Sum>f\<leftarrow>fs. leaf_count (sub_leaves bro f) x)
       (clients bro x) (qs x) (clients bro' x))"
proof -
  let ?pl = "utf8_field t @ c" and ?n = "2 + length t + length c" and ?c = "clients bro s"
  let ?m = "(mqtt_parser_command message0 cmd)\<lparr>m_length := of_nat ?n\<rparr>"
  have lt: "length t < 65536" using t(2) by (simp add: pub_topic_ok_def)
  have ln: "length ?pl = ?n" by simp
  let ?c1 = "?c\<lparr>in_packet := Some ?m, remaining_count := int (length (varint ?n)),
      remaining_mult := 128 ^ length (varint ?n), in_payload := Some ?pl, in_to_process := 0, in_cur := of_nat ?n\<rparr>"
  obtain r es' where col: "collect True ?c es = Go ?c1 r es'" "0 < r" "avail es' = rest"
    using collect_avail [OF assms(4), of es cmd ?pl rest] es c(2) unfolding ln by (auto simp: utf8_field_def be16_bytes_def)
  let ?p = "goto (in_parser ?c) MQTT_PARSER_STATE_INITIAL"
  let ?m' = "?m\<lparr>m_publish := \<lparr>topic_name = buf t c, pub_message_id = 0, content = buf c []\<rparr>\<rparr>"
  let ?c2 = "?c1\<lparr>in_cur := 0, remaining_count := 0, in_parser := ?p, in_packet := Some ?m'\<rparr>"
  let ?b = "set_client s ?c2 bro"
  have "\<forall>x. queued (clients ?b x) (qs x)" using assms(3) by simp
  moreover have "m_qos ?m' = 0" "bdata (topic_name (m_publish ?m')) = Some (t @ c)"
    "buf_str (topic_name (m_publish ?m')) = Some t" "buf_str (content (m_publish ?m')) = Some c"
    using cmd(2) lt c(2) by (simp_all add: buf_def buf_str_def mem_read_def)
  ultimately obtain fs bro1 where 1: "distinct fs" "set fs = {f. mqtt_matches f t \<and> sub_leaves bro f \<noteq> []}"
    "handle_publish s ?m' ?b = Ok (0, bro1)"
    "\<forall>x. got (sized_packet (publish_bytes t c)) (\<Sum>f\<leftarrow>fs. leaf_count (sub_leaves bro f) x)
       (clients ?b x) (qs x) (clients bro1 x) \<and> reader (clients bro1 x) = reader (clients ?b x)"
    using publish_handled_run [of ?b qs ?m' "t @ c" t c s] assms(1,2) t c(2) by auto
  let ?b1 = "set_client s ((clients bro1 s)\<lparr>in_packet := None\<rparr>) bro1"
  let ?b2 = "set_client s ((clients ?b1 s)\<lparr>in_payload := None\<rparr>) ?b1"
  have h: "handle_mqtt_command base s ?b = Ok (0, ?b1)"
    using 1(3) cmd(1) by (simp add: handle_mqtt_command_def)
  have parse: "parse_loop (goto (in_parser ?c1) MQTT_PARSER_STATE_INITIAL) ?m ?pl (unat (m_length ?m)) 0 =
      Some (PReturn MQTT_PARSER_RC_DONE ?p ?m' ?n)" using publish_parsed [OF cmd lt c, of "in_parser ?c"] by simp
  have fin: "finish_packet_in base s r (set_client s ?c1 bro) = Ok (r, ?b2)"
    by (rule finish_packet_done [OF _ _ parse h]) simp_all
  have "loop_read base s True False False True es bro = Ok (r, ?b2, es')"
    using col(1) fin by (simp add: loop_read_def)
  moreover have "idle (clients ?b2 s)" using 1(4) [rule_format, of s] by (simp add: idle_def reader_def)
  moreover have "got (sized_packet (publish_bytes t c)) (\<Sum>f\<leftarrow>fs. leaf_count (sub_leaves bro f) x)
       (clients bro x) (qs x) (clients ?b2 x)" for x
    using 1(4) [rule_format, of x] by (cases "x = s") (simp_all add: got_def Let_def)
  ultimately show ?thesis using 1(1,2) col(2,3)
    by (intro exI [of _ fs] exI [of _ r] exI [of _ ?b2] exI [of _ es']) simp
qed

text \<open>C18: Reading never writes outside the payload's buffer, whatever the socket delivers and in
  whatever pieces: a client whose reading state is consistent is left consistent when
  \<open>loop_read\<close> waits for more, and once a packet is complete its payload has exactly the
  announced length, which is below $2^{28}$.\<close>

theorem reading_stays_inside:
  assumes "reader_ok c"
  shows "case collect ok c es of Bad_write \<Rightarrow> False
    | Return r c' es' \<Rightarrow> r = 1 \<longrightarrow> reader_ok c'
    | Go c' r es' \<Rightarrow> reader_ok c' \<and> in_packet c' \<noteq> None \<and> unat (packet_length c') < 268435456 \<and>
        (packet_length c' \<noteq> 0 \<longrightarrow> (\<exists>d. in_payload c' = Some d \<and> length d = unat (packet_length c')))"
  using collect_reader [OF assms, of ok es] packet_read_bounds by (auto split: read_step.splits simp del: not_None_eq)

theorem reading_stays_inside_witness:
  "case collect True client0 [Bytes [0x30, 2], Bytes [7]] of Bad_write \<Rightarrow> False
    | Return r c' es' \<Rightarrow> r = 1 \<longrightarrow> reader_ok c' | Go c' r es' \<Rightarrow> True"
proof -
  have "idle client0" by (simp add: idle_def client0_def)
  from reading_stays_inside [OF reader_ok_idle [OF this], of True "[Bytes [0x30, 2], Bytes [7]]"]
  show ?thesis by (simp split: read_step.splits)
qed

text \<open>A remaining length of more than four bytes is a protocol error: \<open>loop_read\<close> returns -1,
  for which the caller removes the client.\<close>

lemma overlong_length_rejected:
  assumes "idle (clients bro s)" "avail es = cmd # bs @ b # rest" "length bs = 4"
    and "\<forall>x\<in>set bs. 128 \<le> unat x"
  shows "\<exists>bro' es'. loop_read base s ok False False True es bro = Ok (-1, bro', es')"
proof -
  let ?c = "clients bro s"
  let ?c1 = "?c\<lparr>in_packet := Some (mqtt_parser_command message0 cmd), remaining_mult := 1\<rparr>"
  obtain es1 where r: "recv 1 es = (Got [cmd], es1)" "avail es1 = bs @ b # rest"
    using recv_byte [OF assms(2)] by blast
  have rc: "remaining_count ?c1 = 0" using assms(1) by (simp add: idle_def)
  have "read_command (start_packet ?c) (-1) es = Go ?c1 1 es1"
    using r(1) assms(1) by (simp add: idle_def start_packet_def mqtt_message_init_def read_command_def zero_fields)
  moreover obtain c' es' where "read_length ?c1 es1 = Return (-1) c' es'"
    using read_length_overlong [OF r(2) assms(4), of ?c1] assms(3) rc by auto
  ultimately have "collect ok ?c es = Return (-1) c' es'" using rc by (simp add: collect_def read_remaining_eq)
  then show ?thesis by (simp add: loop_read_def)
qed

end
