(* ===== verification/Uthash_Facts.thy ===== *)
theory Uthash_Facts
  imports Uthash
begin

text \<open>
  The hash table as a list: the elements in the order in which they were added.  The links in
  application order and the chains of the buckets are two kinds of doubly linked lists over the
  same elements; adding, deleting and doubling the buckets keep both.
\<close>

section \<open>Doubly linked lists\<close>

text \<open>The list \<open>xs\<close> hangs at the pointer \<open>h\<close>, its first element pointing back to \<open>p\<close>.\<close>

fun dll :: "('e \<Rightarrow> 'e option) \<Rightarrow> ('e \<Rightarrow> 'e option) \<Rightarrow> 'e option \<Rightarrow> 'e option \<Rightarrow> 'e list \<Rightarrow> bool" where
  "dll nx pv p h [] \<longleftrightarrow> h = None"
| "dll nx pv p h (x # xs) \<longleftrightarrow> h = Some x \<and> pv x = p \<and> dll nx pv (Some x) (nx x) xs"

lemma dll_cong:
  "(\<And>x. x \<in> set xs \<Longrightarrow> nx x = nx' x \<and> pv x = pv' x) \<Longrightarrow> dll nx pv p h xs = dll nx' pv' p h xs"
  by (induction xs arbitrary: p h) auto

lemma dll_upd [simp]:
  "e \<notin> set xs \<Longrightarrow> dll (nx(e := a)) pv p h xs = dll nx pv p h xs"
  "e \<notin> set xs \<Longrightarrow> dll nx (pv(e := a)) p h xs = dll nx pv p h xs"
  by (rule dll_cong; auto)+

lemma dll_head: "dll nx pv p h xs \<Longrightarrow> h = (if xs = [] then None else Some (hd xs))"
  by (cases xs) auto

lemma dll_push:
  assumes "dll nx pv None h xs" "e \<notin> set xs" "distinct xs"
  shows "dll (nx(e := h)) ((case h of None \<Rightarrow> pv | Some x \<Rightarrow> pv(x := Some e))(e := None)) None (Some e) (e # xs)"
  using assms by (cases xs) auto

lemma dll_snoc:
  "dll nx pv p h xs \<Longrightarrow> e \<notin> set xs \<Longrightarrow> distinct xs \<Longrightarrow> xs \<noteq> [] \<Longrightarrow>
   dll (nx(e := None, last xs := Some e)) (pv(e := Some (last xs))) p h (xs @ [e])"
proof (induction xs arbitrary: p h)
  case (Cons x xs)
  show ?case
  proof (cases "xs = []")
    case False
    with Cons have "last xs \<noteq> x" "x \<noteq> e" by auto
    with Cons False show ?thesis by auto
  qed (use Cons in auto)
qed simp

lemma dll_delete:
  "dll nx pv p h (as @ e # bs) \<Longrightarrow> distinct (as @ e # bs) \<Longrightarrow>
   dll (if as = [] then nx else nx(last as := nx e))
     (if bs = [] then pv else pv(hd bs := (if as = [] then p else Some (last as))))
     p (if as = [] then nx e else h) (as @ bs)"
proof (induction as arbitrary: p h)
  case Nil
  show ?case
  proof (cases bs)
    case (Cons y ys)
    with Nil have "dll nx pv (Some y) (nx y) ys" "y \<notin> set ys" "nx e = Some y" by auto
    then have "dll nx (pv(y := p)) (Some y) (nx y) ys" using dll_upd(2) [of y ys nx pv p] by blast
    with Cons \<open>nx e = Some y\<close> show ?thesis by (simp add: fun_upd_def)
  qed (use Nil in simp)
next
  case (Cons a as)
  from Cons.prems have d: "dll nx pv (Some a) (nx a) (as @ e # bs)" "distinct (as @ e # bs)" "h = Some a"
    "pv a = p" "a \<notin> set as" "a \<noteq> e" "a \<notin> set bs" by auto
  note IH = Cons.IH [OF d(1,2)]
  show ?case
  proof (cases "as = []")
    case True
    with IH d have "dll nx (if bs = [] then pv else pv(hd bs := Some a)) (Some a) (nx e) bs"
      by (cases "bs = []") (simp_all add: fun_upd_def)
    then have "dll (nx(a := nx e)) (if bs = [] then pv else pv(hd bs := Some a)) (Some a) (nx e) bs"
      using dll_upd(1) [OF d(7)] by blast
    moreover have "bs \<noteq> [] \<Longrightarrow> hd bs \<noteq> a" using d(7) by (cases bs) auto
    ultimately show ?thesis using True d by (auto simp: fun_upd_def)
  next
    case False
    then have "last as \<noteq> a" using d(5) by auto
    moreover have "bs \<noteq> [] \<Longrightarrow> hd bs \<noteq> a" using d(7) by (cases bs) auto
    ultimately show ?thesis using IH False d by (auto simp: fun_upd_def)
  qed
qed

lemma dll_links:
  "dll nx pv p h (as @ e # bs) \<Longrightarrow>
   pv e = (if as = [] then p else Some (last as)) \<and> nx e = (if bs = [] then None else Some (hd bs))"
  by (induction as arbitrary: p h) (auto dest: dll_head)

lemma dll_head_eq:
  "dll nx pv p h (as @ e # bs) \<Longrightarrow> distinct (as @ e # bs) \<Longrightarrow> h = Some e \<longleftrightarrow> as = []"
  by (cases as) auto

section \<open>Handles\<close>

lemma set_hh_app [simp]: "set_hh e f hs x = (if x = e then f (hs e) else hs x)"
  by (simp add: set_hh_def)

text \<open>Two handles that agree outside the links of the chains, and outside those in application order.\<close>

definition same_app :: "'e handles \<Rightarrow> 'e handles \<Rightarrow> bool" where
  "same_app hs hs' \<longleftrightarrow> (\<forall>x. prev (hs' x) = prev (hs x) \<and> next_el (hs' x) = next_el (hs x) \<and>
     hashv (hs' x) = hashv (hs x))"

text \<open>With the links of the chains the handle is complete.\<close>

lemma handle_eqI:
  assumes "same_app hs hs'" "hh_next (hs' x) = hh_next (hs x)" "hh_prev (hs' x) = hh_prev (hs x)"
  shows "hs' x = hs x"
  using assms by (intro ut_hash_handle.equality) (simp_all add: same_app_def)

lemma same_app_refl [simp]: "same_app hs hs"
  by (simp add: same_app_def)

lemma same_app_trans: "same_app a b \<Longrightarrow> same_app b c \<Longrightarrow> same_app a c"
  by (simp add: same_app_def)

definition app_list :: "'e handles \<Rightarrow> 'e option \<Rightarrow> 'e list \<Rightarrow> bool" where
  "app_list hs h xs \<longleftrightarrow> dll (\<lambda>x. next_el (hs x)) (\<lambda>x. prev (hs x)) None h xs"

definition chain_list :: "'e handles \<Rightarrow> 'e option \<Rightarrow> 'e list \<Rightarrow> bool" where
  "chain_list hs h xs \<longleftrightarrow> dll (\<lambda>x. hh_next (hs x)) (\<lambda>x. hh_prev (hs x)) None h xs"

lemma app_list_same: "same_app hs hs' \<Longrightarrow> app_list hs' h xs = app_list hs h xs"
  unfolding app_list_def same_app_def by (rule dll_cong) auto

lemma chain_list_cong:
  "(\<And>x. x \<in> set xs \<Longrightarrow> hh_next (hs x) = hh_next (hs' x) \<and> hh_prev (hs x) = hh_prev (hs' x)) \<Longrightarrow>
   chain_list hs h xs = chain_list hs' h xs"
  unfolding chain_list_def by (rule dll_cong)

lemma hash_to_bkt_mod: "hash_to_bkt hv (2 ^ k) = unat hv mod 2 ^ k"
  by (simp add: hash_to_bkt_def take_bit_eq_mask mask_eq_exp_minus_1 flip: take_bit_eq_mod)

lemma hash_to_bkt_less [simp]: "hash_to_bkt hv (2 ^ k) < 2 ^ k"
  by (simp add: hash_to_bkt_mod)

section \<open>Buckets\<close>

definition bucket_ok :: "'e handles \<Rightarrow> 'e ut_hash_bucket \<Rightarrow> 'e set \<Rightarrow> bool" where
  "bucket_ok hs b A \<longleftrightarrow> (\<exists>ys. distinct ys \<and> set ys = A \<and> chain_list hs (hh_head b) ys \<and> bkt_count b = length ys)"

definition in_bkt :: "'e handles \<Rightarrow> nat \<Rightarrow> 'e set \<Rightarrow> nat \<Rightarrow> 'e set" where
  "in_bkt hs n S i = {x \<in> S. hash_to_bkt (hashv (hs x)) n = i}"

definition bkts_ok :: "'e handles \<Rightarrow> 'e ut_hash_bucket list \<Rightarrow> nat \<Rightarrow> 'e set \<Rightarrow> bool" where
  "bkts_ok hs bs n S \<longleftrightarrow> length bs = n \<and> (\<forall>i < n. bucket_ok hs (bs ! i) (in_bkt hs n S i))"

lemma bucket_ok_cong:
  "(\<And>x. x \<in> A \<Longrightarrow> hh_next (hs x) = hh_next (hs' x) \<and> hh_prev (hs x) = hh_prev (hs' x)) \<Longrightarrow>
   bucket_ok hs b A = bucket_ok hs' b A"
  unfolding bucket_ok_def by (metis chain_list_cong)

lemma bucket_ok_fields:
  "hh_head b' = hh_head b \<Longrightarrow> bkt_count b' = bkt_count b \<Longrightarrow> bucket_ok hs b' A = bucket_ok hs b A"
  by (simp add: bucket_ok_def)

lemma push_bkt_same: "push_bkt e hs b = (hs', b') \<Longrightarrow> same_app hs hs'"
  by (auto simp: push_bkt_def same_app_def Let_def split: option.splits)

lemma push_bkt_bucket:
  "push_bkt e hs b = (hs', b') \<Longrightarrow> bkt_count b' = bkt_count b \<and> expand_mult b' = expand_mult b"
  by (auto simp: push_bkt_def Let_def)

lemma push_bkt_ok:
  assumes "bucket_ok hs b A" "e \<notin> A" "push_bkt e hs (b\<lparr>bkt_count := bkt_count b + 1, expand_mult := m\<rparr>) = (hs', b')"
  shows "bucket_ok hs' b' (insert e A)"
    "x \<notin> insert e A \<Longrightarrow> hs' x = hs x"
proof -
  from assms(1) obtain ys where ys: "distinct ys" "set ys = A" "chain_list hs (hh_head b) ys"
    "bkt_count b = length ys" by (auto simp: bucket_ok_def)
  have hd: "\<And>z. hh_head b = Some z \<Longrightarrow> z \<in> A"
    using ys(2,3) by (cases ys) (auto simp: chain_list_def)
  from assms(3) have hs': "hs' = (case hh_head b of None \<Rightarrow> set_hh e (\<lambda>h. h\<lparr>hh_next := hh_head b, hh_prev := None\<rparr>) hs
      | Some z \<Rightarrow> set_hh z (\<lambda>h. h\<lparr>hh_prev := Some e\<rparr>) (set_hh e (\<lambda>h. h\<lparr>hh_next := hh_head b, hh_prev := None\<rparr>) hs))"
    "hh_head b' = Some e" "bkt_count b' = bkt_count b + 1"
    by (auto simp: push_bkt_def Let_def)
  show "hs' x = hs x" if "x \<notin> insert e A"
    using that hd by (auto simp: hs'(1) split: option.split)
  have "(\<lambda>x. hh_next (hs' x)) = (\<lambda>x. hh_next (hs x))(e := hh_head b)"
    using hd assms(2) by (auto simp: hs'(1) split: option.split)
  moreover have "(\<lambda>x. hh_prev (hs' x)) = (case hh_head b of None \<Rightarrow> (\<lambda>x. hh_prev (hs x))
      | Some z \<Rightarrow> (\<lambda>x. hh_prev (hs x))(z := Some e))(e := None)"
    using hd assms(2) by (auto simp: hs'(1) split: option.split)
  ultimately have "chain_list hs' (Some e) (e # ys)"
    using dll_push [of "\<lambda>x. hh_next (hs x)" "\<lambda>x. hh_prev (hs x)" "hh_head b" ys e] ys assms(2)
    by (simp add: chain_list_def)
  then show "bucket_ok hs' b' (insert e A)"
    using ys assms(2) hs'(2,3) unfolding bucket_ok_def by (intro exI [of _ "e # ys"]) simp
qed

lemma in_bkt_same: "same_app hs hs' \<Longrightarrow> in_bkt hs' n S i = in_bkt hs n S i"
  by (simp add: in_bkt_def same_app_def)

lemma bkts_push:
  assumes "bkts_ok hs bs n S" "e \<notin> S" "i = hash_to_bkt (hashv (hs e)) n" "i < n"
    and "push_bkt e hs ((bs ! i)\<lparr>bkt_count := bkt_count (bs ! i) + 1, expand_mult := m\<rparr>) = (hs', b')"
  shows "bkts_ok hs' (bs[i := b']) n (insert e S)" "x \<notin> insert e S \<Longrightarrow> hs' x = hs x"
proof -
  have b: "bucket_ok hs (bs ! i) (in_bkt hs n S i)" using assms(1,4) by (simp add: bkts_ok_def)
  have e: "e \<notin> in_bkt hs n S i" using assms(2) by (simp add: in_bkt_def)
  note p = push_bkt_ok [OF b e assms(5)] and s = push_bkt_same [OF assms(5)]
  show "hs' x = hs x" if "x \<notin> insert e S"
    using p(2) that by (auto simp: in_bkt_def)
  have ins: "in_bkt hs n (insert e S) j = (if j = i then insert e (in_bkt hs n S i) else in_bkt hs n S j)" for j
    using assms(3) by (auto simp: in_bkt_def)
  have "bucket_ok hs' (bs[i := b'] ! j) (in_bkt hs n (insert e S) j)" if "j < n" for j
  proof (cases "j = i")
    case True
    with p(1) assms(1,4) ins show ?thesis by (simp add: bkts_ok_def)
  next
    case False
    have "bucket_ok hs (bs ! j) (in_bkt hs n S j)" using assms(1) that by (simp add: bkts_ok_def)
    moreover have "x \<in> in_bkt hs n S j \<Longrightarrow> hh_next (hs x) = hh_next (hs' x) \<and> hh_prev (hs x) = hh_prev (hs' x)" for x
      using p(2) [of x] False assms(2) by (cases "x = e") (auto simp: in_bkt_def)
    ultimately show ?thesis using False ins bucket_ok_cong [of "in_bkt hs n S j" hs hs'] by simp
  qed
  then show "bkts_ok hs' (bs[i := b']) n (insert e S)"
    using assms(1) in_bkt_same [OF s] by (simp add: bkts_ok_def)
qed


section \<open>Doubling the buckets\<close>

text \<open>The chain that starts at \<open>h\<close>, as the code walks it.\<close>

fun path :: "('e \<Rightarrow> 'e option) \<Rightarrow> 'e option \<Rightarrow> 'e list \<Rightarrow> bool" where
  "path nx h [] \<longleftrightarrow> h = None"
| "path nx h (x # xs) \<longleftrightarrow> h = Some x \<and> path nx (nx x) xs"

lemma path_cong: "(\<And>x. x \<in> set xs \<Longrightarrow> nx x = nx' x) \<Longrightarrow> path nx h xs = path nx' h xs"
  by (induction xs arbitrary: h) auto

lemma dll_path: "dll nx pv p h xs \<Longrightarrow> path nx h xs"
  by (induction xs arbitrary: p h) auto

lemma expand_chain_ok:
  assumes "path (\<lambda>x. hh_next (hs x)) h ys" "length ys \<le> fuel" "distinct ys" "set ys \<inter> S = {}"
    and "bkts_ok hs bs (2 ^ k) S"
  shows "\<exists>hs' bs' non'. expand_chain fuel h (2 ^ k) ideal (hs, bs, non) = Ok (hs', bs', non') \<and>
    same_app hs hs' \<and> bkts_ok hs' bs' (2 ^ k) (S \<union> set ys) \<and>
    (\<forall>x. x \<notin> S \<union> set ys \<longrightarrow> hs' x = hs x)"
  using assms
proof (induction ys arbitrary: h fuel S hs bs non)
  case (Cons e ys)
  then obtain f where f: "fuel = Suc f" "length ys \<le> f" by (cases fuel) auto
  let ?i = "hash_to_bkt (hashv (hs e)) (2 ^ k)"
  let ?b = "(bs ! ?i)\<lparr>bkt_count := bkt_count (bs ! ?i) + 1\<rparr>"
  define m where "m = (if ideal < bkt_count ?b then bkt_count ?b div ideal else expand_mult (bs ! ?i))"
  define n1 where "n1 = (if ideal < bkt_count ?b then non + 1 else non)"
  obtain hs1 b1 where p: "push_bkt e hs ((bs ! ?i)\<lparr>bkt_count := bkt_count (bs ! ?i) + 1, expand_mult := m\<rparr>) = (hs1, b1)"
    by fastforce
  have step: "expand_chain fuel h (2 ^ k) ideal (hs, bs, non) =
      expand_chain f (hh_next (hs e)) (2 ^ k) ideal (hs1, bs[?i := b1], n1)"
    using Cons.prems(1) f(1) p by (simp add: Let_def m_def n1_def split: if_splits)
  have e: "e \<notin> S" "e \<notin> set ys" using Cons.prems(3,4) by auto
  note ok = bkts_push [OF Cons.prems(5) e(1) refl hash_to_bkt_less p]
  have "path (\<lambda>x. hh_next (hs1 x)) (hh_next (hs e)) ys"
  proof -
    have "path (\<lambda>x. hh_next (hs x)) (hh_next (hs e)) ys" using Cons.prems(1) by simp
    moreover have "x \<in> set ys \<Longrightarrow> hh_next (hs x) = hh_next (hs1 x)" for x
      using ok(2) [of x] Cons.prems(4) e by (cases "x = e") (auto simp: disjoint_iff)
    ultimately show ?thesis using path_cong [of ys "\<lambda>x. hh_next (hs x)" "\<lambda>x. hh_next (hs1 x)"] by blast
  qed
  moreover have "set ys \<inter> insert e S = {}" using Cons.prems(4) e by auto
  ultimately obtain hs' bs' non' where 1:
    "expand_chain f (hh_next (hs e)) (2 ^ k) ideal (hs1, bs[?i := b1], n1) = Ok (hs', bs', non')"
    "same_app hs1 hs'" "bkts_ok hs' bs' (2 ^ k) (insert e S \<union> set ys)"
    "\<forall>x. x \<notin> insert e S \<union> set ys \<longrightarrow> hs' x = hs1 x"
    using Cons.IH [of hs1 "hh_next (hs e)" f "insert e S" "bs[?i := b1]" n1] f(2) Cons.prems(3) ok(1) by auto
  have "same_app hs hs'" using push_bkt_same [OF p] 1(2) by (rule same_app_trans)
  moreover have "\<forall>x. x \<notin> S \<union> set (e # ys) \<longrightarrow> hs' x = hs x"
    using 1(4) ok(2) by auto
  ultimately show ?case using step 1(1,3) by auto
qed auto

lemma expand_all_ok:
  assumes "list_all2 (\<lambda>b ys. path (\<lambda>x. hh_next (hs x)) (hh_head b) ys) old yss"
    and "distinct (concat yss)" "\<forall>ys \<in> set yss. length ys \<le> fuel" "set (concat yss) \<inter> S = {}"
    and "bkts_ok hs bs (2 ^ k) S"
  shows "\<exists>hs' bs' non'. expand_all fuel old (2 ^ k) ideal (hs, bs, non) = Ok (hs', bs', non') \<and>
    same_app hs hs' \<and> bkts_ok hs' bs' (2 ^ k) (S \<union> set (concat yss)) \<and>
    (\<forall>x. x \<notin> S \<union> set (concat yss) \<longrightarrow> hs' x = hs x)"
  using assms
proof (induction old arbitrary: yss S hs bs non)
  case (Cons b old)
  then obtain ys zss where y: "yss = ys # zss" "path (\<lambda>x. hh_next (hs x)) (hh_head b) ys"
    "list_all2 (\<lambda>b ys. path (\<lambda>x. hh_next (hs x)) (hh_head b) ys) old zss"
    by (auto simp: list_all2_Cons1)
  have d: "length ys \<le> fuel" "distinct ys" "set ys \<inter> S = {}" using Cons.prems(2-4) y(1) by auto
  obtain hs1 bs1 non1 where 1: "expand_chain fuel (hh_head b) (2 ^ k) ideal (hs, bs, non) = Ok (hs1, bs1, non1)"
    "same_app hs hs1" "bkts_ok hs1 bs1 (2 ^ k) (S \<union> set ys)"
    "\<forall>x. x \<notin> S \<union> set ys \<longrightarrow> hs1 x = hs x"
    using expand_chain_ok [OF y(2) d Cons.prems(5)] by blast
  have keep: "path (\<lambda>x. hh_next (hs1 x)) h zs" if "zs \<in> set zss" "path (\<lambda>x. hh_next (hs x)) h zs" for h zs
  proof -
    have "x \<in> set zs \<Longrightarrow> hh_next (hs x) = hh_next (hs1 x)" for x
      using 1(4) that(1) Cons.prems(2,4) y(1) by fastforce
    then show ?thesis using that(2) path_cong [of zs "\<lambda>x. hh_next (hs x)" "\<lambda>x. hh_next (hs1 x)"] by blast
  qed
  have "list_all2 (\<lambda>b ys. path (\<lambda>x. hh_next (hs1 x)) (hh_head b) ys) old zss"
    using y(3) keep by (auto simp: list_all2_conv_all_nth)
  moreover have "distinct (concat zss)" "\<forall>ys \<in> set zss. length ys \<le> fuel"
    "set (concat zss) \<inter> (S \<union> set ys) = {}" using Cons.prems(2-4) y(1) by auto
  ultimately obtain hs' bs' non' where
    "expand_all fuel old (2 ^ k) ideal (hs1, bs1, non1) = Ok (hs', bs', non')" "same_app hs1 hs'"
    "bkts_ok hs' bs' (2 ^ k) (S \<union> set ys \<union> set (concat zss))"
    "\<forall>x. x \<notin> S \<union> set ys \<union> set (concat zss) \<longrightarrow> hs' x = hs1 x"
    using Cons.IH [of hs1 zss "S \<union> set ys" bs1 non1] 1(3) by blast
  with 1(1,2,4) y(1) show ?case by (auto simp: Un_assoc intro: same_app_trans)
qed auto

section \<open>The table as a list\<close>

definition hash_ok :: "'e hash_state \<Rightarrow> 'e list \<Rightarrow> bool" where
  "hash_ok H xs \<longleftrightarrow> distinct xs \<and> app_list (handles H) (head H) xs \<and>
     (xs \<noteq> [] \<longrightarrow> (\<exists>t. tbl H = Some t \<and> tail t = last xs \<and> num_items t = length xs \<and>
        num_buckets t = 2 ^ log2_num_buckets t \<and>
        bkts_ok (handles H) (buckets t) (num_buckets t) (set xs)))"

lemma bkts_chains:
  assumes "bkts_ok hs bs n S" "finite S" "\<forall>x \<in> S. hash_to_bkt (hashv (hs x)) n < n"
  obtains yss where "list_all2 (\<lambda>b ys. path (\<lambda>x. hh_next (hs x)) (hh_head b) ys) bs yss"
    "distinct (concat yss)" "set (concat yss) = S" "\<forall>ys \<in> set yss. length ys \<le> card S"
proof -
  have "\<forall>i < n. \<exists>ys. distinct ys \<and> set ys = in_bkt hs n S i \<and> chain_list hs (hh_head (bs ! i)) ys"
    using assms(1) by (auto simp: bkts_ok_def bucket_ok_def)
  then obtain f where f: "\<And>i. i < n \<Longrightarrow> distinct (f i) \<and> set (f i) = in_bkt hs n S i \<and>
      chain_list hs (hh_head (bs ! i)) (f i)" by metis
  let ?yss = "map f [0..<n]"
  have "list_all2 (\<lambda>b ys. path (\<lambda>x. hh_next (hs x)) (hh_head b) ys) bs ?yss"
    using f assms(1) by (auto simp: list_all2_conv_all_nth bkts_ok_def chain_list_def intro: dll_path)
  moreover have "set (concat ?yss) = S"
    using f assms(3) by (auto simp: in_bkt_def)
  moreover have "distinct (concat (map f [0..<m]))" if "m \<le> n" for m
    using that
  proof (induction m)
    case (Suc m)
    then show ?case using f by (fastforce simp: in_bkt_def)
  qed simp
  then have "distinct (concat ?yss)" by simp
  moreover have "\<forall>ys \<in> set ?yss. length ys \<le> card S"
  proof
    fix ys assume "ys \<in> set ?yss"
    then obtain i where i: "i < n" "ys = f i" by auto
    with f have "distinct ys" "set ys \<subseteq> S" by (auto simp: in_bkt_def)
    then show "length ys \<le> card S" using assms(2) by (metis card_mono distinct_card)
  qed
  ultimately show ?thesis using that [of ?yss] by blast
qed

lemma hash_expand_ok:
  assumes "bkts_ok hs (buckets t) (num_buckets t) S" "finite S" "num_items t = card S"
    and "num_buckets t = 2 ^ log2_num_buckets t"
  shows "\<exists>hs' t'. hash_expand_buckets hs t = Ok (hs', t') \<and> same_app hs hs' \<and>
    tail t' = tail t \<and> num_items t' = num_items t \<and> num_buckets t' = 2 ^ log2_num_buckets t' \<and>
    bkts_ok hs' (buckets t') (num_buckets t') S \<and> (\<forall>x. x \<notin> S \<longrightarrow> hs' x = hs x)"
proof -
  let ?k = "Suc (log2_num_buckets t)"
  have k: "num_buckets t * 2 = 2 ^ ?k" using assms(4) by simp
  have "\<forall>x \<in> S. hash_to_bkt (hashv (hs x)) (num_buckets t) < num_buckets t" using assms(4) by simp
  from bkts_chains [OF assms(1,2) this] obtain yss where yss:
    "list_all2 (\<lambda>b ys. path (\<lambda>x. hh_next (hs x)) (hh_head b) ys) (buckets t) yss"
    "distinct (concat yss)" "set (concat yss) = S" "\<forall>ys \<in> set yss. length ys \<le> card S" by blast
  have empty: "bkts_ok hs (replicate (2 ^ ?k) bucket0) (2 ^ ?k) {}"
    by (auto simp: bkts_ok_def bucket_ok_def in_bkt_def bucket0_def chain_list_def)
  let ?ideal = "drop_bit (log2_num_buckets t + 1) (num_items t) +
            (if num_items t AND (2 ^ ?k - 1) \<noteq> 0 then 1 else 0)"
  obtain hs' bs' non' where
    "expand_all (num_items t) (buckets t) (2 ^ ?k) ?ideal (hs, replicate (2 ^ ?k) bucket0, 0) = Ok (hs', bs', non')"
    "same_app hs hs'" "bkts_ok hs' bs' (2 ^ ?k) S" "\<forall>x. x \<notin> S \<longrightarrow> hs' x = hs x"
    using expand_all_ok [OF yss(1,2) _ _ empty, of "num_items t" ?ideal 0] yss(3,4) assms(3) by auto
  then show ?thesis
    by (simp add: hash_expand_buckets_def k Let_def)
qed


lemma hash_add_to_bkt_ok:
  assumes "bkts_ok hs (buckets t) (num_buckets t) S" "finite S" "e \<notin> S" "num_items t = card S + 1"
    and "num_buckets t = 2 ^ log2_num_buckets t" "i = hash_to_bkt (hashv (hs e)) (num_buckets t)"
  shows "\<exists>hs' t'. hash_add_to_bkt i e hs t = Ok (hs', t') \<and> same_app hs hs' \<and>
    tail t' = tail t \<and> num_items t' = num_items t \<and> num_buckets t' = 2 ^ log2_num_buckets t' \<and>
    bkts_ok hs' (buckets t') (num_buckets t') (insert e S) \<and>
    (\<forall>x. x \<notin> insert e S \<longrightarrow> hs' x = hs x)"
proof -
  let ?b = "buckets t ! i"
  obtain hs1 b1 where p: "push_bkt e hs (?b\<lparr>bkt_count := bkt_count ?b + 1, expand_mult := expand_mult ?b\<rparr>) = (hs1, b1)"
    by fastforce
  have i: "i < num_buckets t" unfolding assms(6) using assms(5) by simp
  let ?t = "t\<lparr>buckets := (buckets t)[i := b1]\<rparr>"
  have ok: "bkts_ok hs1 (buckets ?t) (num_buckets ?t) (insert e S)"
    using bkts_push(1) [OF assms(1,3,6) i p] by simp
  have out: "x \<notin> insert e S \<Longrightarrow> hs1 x = hs x" for x by (rule bkts_push(2) [OF assms(1,3,6) i p])
  have step: "hash_add_to_bkt i e hs t =
      (if (expand_mult b1 + 1) * 10 \<le> bkt_count b1 \<and> noexpand t \<noteq> 1
       then hash_expand_buckets hs1 ?t else Ok (hs1, ?t))"
    using p by (simp add: hash_add_to_bkt_def Let_def)
  have "num_items ?t = card (insert e S)" "num_buckets ?t = 2 ^ log2_num_buckets ?t" "finite (insert e S)"
    using assms(2-5) by simp_all
  from hash_expand_ok [OF ok this(3,1,2)] obtain hs' t' where
    "hash_expand_buckets hs1 ?t = Ok (hs', t')" "same_app hs1 hs'" "tail t' = tail t"
    "num_items t' = num_items t" "num_buckets t' = 2 ^ log2_num_buckets t'"
    "bkts_ok hs' (buckets t') (num_buckets t') (insert e S)" "\<forall>x. x \<notin> insert e S \<longrightarrow> hs' x = hs1 x" by auto
  then show ?thesis
    using step ok out push_bkt_same [OF p] assms(5) same_app_trans by (cases "(expand_mult b1 + 1) * 10 \<le> bkt_count b1 \<and> noexpand t \<noteq> 1") auto
qed

lemma bkts_ok_cong:
  assumes "\<And>x. x \<in> S \<Longrightarrow> hh_next (hs x) = hh_next (hs' x) \<and> hh_prev (hs x) = hh_prev (hs' x) \<and>
      hashv (hs x) = hashv (hs' x)" "bkts_ok hs bs n S"
  shows "bkts_ok hs' bs n S"
proof -
  have "in_bkt hs' n S i = in_bkt hs n S i" for i using assms(1) by (auto simp: in_bkt_def)
  moreover have "bucket_ok hs' (bs ! i) (in_bkt hs n S i) = bucket_ok hs (bs ! i) (in_bkt hs n S i)" for i
    by (rule bucket_ok_cong) (use assms(1) in \<open>auto simp: in_bkt_def\<close>)
  ultimately show ?thesis using assms(2) by (simp add: bkts_ok_def)
qed

text \<open>Adding, once the element is linked in application order.\<close>

lemma hash_add_linked:
  assumes "bkts_ok hs (buckets t) (num_buckets t) S" "finite S" "e \<notin> S" "num_items t = card S"
    and "num_buckets t = 2 ^ log2_num_buckets t" "tail t = e"
    and "app_list hs (Some h0) (ys @ [e])" "distinct (ys @ [e])" "set ys = S"
  shows "\<exists>H'. obind (hash_add_to_bkt (hash_to_bkt (hash_jen key) (num_buckets t)) e
        (set_hh e (\<lambda>h. h\<lparr>hashv := hash_jen key\<rparr>) hs) (t\<lparr>num_items := num_items t + 1\<rparr>))
      (\<lambda>(hs, t). Ok \<lparr>handles = hs, head = Some h0, tbl = Some t\<rparr>) = Ok H' \<and>
    hash_ok H' (ys @ [e]) \<and> hashv (handles H' e) = hash_jen key \<and>
    (\<forall>x. x \<noteq> e \<longrightarrow> hashv (handles H' x) = hashv (hs x)) \<and>
    (\<forall>x. x \<notin> insert e S \<longrightarrow> handles H' x = hs x)"
proof -
  let ?hs = "set_hh e (\<lambda>h. h\<lparr>hashv := hash_jen key\<rparr>) hs" and ?t = "t\<lparr>num_items := num_items t + 1\<rparr>"
  have bt: "buckets ?t = buckets t" "num_buckets ?t = num_buckets t" by simp_all
  have ok: "bkts_ok ?hs (buckets ?t) (num_buckets ?t) S" unfolding bt
    by (rule bkts_ok_cong [OF _ assms(1)]) (use assms(3) in auto)
  have i: "hash_to_bkt (hash_jen key) (num_buckets t) = hash_to_bkt (hashv (?hs e)) (num_buckets ?t)" by simp
  have t: "num_items ?t = card S + 1" "tail ?t = e" and n: "num_buckets ?t = 2 ^ log2_num_buckets ?t"
    using assms(4-6) by simp_all
  from hash_add_to_bkt_ok [OF ok assms(2,3) t(1) n i] obtain hs' t' where
    1: "hash_add_to_bkt (hash_to_bkt (hash_jen key) (num_buckets t)) e ?hs ?t = Ok (hs', t')" "same_app ?hs hs'"
    "tail t' = e" "num_items t' = card S + 1" "num_buckets t' = 2 ^ log2_num_buckets t'"
    "bkts_ok hs' (buckets t') (num_buckets t') (insert e S)" "\<forall>x. x \<notin> insert e S \<longrightarrow> hs' x = ?hs x"
    unfolding t by (elim exE conjE) (rule that)
  have "app_list ?hs (Some h0) (ys @ [e]) = app_list hs (Some h0) (ys @ [e])"
    unfolding app_list_def by (rule dll_cong) auto
  then have al: "app_list hs' (Some h0) (ys @ [e])" using app_list_same [OF 1(2)] assms(7) by blast
  have "hash_ok \<lparr>handles = hs', head = Some h0, tbl = Some t'\<rparr> (ys @ [e])"
    using al 1(3-6) assms(8,9) by (auto simp: hash_ok_def distinct_card)
  with 1 show ?thesis by (simp add: same_app_def)
qed

lemma hash_add_first:
  assumes "head H = None"
  shows "\<exists>H'. hash_add key e H = Ok H' \<and> hash_ok H' [e] \<and> hashv (handles H' e) = hash_jen key \<and>
    (\<forall>x. x \<noteq> e \<longrightarrow> handles H' x = handles H x)"
proof -
  let ?hs = "set_hh e (\<lambda>h. h\<lparr>prev := None\<rparr>) (set_hh e (\<lambda>h. h\<lparr>next_el := None\<rparr>) (handles H))"
  let ?t = "hash_make_table e"
  have "bkts_ok ?hs (buckets ?t) (num_buckets ?t) {}"
    by (auto simp: hash_make_table_def bkts_ok_def bucket_ok_def in_bkt_def bucket0_def chain_list_def nth_Cons')
  moreover have "num_items ?t = card {}" "num_buckets ?t = 2 ^ log2_num_buckets ?t" "tail ?t = e"
    by (simp_all add: hash_make_table_def)
  moreover have "app_list ?hs (Some e) ([] @ [e])" by (simp add: app_list_def)
  moreover have "distinct ([] @ [e])" "set [] = {}" by simp_all
  moreover have "hash_add key e H = obind (hash_add_to_bkt (hash_to_bkt (hash_jen key) (num_buckets ?t)) e
        (set_hh e (\<lambda>h. h\<lparr>hashv := hash_jen key\<rparr>) ?hs) (?t\<lparr>num_items := num_items ?t + 1\<rparr>))
      (\<lambda>(hs, t). Ok \<lparr>handles = hs, head = Some e, tbl = Some t\<rparr>)"
    using assms by (simp add: hash_add_def hash_make_table_def Let_def)
  ultimately obtain H' where "hash_add key e H = Ok H'" "hash_ok H' ([] @ [e])" "hashv (handles H' e) = hash_jen key"
    "\<forall>x. x \<notin> insert e {} \<longrightarrow> handles H' x = ?hs x"
    using hash_add_linked [of ?hs ?t "{}" e e "[]" key] by auto
  then show ?thesis by auto
qed

lemma hash_add_next:
  assumes "hash_ok H xs" "e \<notin> set xs" "xs \<noteq> []"
  shows "\<exists>H'. hash_add key e H = Ok H' \<and> hash_ok H' (xs @ [e]) \<and> hashv (handles H' e) = hash_jen key \<and>
    (\<forall>x \<in> set xs. hashv (handles H' x) = hashv (handles H x)) \<and>
    (\<forall>x. x \<notin> insert e (set xs) \<longrightarrow> handles H' x = handles H x)"
proof -
  obtain t where t: "tbl H = Some t" "tail t = last xs" "num_items t = length xs"
    "num_buckets t = 2 ^ log2_num_buckets t" "bkts_ok (handles H) (buckets t) (num_buckets t) (set xs)"
    using assms(1,3) by (auto simp: hash_ok_def)
  have d: "distinct xs" and al: "app_list (handles H) (head H) xs" using assms(1) by (simp_all add: hash_ok_def)
  obtain h0 where h: "head H = Some h0" using al assms(3) by (cases xs) (auto simp: app_list_def)
  let ?l = "last xs"
  have l: "?l \<noteq> e" "?l \<in> set xs" using assms(2,3) by auto
  let ?hs = "set_hh e (\<lambda>h. h\<lparr>prev := Some ?l\<rparr>)
    (set_hh ?l (\<lambda>h. h\<lparr>next_el := Some e\<rparr>) (set_hh e (\<lambda>h. h\<lparr>next_el := None\<rparr>) (handles H)))"
  let ?t = "t\<lparr>tail := e\<rparr>"
  have bt: "buckets ?t = buckets t" "num_buckets ?t = num_buckets t" by simp_all
  have "bkts_ok ?hs (buckets ?t) (num_buckets ?t) (set xs)" unfolding bt
    by (rule bkts_ok_cong [OF _ t(5)]) (use assms(2) l(1) in auto)
  moreover have "num_items ?t = card (set xs)" "num_buckets ?t = 2 ^ log2_num_buckets ?t" "tail ?t = e"
    using t d by (simp_all add: distinct_card)
  moreover have "app_list ?hs (Some h0) (xs @ [e])"
  proof -
    have "(\<lambda>x. next_el (?hs x)) = (\<lambda>x. next_el (handles H x))(e := None, ?l := Some e)"
      "(\<lambda>x. prev (?hs x)) = (\<lambda>x. prev (handles H x))(e := Some ?l)" using l by auto
    with dll_snoc [OF al [unfolded app_list_def] assms(2) d assms(3)] h show ?thesis unfolding app_list_def by simp
  qed
  moreover have "distinct (xs @ [e])" using d assms(2) by simp
  moreover have "hash_add key e H = obind (hash_add_to_bkt (hash_to_bkt (hash_jen key) (num_buckets ?t)) e
        (set_hh e (\<lambda>h. h\<lparr>hashv := hash_jen key\<rparr>) ?hs) (?t\<lparr>num_items := num_items ?t + 1\<rparr>))
      (\<lambda>(hs, t). Ok \<lparr>handles = hs, head = Some h0, tbl = Some t\<rparr>)"
    using h t(1,2) by (simp add: hash_add_def Let_def)
  ultimately obtain H' where "hash_add key e H = Ok H'" "hash_ok H' (xs @ [e])" "hashv (handles H' e) = hash_jen key"
    "\<forall>x. x \<noteq> e \<longrightarrow> hashv (handles H' x) = hashv (?hs x)" "\<forall>x. x \<notin> insert e (set xs) \<longrightarrow> handles H' x = ?hs x"
    using hash_add_linked [of ?hs ?t "set xs" e h0 xs key] assms(2) by auto
  then show ?thesis using l assms(2) by (intro exI [of _ H']) auto
qed

lemma hash_add_ok:
  assumes "hash_ok H xs" "e \<notin> set xs"
  shows "\<exists>H'. hash_add key e H = Ok H' \<and> hash_ok H' (xs @ [e]) \<and> hashv (handles H' e) = hash_jen key \<and>
    (\<forall>x \<in> set xs. hashv (handles H' x) = hashv (handles H x)) \<and>
    (\<forall>x. x \<notin> insert e (set xs) \<longrightarrow> handles H' x = handles H x)"
proof (cases "xs = []")
  case True
  with assms(1) have "head H = None" by (simp add: hash_ok_def app_list_def)
  from hash_add_first [OF this] True show ?thesis by auto
next
  case False
  show ?thesis by (rule hash_add_next [OF assms False])
qed

lemma del_in_bkt_ok:
  assumes "bucket_ok hs b A" "e \<in> A" "hash_del_in_bkt e hs b = (hs', b')"
  shows "bucket_ok hs' b' (A - {e})" "same_app hs hs'"
    "x \<notin> A \<Longrightarrow> hs' x = hs x"
proof -
  from assms(1) obtain ys where ys: "distinct ys" "set ys = A" "chain_list hs (hh_head b) ys"
    "bkt_count b = length ys" by (auto simp: bucket_ok_def)
  from assms(2) ys(2) obtain as bs where y: "ys = as @ e # bs" by (metis split_list)
  let ?nx = "\<lambda>x. hh_next (hs x)" and ?pv = "\<lambda>x. hh_prev (hs x)"
  have d: "dll ?nx ?pv None (hh_head b) (as @ e # bs)" "distinct (as @ e # bs)"
    using ys(1,3) y by (simp_all add: chain_list_def)
  note links = dll_links [OF d(1)] and hd = dll_head_eq [OF d]
  have le: "as \<noteq> [] \<Longrightarrow> last as \<noteq> e" "bs \<noteq> [] \<Longrightarrow> hd bs \<noteq> e" "as \<noteq> [] \<Longrightarrow> last as \<in> A" "bs \<noteq> [] \<Longrightarrow> hd bs \<in> A"
    using d(2) y ys(2) by (cases bs; auto)+
  have hs': "hh_next (hs' x) = (if as \<noteq> [] \<and> x = last as then ?nx e else ?nx x)"
    "hh_prev (hs' x) = (if bs \<noteq> [] \<and> x = hd bs then ?pv e else ?pv x)" for x
    using assms(3) links le by (auto simp: hash_del_in_bkt_def Let_def)
  have b': "hh_head b' = (if as = [] then ?nx e else hh_head b)" "bkt_count b' = dec32 (bkt_count b)"
    using assms(3) hd by (auto simp: hash_del_in_bkt_def Let_def)
  show s: "same_app hs hs'"
    using assms(3) by (auto simp: hash_del_in_bkt_def same_app_def Let_def split: option.splits)
  show "hs' x = hs x" if "x \<notin> A"
  proof (rule handle_eqI [OF s])
    show "hh_next (hs' x) = hh_next (hs x)" "hh_prev (hs' x) = hh_prev (hs x)" using that le hs' by auto
  qed
  have "(\<lambda>x. hh_next (hs' x)) = (if as = [] then ?nx else ?nx(last as := ?nx e))"
    "(\<lambda>x. hh_prev (hs' x)) = (if bs = [] then ?pv else ?pv(hd bs := (if as = [] then None else Some (last as))))"
    using hs' links by auto
  with dll_delete [OF d] b'(1) have "chain_list hs' (hh_head b') (as @ bs)"
    unfolding chain_list_def by simp
  then show "bucket_ok hs' b' (A - {e})"
    using y ys b'(2) unfolding bucket_ok_def by (intro exI [of _ "as @ bs"]) (auto simp: dec32_def)
qed


text \<open>The counterpart of a bucket's delete for all buckets.\<close>

lemma bkts_delete:
  assumes "bkts_ok hs bs n S" "e \<in> S" "i = hash_to_bkt (hashv (hs e)) n" "i < n"
    and "hash_del_in_bkt e hs (bs ! i) = (hs', b')"
  shows "bkts_ok hs' (bs[i := b']) n (S - {e})" "same_app hs hs'"
    "x \<notin> S \<Longrightarrow> hs' x = hs x"
proof -
  have b: "bucket_ok hs (bs ! i) (in_bkt hs n S i)" using assms(1,4) by (simp add: bkts_ok_def)
  have e: "e \<in> in_bkt hs n S i" using assms(2,3) by (simp add: in_bkt_def)
  note del = del_in_bkt_ok [OF b e assms(5)]
  show s: "same_app hs hs'" by (rule del(2))
  show "hs' x = hs x" if "x \<notin> S" using that del(3) [of x] by (auto simp: in_bkt_def)
  have del_set: "in_bkt hs n (S - {e}) j = (if j = i then in_bkt hs n S i - {e} else in_bkt hs n S j)" for j
    using assms(3) by (auto simp: in_bkt_def)
  have "bucket_ok hs' (bs[i := b'] ! j) (in_bkt hs n (S - {e}) j)" if "j < n" for j
  proof (cases "j = i")
    case True
    with del(1) assms(1,4) del_set show ?thesis by (simp add: bkts_ok_def)
  next
    case False
    have "bucket_ok hs (bs ! j) (in_bkt hs n S j)" using assms(1) that by (simp add: bkts_ok_def)
    moreover have "x \<in> in_bkt hs n S j \<Longrightarrow> hh_next (hs x) = hh_next (hs' x) \<and> hh_prev (hs x) = hh_prev (hs' x)" for x
      using del(3) [of x] False by (auto simp: in_bkt_def)
    ultimately show ?thesis using False del_set bucket_ok_cong [of "in_bkt hs n S j" hs hs'] by simp
  qed
  then show "bkts_ok hs' (bs[i := b']) n (S - {e})"
    using assms(1) in_bkt_same [OF s] by (simp add: bkts_ok_def)
qed

text \<open>Unlinking in application order.\<close>

lemma app_unlink_links:
  assumes "dll (\<lambda>x. next_el (hs x)) (\<lambda>x. prev (hs x)) None h (as @ e # bs)" "distinct (as @ e # bs)"
  shows "next_el (app_unlink e hs x) = (if as \<noteq> [] \<and> x = last as then next_el (hs e) else next_el (hs x))"
    "prev (app_unlink e hs x) = (if bs \<noteq> [] \<and> x = hd bs then prev (hs e) else prev (hs x))"
    "hh_next (app_unlink e hs x) = hh_next (hs x)" "hh_prev (app_unlink e hs x) = hh_prev (hs x)"
    "hashv (app_unlink e hs x) = hashv (hs x)"
    "x \<notin> set (as @ bs) \<Longrightarrow> app_unlink e hs x = hs x"
proof -
  have le: "as \<noteq> [] \<Longrightarrow> last as \<noteq> e" "bs \<noteq> [] \<Longrightarrow> hd bs \<noteq> e" using assms(2) by (cases bs; auto)+
  note links = dll_links [OF assms(1)]
  show "next_el (app_unlink e hs x) = (if as \<noteq> [] \<and> x = last as then next_el (hs e) else next_el (hs x))"
    "prev (app_unlink e hs x) = (if bs \<noteq> [] \<and> x = hd bs then prev (hs e) else prev (hs x))"
    "hh_next (app_unlink e hs x) = hh_next (hs x)" "hh_prev (app_unlink e hs x) = hh_prev (hs x)"
    "hashv (app_unlink e hs x) = hashv (hs x)"
    using links le by (auto simp: app_unlink_def Let_def)
  show "app_unlink e hs x = hs x" if "x \<notin> set (as @ bs)"
  proof -
    have "as \<noteq> [] \<Longrightarrow> x \<noteq> last as" "bs \<noteq> [] \<Longrightarrow> x \<noteq> hd bs" using that by auto
    with links show ?thesis by (auto simp: app_unlink_def Let_def)
  qed
qed

lemma app_unlink_list:
  assumes "app_list hs h (as @ e # bs)" "distinct (as @ e # bs)"
  shows "app_list (app_unlink e hs) (if as = [] then next_el (hs e) else h) (as @ bs)"
proof -
  let ?nx = "\<lambda>x. next_el (hs x)" and ?pv = "\<lambda>x. prev (hs x)"
  note d = assms(1) [unfolded app_list_def]
  have "(\<lambda>x. next_el (app_unlink e hs x)) = (if as = [] then ?nx else ?nx(last as := ?nx e))"
    "(\<lambda>x. prev (app_unlink e hs x)) = (if bs = [] then ?pv else ?pv(hd bs := (if as = [] then None else Some (last as))))"
    using app_unlink_links(1,2) [OF d assms(2)] dll_links [OF d] by auto
  then show ?thesis using dll_delete [OF d assms(2)] unfolding app_list_def by simp
qed

text \<open>Deleting an element that is not the only one.\<close>

lemma hash_delete_one:
  assumes "hash_ok H (as @ e # bs)" "as @ bs \<noteq> []"
  shows "\<exists>H'. hash_delete e H = Ok H' \<and> hash_ok H' (as @ bs) \<and>
    (\<forall>x. hashv (handles H' x) = hashv (handles H x)) \<and>
    (\<forall>x. x \<notin> set (as @ e # bs) \<longrightarrow> handles H' x = handles H x)"
proof -
  let ?xs = "as @ e # bs" and ?hs = "handles H"
  obtain t where t: "tbl H = Some t" "tail t = last ?xs" "num_items t = length ?xs"
    "num_buckets t = 2 ^ log2_num_buckets t" "bkts_ok ?hs (buckets t) (num_buckets t) (set ?xs)"
    using assms(1) by (auto simp: hash_ok_def)
  have d: "app_list ?hs (head H) ?xs" "distinct ?xs" using assms(1) by (simp_all add: hash_ok_def)
  note links = dll_links [OF d(1) [unfolded app_list_def]]
  note un = app_unlink_links [OF d(1) [unfolded app_list_def] d(2)]
  obtain h0 where h: "head H = Some h0" using dll_head [OF d(1) [unfolded app_list_def]] by simp
  let ?t1 = "if e = tail t then t\<lparr>tail := the (prev (?hs e))\<rparr> else t"
  let ?h1 = "if prev (?hs e) \<noteq> None then Some h0 else next_el (?hs e)"
  define hs2 where "hs2 = app_unlink e ?hs"
  define i where "i = hash_to_bkt (hashv (hs2 e)) (num_buckets t)"
  obtain hs3 b3 where p: "hash_del_in_bkt e hs2 (buckets t ! i) = (hs3, b3)" by fastforce
  have "bkts_ok hs2 (buckets t) (num_buckets t) (set ?xs)"
    by (rule bkts_ok_cong [OF _ t(5)]) (use un(3-5) in \<open>simp add: hs2_def\<close>)
  from bkts_delete [OF this _ i_def _ p] t(4) have
    b: "bkts_ok hs3 ((buckets t)[i := b3]) (num_buckets t) (set ?xs - {e})" "same_app hs2 hs3"
    "\<And>x. x \<notin> set ?xs \<Longrightarrow> hs3 x = hs2 x"
    by (simp_all add: i_def)
  have last: "e = tail t \<longleftrightarrow> bs = []" using t(2) d(2) by (cases "bs = []") auto
  have guard: "\<not> (prev (?hs e) = None \<and> next_el (?hs e) = None)" "\<not> (e = tail t \<and> prev (?hs e) = None)"
    using assms(2) last links by auto
  have nb: "num_buckets ?t1 = num_buckets t" "buckets ?t1 = buckets t" "num_items ?t1 = num_items t" by simp_all
  let ?H = "\<lparr>handles = hs3, head = ?h1,
      tbl = Some (?t1\<lparr>buckets := (buckets t)[i := b3], num_items := dec32 (num_items t)\<rparr>)\<rparr>"
  have step: "hash_delete e H = Ok ?H"
    unfolding hash_delete_def h t(1) Let_def prod.case option.case if_not_P [OF guard(1)]
      if_not_P [OF guard(2)] hs2_def [symmetric] nb i_def [symmetric] p ..
  have "?h1 = (if as = [] then next_el (?hs e) else head H)" using links h by simp
  then have al: "app_list hs3 ?h1 (as @ bs)"
    using app_unlink_list [OF d] app_list_same [OF b(2)] by (simp add: hs2_def)
  have tl: "tail ?t1 = last (as @ bs)" using last links t(2) assms(2) by (auto simp: last_append)
  have S: "set ?xs - {e} = set (as @ bs)" using d(2) by auto
  have n: "dec32 (num_items t) = length (as @ bs)" using t(3) by (simp add: dec32_def)
  have "hash_ok ?H (as @ bs)"
    using al b(1) tl n t(4) d(2) unfolding S by (simp add: hash_ok_def)
  moreover have "hashv (hs3 x) = hashv (?hs x)" for x
    using b(2) un(5) [of x] by (simp add: same_app_def hs2_def)
  moreover have "x \<notin> set ?xs \<Longrightarrow> hs3 x = ?hs x" for x
    using b(3) [of x] un(6) [of x] by (simp add: hs2_def)
  ultimately show ?thesis unfolding step by auto
qed

lemma hash_delete_ok:
  assumes "hash_ok H xs" "e \<in> set xs"
  shows "\<exists>H'. hash_delete e H = Ok H' \<and> hash_ok H' (remove1 e xs) \<and>
    (\<forall>x. hashv (handles H' x) = hashv (handles H x)) \<and>
    (\<forall>x. x \<notin> set xs \<longrightarrow> handles H' x = handles H x)"
proof -
  from assms(2) obtain as bs where s: "xs = as @ e # bs" by (metis split_list)
  have r: "remove1 e xs = as @ bs" using assms(1) s by (simp add: hash_ok_def remove1_append)
  show ?thesis
  proof (cases "as @ bs = []")
    case True
    then have x: "xs = [e]" using s by simp
    then have "app_list (handles H) (head H) [e]" using assms(1) by (simp add: hash_ok_def)
    then have "prev (handles H e) = None \<and> next_el (handles H e) = None \<and> head H = Some e"
      by (simp add: app_list_def)
    moreover obtain t where "tbl H = Some t" using assms(1) x by (auto simp: hash_ok_def)
    ultimately show ?thesis using r True by (simp add: hash_delete_def hash_ok_def app_list_def)
  next
    case False
    from hash_delete_one [OF assms(1) [unfolded s] this] show ?thesis unfolding r unfolding s .
  qed
qed

end
