(* ===== verification/Uthash_Table.thy ===== *)
theory Uthash_Table
  imports Uthash_Facts
begin

text \<open>
  The hash table as its users see it: the loop over the elements, lookup, and the interface
  \<open>ordered_table\<close> with its interpretation on the operations of \<open>Uthash\<close>.
\<close>

section \<open>Walking and finding\<close>

text \<open>Only the handles of the elements matter.\<close>

lemma hash_ok_cong:
  assumes "hash_ok H xs" "\<And>x. x \<in> set xs \<Longrightarrow> handles H' x = handles H x" "head H' = head H" "tbl H' = tbl H"
  shows "hash_ok H' xs"
proof -
  have "app_list (handles H') (head H) xs = app_list (handles H) (head H) xs"
    unfolding app_list_def by (rule dll_cong) (use assms(2) in auto)
  moreover have "bkts_ok (handles H') bs n (set xs)" if "bkts_ok (handles H) bs n (set xs)" for bs n
    by (rule bkts_ok_cong [OF _ that]) (use assms(2) in auto)
  ultimately show ?thesis using assms(1,3,4) by (auto simp: hash_ok_def)
qed

lemma hash_walk_path:
  "path (\<lambda>x. next_el (hs x)) h xs \<Longrightarrow> length xs \<le> fuel \<Longrightarrow> hash_walk fuel hs h = Ok xs"
proof (induction xs arbitrary: h fuel)
  case (Cons x xs)
  then show ?case by (cases fuel) auto
qed simp

lemma hash_find_in_path:
  "path (\<lambda>x. hh_next (hs x)) h ys \<Longrightarrow> length ys \<le> fuel \<Longrightarrow>
   hash_find_in_bkt fuel key hs k h = Ok (find (\<lambda>e. key e = k) ys)"
proof (induction ys arbitrary: h fuel)
  case (Cons y ys)
  then show ?case by (cases fuel) auto
qed simp

lemma find_unique:
  assumes "inj_on key A" "set ys \<subseteq> A"
  shows "find (\<lambda>e. key e = k) ys = (if \<exists>e \<in> set ys. key e = k then Some (THE e. e \<in> A \<and> key e = k) else None)"
  using assms(2)
proof (induction ys)
  case (Cons y ys)
  have "key y = k \<Longrightarrow> (THE e. e \<in> A \<and> key e = k) = y"
    using assms(1) Cons.prems by (auto simp: inj_on_def intro: the_equality)
  with Cons show ?case by auto
qed simp

text \<open>A table whose elements are stored under the hash of their keys.\<close>

definition hash_rep :: "('e \<Rightarrow> u8 list) \<Rightarrow> 'e hash_state \<Rightarrow> 'e list \<Rightarrow> bool" where
  "hash_rep key H xs \<longleftrightarrow> hash_ok H xs \<and> (\<forall>x \<in> set xs. hashv (handles H x) = hash_jen (key x))"

lemma hash_rep_walk: "hash_ok H xs \<Longrightarrow> length xs \<le> n \<Longrightarrow> hash_walk n (handles H) (head H) = Ok xs"
  unfolding hash_ok_def app_list_def by (rule hash_walk_path) (auto intro: dll_path)

lemma hash_rep_cnt: "hash_ok H xs \<Longrightarrow> hash_cnt H = Ok (length xs)"
  unfolding hash_ok_def app_list_def hash_cnt_def
  by (cases xs) (auto split: option.splits)

lemma hash_rep_find:
  assumes "hash_rep key H xs" "inj_on key (set xs)"
  shows "hash_find key k H = Ok (find (\<lambda>e. key e = k) xs)"
proof (cases "xs = []")
  case True
  with assms(1) show ?thesis by (simp add: hash_rep_def hash_ok_def app_list_def hash_find_def)
next
  case False
  with assms(1) obtain t where t: "tbl H = Some t" "num_items t = length xs"
      "num_buckets t = 2 ^ log2_num_buckets t" "bkts_ok (handles H) (buckets t) (num_buckets t) (set xs)"
      "app_list (handles H) (head H) xs" "distinct xs"
    by (auto simp: hash_rep_def hash_ok_def)
  then obtain h0 where h: "head H = Some h0" using False by (cases xs) (auto simp: app_list_def)
  define i where "i = hash_to_bkt (hash_jen k) (num_buckets t)"
  have "i < num_buckets t" using t(3) by (simp add: i_def)
  with t(4) obtain ys where ys: "distinct ys" "set ys = in_bkt (handles H) (num_buckets t) (set xs) i"
      "chain_list (handles H) (hh_head (buckets t ! i)) ys"
    by (auto simp: bkts_ok_def bucket_ok_def)
  then have sub: "set ys \<subseteq> set xs" by (auto simp: in_bkt_def)
  then have "length ys \<le> num_items t" using t(2,6) ys(1) by (metis card_mono distinct_card finite_set)
  then have "hash_find key k H = Ok (find (\<lambda>e. key e = k) ys)"
    using ys(3) h t(1) by (simp add: hash_find_def i_def chain_list_def dll_path hash_find_in_path)
  moreover have "(\<exists>e \<in> set ys. key e = k) \<longleftrightarrow> (\<exists>e \<in> set xs. key e = k)"
    using assms(1) ys(2) by (auto simp: hash_rep_def in_bkt_def i_def)
  ultimately show ?thesis
    using find_unique [OF assms(2) sub] find_unique [OF assms(2) subset_refl] by simp
qed

lemma hash_rep_add:
  assumes "hash_rep key H xs" "e \<notin> set xs"
  shows "\<exists>H'. hash_add (key e) e H = Ok H' \<and> hash_rep key H' (xs @ [e])"
  using hash_add_ok [of H xs e "key e"] assms by (auto simp: hash_rep_def)

lemma hash_rep_delete:
  assumes "hash_rep key H xs" "e \<in> set xs"
  shows "\<exists>H'. hash_delete e H = Ok H' \<and> hash_rep key H' (remove1 e xs)"
  using hash_delete_ok [of H xs e] assms set_remove1_subset [of e xs]
  by (fastforce simp: hash_rep_def)

section \<open>The interface\<close>

text \<open>What a client of the table may rely on: it keeps the elements in the order of their addition.\<close>

datatype 'e table_op = Add 'e | Del 'e

fun table_run :: "('e \<Rightarrow> 's \<Rightarrow> 's outcome) \<Rightarrow> ('e \<Rightarrow> 's \<Rightarrow> 's outcome) \<Rightarrow> 'e table_op list \<Rightarrow> 's \<Rightarrow> 's outcome" where
  "table_run add del [] s = Ok s"
| "table_run add del (Add e # ops) s = obind (add e s) (table_run add del ops)"
| "table_run add del (Del e # ops) s = obind (del e s) (table_run add del ops)"

text \<open>The list after the operations; \<^const>\<open>None\<close> when one adds a present or deletes an absent element.\<close>

fun list_run :: "'e table_op list \<Rightarrow> 'e list \<Rightarrow> 'e list option" where
  "list_run [] xs = Some xs"
| "list_run (Add e # ops) xs = (if e \<in> set xs then None else list_run ops (xs @ [e]))"
| "list_run (Del e # ops) xs = (if e \<in> set xs then list_run ops (remove1 e xs) else None)"

locale ordered_table =
  fixes rep :: "'s \<Rightarrow> 'e list \<Rightarrow> bool"
    and add :: "'e \<Rightarrow> 's \<Rightarrow> 's outcome"
    and del :: "'e \<Rightarrow> 's \<Rightarrow> 's outcome"
    and walk :: "nat \<Rightarrow> 's \<Rightarrow> 'e list outcome"
  assumes add_law: "rep s xs \<Longrightarrow> e \<notin> set xs \<Longrightarrow> \<exists>s'. add e s = Ok s' \<and> rep s' (xs @ [e])"
    and del_law: "rep s xs \<Longrightarrow> e \<in> set xs \<Longrightarrow> \<exists>s'. del e s = Ok s' \<and> rep s' (remove1 e xs)"
    and walk_law: "rep s xs \<Longrightarrow> length xs \<le> n \<Longrightarrow> walk n s = Ok xs"
begin

lemma table_run_rep:
  "rep s xs \<Longrightarrow> list_run ops xs = Some ys \<Longrightarrow> \<exists>s'. table_run add del ops s = Ok s' \<and> rep s' ys"
proof (induction ops xs arbitrary: s rule: list_run.induct)
  case (2 e ops xs)
  then show ?case using add_law [of s xs e] by (auto split: if_splits)
next
  case (3 e ops xs)
  then show ?case using del_law [of s xs e] by (auto split: if_splits)
qed simp

lemma table_run_walk:
  "rep s xs \<Longrightarrow> list_run ops xs = Some ys \<Longrightarrow>
   \<exists>s'. table_run add del ops s = Ok s' \<and> walk (length ys) s' = Ok ys"
  using table_run_rep walk_law by blast

end

interpretation uthash: ordered_table "hash_rep key" "\<lambda>e. hash_add (key e) e" hash_delete
  "\<lambda>n H. hash_walk n (handles H) (head H)" for key :: "'e \<Rightarrow> u8 list"
  by unfold_locales (blast intro: hash_rep_add, blast intro: hash_rep_delete,
      simp add: hash_rep_def hash_rep_walk)

lemma hash_rep_empty: "head H = None \<Longrightarrow> hash_rep key H []"
  by (simp add: hash_rep_def hash_ok_def app_list_def)

section \<open>The properties\<close>

text \<open>C6: The hash table keeps its elements in the order in which they were added: starting
  from an empty table, any sequence of \<open>HASH_ADD\<close> of absent and \<open>HASH_DELETE\<close> of present
  elements succeeds without following a bad pointer, whatever the hashes and however often
  the buckets are doubled, and then the loop over \<open>hh.next\<close> visits exactly the elements of
  the list that the operations describe, and \<open>HASH_COUNT\<close> is its length.\<close>

theorem table_refines_list:
  assumes "head H = None" "list_run ops [] = Some ys"
  shows "\<exists>H'. table_run (\<lambda>e. hash_add (key e) e) hash_delete ops H = Ok H' \<and>
    hash_walk (length ys) (handles H') (head H') = Ok ys \<and> hash_cnt H' = Ok (length ys)"
proof -
  from uthash.table_run_rep [OF hash_rep_empty [OF assms(1)] assms(2)] obtain H' where
    "table_run (\<lambda>e. hash_add (key e) e) hash_delete ops H = Ok H'" "hash_rep key H' ys" by blast
  then show ?thesis using hash_rep_walk hash_rep_cnt by (auto simp: hash_rep_def)
qed

theorem table_refines_list_witness:
  "\<exists>H'. table_run (\<lambda>e. hash_add [e] e) hash_delete [Add 5, Add 7, Add 9, Del 5]
      \<lparr>handles = (\<lambda>_. handle0), head = None, tbl = None\<rparr> = Ok H' \<and>
    hash_walk 2 (handles H') (head H') = Ok [7, 9 :: u8] \<and> hash_cnt H' = Ok 2"
  using table_refines_list [of "\<lparr>handles = (\<lambda>_. handle0), head = None, tbl = None\<rparr>"
      "[Add 5, Add 7, Add 9, Del 5]" "[7, 9 :: u8]" "\<lambda>e. [e]"]
  by (simp add: numeral_2_eq_2 [symmetric] del: table_run.simps)

text \<open>\<open>HASH_FIND\<close> finds an element exactly when it is there: after any sequence of additions
  and deletions, with keys that distinguish the elements left, the lookup of a key has as its
  result the one element with that key, and null when there is none.\<close>

lemma table_find:
  assumes "head H = None" "list_run ops [] = Some ys" "inj_on key (set ys)"
  shows "\<exists>H'. table_run (\<lambda>e. hash_add (key e) e) hash_delete ops H = Ok H' \<and>
    hash_find key k H' = Ok (find (\<lambda>e. key e = k) ys)"
  using uthash.table_run_rep [OF hash_rep_empty [OF assms(1)] assms(2), of key]
    hash_rep_find [OF _ assms(3)] by blast

end
