(* ===== verification/Event_Loop.thy ===== *)
theory Event_Loop
  imports Event_Io_Facts Uthash_Table
begin

text \<open>
  The loop of one thread, \<open>loop_run\<close> in \<open>broker/event_io.c\<close>, with the operations on the
  thread's clients in \<open>broker/broker.c\<close>: accepting a connection, reading from one, sending to
  all of them, and removing a client.  The clients of a thread form a hash table whose handles
  are the fields \<open>hh\<close> of the clients.  Descriptors are never negative here; the client of a
  descriptor is the slot \<open>base_sock + fd\<close>.  What the kernel does is given by an event: the
  descriptor, the bits of \<open>events\<close>, what the socket has received since, the result of
  \<open>accept\<close>, and whether \<open>malloc\<close> and \<open>epoll_ctl\<close> succeed.
\<close>

section \<open>The table of clients\<close>

definition thread_hash :: "broker \<Rightarrow> epollop \<Rightarrow> slot hash_state" where
  "thread_hash bro ep =
     \<lparr>handles = (\<lambda>s. hh (clients bro s)), head = contexts_by_ptr ep, tbl = ctx_tbl ep\<rparr>"

definition put_hash :: "slot hash_state \<Rightarrow> broker \<Rightarrow> epollop \<Rightarrow> broker \<times> epollop" where
  "put_hash H bro ep =
     (bro\<lparr>clients := (\<lambda>s. (clients bro s)\<lparr>hh := handles H s\<rparr>)\<rparr>,
      ep\<lparr>contexts_by_ptr := head H, ctx_tbl := tbl H\<rparr>)"

definition slot_of :: "epollop \<Rightarrow> int \<Rightarrow> slot" where
  "slot_of ep fd = base_sock ep + nat fd"

section \<open>Removing a client\<close>

text \<open>
  \<open>clean_context\<close> frees the packet being sent, not the packets that wait; the bytes of the
  freed packet are not freed with it.
\<close>

definition clean_context :: "client \<Rightarrow> client outcome" where
  "clean_context c =
     (let c = c\<lparr>is_subscribe := False, sock := 0, num_sending_pack := 0,
            cid := replicate 24 0, last_mid := 0, cstate := cs_new,
            in_packet := free_mqtt_msg (in_packet c), in_parser := parser0,
            out_packet := free_mqtt_msg (out_packet c),
            remaining_count := 0, remaining_mult := 0, in_payload := None,
            in_to_process := 0, in_cur := 0\<rparr>
      in case sending_cur_packet c of
           None \<Rightarrow> Ok c
         | Some a \<Rightarrow>
             (if packets c a = None then Fault
              else Ok (c\<lparr>packets := (packets c)(a := None), sending_cur_packet := None\<rparr>)))"

definition disconnect_sock :: "int \<Rightarrow> epollop \<Rightarrow> epollop" where
  "disconnect_sock fd ep =
     ep\<lparr>watched := removeAll fd (watched ep), open_fds := removeAll fd (open_fds ep)\<rparr>"

definition remove_client :: "int \<Rightarrow> broker \<Rightarrow> epollop \<Rightarrow> (broker \<times> epollop) outcome" where
  "remove_client fd bro ep =
     (let s = slot_of ep fd
      in obind (hash_delete s (thread_hash bro ep)) (\<lambda>H.
         let (bro, ep) = put_hash H bro ep
         in obind (clean_context (clients bro s)) (\<lambda>c.
            Ok (set_client s c bro, disconnect_sock fd ep))))"

section \<open>Accepting a connection\<close>

abbreviation (input) INVALID_SOCKET :: int where "INVALID_SOCKET \<equiv> -1"

text \<open>\<open>r\<close> is the result of the system call \<open>accept\<close>, \<open>added\<close> whether \<open>epoll_ctl\<close> succeeds.\<close>

definition accept_connection :: "int \<Rightarrow> epollop \<Rightarrow> int \<times> epollop" where
  "accept_connection r ep =
     (if r \<le> 0 then (INVALID_SOCKET, ep)
      else if int (MAX_FD_PER_LOOP * LOOP_COUNT) \<le> r then (INVALID_SOCKET, ep)
      else (r, ep\<lparr>open_fds := r # open_fds ep\<rparr>))"

definition add_sock :: "bool \<Rightarrow> int \<Rightarrow> epollop \<Rightarrow> int \<times> epollop" where
  "add_sock added fd ep =
     (if added then (0, ep\<lparr>watched := fd # watched ep\<rparr>) else (-1, ep))"

text \<open>
  The branch of \<open>loop_run\<close> for the listening descriptor \<open>fd\<close>.  \<open>ptr_bytes\<close> is the
  representation of a pointer in memory: the key of the table is the value of the field
  \<open>itself\<close> when the client is added.
\<close>

definition accept_client ::
  "(slot option \<Rightarrow> u8 list) \<Rightarrow> int \<Rightarrow> int \<Rightarrow> bool \<Rightarrow> broker \<Rightarrow> epollop \<Rightarrow> (broker \<times> epollop) outcome" where
  "accept_client ptr_bytes fd r added bro ep =
     (let (sk, ep) = accept_connection r ep
      in if sk = INVALID_SOCKET then Ok (bro, ep)
      else let s = slot_of ep sk;
               bro = set_client s ((clients bro s)\<lparr>sock := sk, epoll_id := th_id ep\<rparr>) bro
      in obind (hash_cnt (thread_hash bro ep)) (\<lambda>num_client.
           if num_client < MAX_FD_PER_LOOP then
             (let ep = snd (add_sock added sk ep)
              in obind (hash_add (ptr_bytes (itself (clients bro s))) s (thread_hash bro ep))
                   (\<lambda>H. Ok (put_hash H bro ep)))
           else remove_client fd bro ep))"

section \<open>Events\<close>

record event =
  ev_fd :: int
  ev_hup :: bool
  ev_err :: bool
  ev_in :: bool
  ev_data :: "sock_event list"
  ev_mem :: bool
  ev_accept :: int
  ev_added :: bool

text \<open>What a thread works on: the broker, its own structure, and what its sockets hold unread.\<close>

record thread =
  t_bro :: broker
  t_ep :: epollop
  t_inbox :: "int \<Rightarrow> sock_event list"

definition handle_event :: "(slot option \<Rightarrow> u8 list) \<Rightarrow> event \<Rightarrow> thread \<Rightarrow> thread outcome" where
  "handle_event ptr_bytes ev t =
     (let fd = ev_fd ev; bro = t_bro t; ep = t_ep t
      in if fd \<noteq> l_sock ep then
           obind (loop_read (base_sock ep) (slot_of ep fd) (ev_mem ev) (ev_hup ev) (ev_err ev) (ev_in ev)
                    (t_inbox t fd @ ev_data ev) bro) (\<lambda>(r, bro, es).
             if r \<le> 0 then
               obind (remove_client fd bro ep) (\<lambda>(bro, ep).
                 Ok (t\<lparr>t_bro := bro, t_ep := ep, t_inbox := (t_inbox t)(fd := [])\<rparr>))
             else Ok (t\<lparr>t_bro := bro, t_inbox := (t_inbox t)(fd := es)\<rparr>))
         else
           obind (accept_client ptr_bytes fd (ev_accept ev) (ev_added ev) bro ep) (\<lambda>(bro, ep).
             Ok (t\<lparr>t_bro := bro, t_ep := ep\<rparr>)))"

fun handle_events :: "(slot option \<Rightarrow> u8 list) \<Rightarrow> event list \<Rightarrow> thread \<Rightarrow> thread outcome" where
  "handle_events ptr_bytes [] t = Ok t"
| "handle_events ptr_bytes (ev # evs) t =
     obind (handle_event ptr_bytes ev t) (handle_events ptr_bytes evs)"

section \<open>Sending to all clients\<close>

text \<open>
  The body of the loop over \<open>hh.next\<close> for client \<open>s\<close> with the step to the next client;
  \<open>rs\<close> are the results of the calls of \<open>send\<close>, and the bytes are those the socket took.
\<close>

definition flush_one ::
  "send_result list \<Rightarrow> slot \<Rightarrow> broker \<Rightarrow> epollop \<Rightarrow> (broker \<times> epollop \<times> slot option \<times> u8 list) outcome" where
  "flush_one rs s bro ep =
     obind (flush_client rs (clients bro s)) (\<lambda>(e, c, out, rest).
     obind (if e = Skip_critical then remove_client (sock c) (set_client s c bro) ep
            else Ok (set_client s c bro, ep)) (\<lambda>(bro, ep).
       Ok (bro, ep, next_el (hh (clients bro s)), out)))"

text \<open>The loop; the result lists the clients visited with the bytes that their sockets took.\<close>

fun flush_clients ::
  "nat \<Rightarrow> (slot \<Rightarrow> send_result list) \<Rightarrow> slot option \<Rightarrow> broker \<Rightarrow> epollop \<Rightarrow>
   (broker \<times> epollop \<times> (slot \<times> u8 list) list) outcome" where
  "flush_clients fuel sends None bro ep = Ok (bro, ep, [])"
| "flush_clients 0 sends (Some s) bro ep = Blocked"
| "flush_clients (Suc fuel) sends (Some s) bro ep =
     obind (flush_one (sends s) s bro ep) (\<lambda>(bro, ep, nxt, out).
     obind (flush_clients fuel sends nxt bro ep) (\<lambda>(bro, ep, outs).
       Ok (bro, ep, (s, out) # outs)))"

text \<open>A pass of the loop.  The list of clients is never longer than \<open>HASH_COUNT\<close>.\<close>

definition flush_pass :: "(slot \<Rightarrow> send_result list) \<Rightarrow> thread \<Rightarrow> (thread \<times> (slot \<times> u8 list) list) outcome" where
  "flush_pass sends t =
     obind (hash_cnt (thread_hash (t_bro t) (t_ep t))) (\<lambda>n.
     obind (flush_clients n sends (contexts_by_ptr (t_ep t)) (t_bro t) (t_ep t)) (\<lambda>(bro, ep, outs).
       Ok (t\<lparr>t_bro := bro, t_ep := ep\<rparr>, outs)))"

text \<open>
  \<open>loop_run\<close> until \<open>epoll_wait\<close> fails, which is the end of the list of passes.  \<open>ok\<close> is the
  outcome of the \<open>malloc\<close> of the event array.
\<close>

fun loop_passes ::
  "(slot option \<Rightarrow> u8 list) \<Rightarrow> (event list \<times> (slot \<Rightarrow> send_result list)) list \<Rightarrow> thread \<Rightarrow>
   (thread \<times> (slot \<times> u8 list) list) outcome" where
  "loop_passes ptr_bytes [] t = Ok (t, [])"
| "loop_passes ptr_bytes ((evs, sends) # ps) t =
     obind (handle_events ptr_bytes evs t) (\<lambda>t.
     obind (flush_pass sends t) (\<lambda>(t, out).
     obind (loop_passes ptr_bytes ps t) (\<lambda>(t, outs). Ok (t, out @ outs))))"

definition loop_run ::
  "(slot option \<Rightarrow> u8 list) \<Rightarrow> bool \<Rightarrow> (event list \<times> (slot \<Rightarrow> send_result list)) list \<Rightarrow> thread \<Rightarrow>
   (thread \<times> (slot \<times> u8 list) list) outcome" where
  "loop_run ptr_bytes ok ps t =
     (if \<not> ok then Ok (t, [])
      else loop_passes ptr_bytes ps (t\<lparr>t_ep := (t_ep t)\<lparr>base_sock := 0\<rparr>\<rparr>))"

section \<open>What the kernel does\<close>

text \<open>
  The kernel reports events of watched descriptors only, and \<open>accept\<close> gives a descriptor that
  is not open.  The limit on the number of clients is a condition of its own.
\<close>

definition below_capacity :: "thread \<Rightarrow> bool" where
  "below_capacity t \<longleftrightarrow> (case hash_cnt (thread_hash (t_bro t) (t_ep t)) of
     Ok n \<Rightarrow> n < MAX_FD_PER_LOOP | _ \<Rightarrow> False)"

definition kernel_ok :: "event \<Rightarrow> thread \<Rightarrow> bool" where
  "kernel_ok ev t \<longleftrightarrow> ev_fd ev \<in> set (watched (t_ep t)) \<and>
     (ev_fd ev = l_sock (t_ep t) \<longrightarrow> ev_accept ev \<notin> set (open_fds (t_ep t)) \<and> below_capacity t)"

end
