(* ===== verification/Threads.thy ===== *)
theory Threads
  imports Event_Loop
begin

text \<open>
  The threads of the broker, from \<open>main\<close> in \<open>broker/broker.c\<close> down to the loops: what a thread
  does before its loop, how the threads are started, and all of them working on one broker.
  The results of the system calls are inputs.  The port goes only to \<open>bind\<close>.
\<close>

section \<open>A thread before its loop\<close>

text \<open>
  The results of \<open>epoll_create1\<close>, of the allocation of \<open>fds\<close>, which is not tested before it is
  cleared, of \<open>socket\<close>, \<open>bind\<close> and \<open>listen\<close>, and whether \<open>epoll_ctl\<close> succeeds.
\<close>

record start_results =
  sr_epoll :: int
  sr_mem :: bool
  sr_socket :: int
  sr_bind :: int
  sr_listen :: int
  sr_added :: bool

definition init_event_io :: "start_results \<Rightarrow> int \<Rightarrow> epollop \<Rightarrow> (int \<times> epollop) outcome" where
  "init_event_io r max_events ep =
     (let ep = ep\<lparr>epfd := word_of_int (sr_epoll r)\<rparr>
      in if epfd ep = word_of_int (-1) then Ok (-1, ep)
         else let ep = ep\<lparr>num_events := max_events\<rparr>
         in if \<not> sr_mem r then Fault else Ok (sint (epfd ep), ep))"

definition get_listen_sock :: "start_results \<Rightarrow> epollop \<Rightarrow> int \<times> epollop" where
  "get_listen_sock r ep =
     (let fd = sr_socket r
      in if fd < 0 then (-1, ep)
         else let opened = ep\<lparr>open_fds := fd # open_fds ep\<rparr>;
                  closed = opened\<lparr>open_fds := removeAll fd (open_fds opened)\<rparr>
         in if sr_bind r < 0 then (-1, closed)
         else if sr_listen r < 0 then (-1, closed)
         else (fd, opened))"

text \<open>\<open>run\<close> up to the call of \<open>loop_run\<close>; the result tells whether it is reached.\<close>

definition start_thread :: "int \<Rightarrow> start_results \<Rightarrow> epollop \<Rightarrow> (bool \<times> epollop) outcome" where
  "start_thread th r ep =
     obind (init_event_io r (int MAX_EVENT_PER_LOOP) (ep\<lparr>th_id := th\<rparr>)) (\<lambda>(rc, ep).
       if rc = -1 then Ok (False, ep)
       else let (fd, ep) = get_listen_sock r ep; ep = ep\<lparr>l_sock := fd\<rparr>
       in if fd = -1 then Ok (False, ep)
       else Ok (True, snd (add_sock (sr_added r) fd ep)))"

definition run ::
  "(slot option \<Rightarrow> u8 list) \<Rightarrow> int \<Rightarrow> start_results \<Rightarrow> bool \<Rightarrow> (event list \<times> (slot \<Rightarrow> send_result list)) list \<Rightarrow>
   thread \<Rightarrow> (thread \<times> (slot \<times> u8 list) list) outcome" where
  "run ptr_bytes th r ok ps t =
     obind (start_thread th r (t_ep t)) (\<lambda>(started, ep).
       if started then loop_run ptr_bytes ok ps (t\<lparr>t_ep := ep\<rparr>) else Ok (t\<lparr>t_ep := ep\<rparr>, []))"

section \<open>Starting the threads\<close>

text \<open>
  \<open>run_worker\<close>: \<open>rcs\<close> are the results of \<open>pthread_create\<close>, one for each thread, zero or an
  error number; the result is the return value with the numbers of the threads created.
\<close>

fun create_threads :: "int list \<Rightarrow> nat \<Rightarrow> int \<times> nat list" where
  "create_threads [] i = (0, [])"
| "create_threads (rc # rcs) i =
     (if rc \<noteq> 0 then (rc, []) else let (r, ths) = create_threads rcs (i + 1) in (r, i # ths))"

definition run_worker :: "int list \<Rightarrow> int \<times> nat list" where
  "run_worker rcs = create_threads (take LOOP_COUNT rcs) 0"

definition start_server :: "int list \<Rightarrow> int \<times> nat list" where
  "start_server rcs = (let (rc, ths) = run_worker rcs in (if rc = -1 then -1 else 0, ths))"

text \<open>\<open>main\<close>: \<open>lock\<close> is the result of \<open>pthread_rwlock_init\<close>.\<close>

definition broker_main :: "nat \<Rightarrow> alloc \<Rightarrow> int \<Rightarrow> int list \<Rightarrow> (int \<times> broker option \<times> nat list) outcome" where
  "broker_main argc al lock rcs =
     (if argc \<noteq> 2 then Ok (-1, None, [])
      else obind (init_database al) (\<lambda>(rc, bro).
        if rc \<noteq> 0 then Ok (-1, bro, [])
        else if lock \<noteq> 0 then Ok (-1, bro, [])
        else Ok (0, bro, snd (start_server rcs))))"

section \<open>All threads on one broker\<close>

text \<open>
  \<open>Created\<close> is a thread before its first step and \<open>Ended\<close> one that has returned; \<open>Waiting\<close> is
  in its loop, at \<open>epoll_wait\<close> or between two events, and \<open>Sending\<close> in the loop over its
  clients, with the pointer \<open>context\<close>.
\<close>

datatype thread_state = Created | Waiting | Sending "slot option" | Ended

record system =
  sy_bro :: broker
  sy_ep :: "nat \<Rightarrow> epollop"
  sy_state :: "nat \<Rightarrow> thread_state"
  sy_inbox :: "int \<Rightarrow> sock_event list"

definition epollop0 :: epollop where
  "epollop0 = \<lparr>epfd = 0, num_events = 0, l_sock = 0, base_sock = 0, th_id = 0, contexts_by_ptr = None,
     ctx_tbl = None, watched = [], open_fds = []\<rparr>"

definition system0 :: "broker \<Rightarrow> nat list \<Rightarrow> system" where
  "system0 bro ths = \<lparr>sy_bro = bro, sy_ep = (\<lambda>_. epollop0),
     sy_state = (\<lambda>i. if i \<in> set ths then Created else Ended), sy_inbox = (\<lambda>_. [])\<rparr>"

text \<open>What thread \<open>i\<close> works on, and the system after a step of it.\<close>

definition view :: "nat \<Rightarrow> system \<Rightarrow> thread" where
  "view i S = \<lparr>t_bro = sy_bro S, t_ep = sy_ep S i, t_inbox = sy_inbox S\<rparr>"

definition put :: "nat \<Rightarrow> thread \<Rightarrow> thread_state \<Rightarrow> system \<Rightarrow> system" where
  "put i t st S = S\<lparr>sy_bro := t_bro t, sy_ep := (sy_ep S)(i := t_ep t), sy_state := (sy_state S)(i := st),
     sy_inbox := t_inbox t\<rparr>"

text \<open>
  The kernel gives out descriptors that no thread of the process has open, and reports events
  of watched descriptors only.
\<close>

definition fresh_fd :: "int \<Rightarrow> system \<Rightarrow> bool" where
  "fresh_fd fd S \<longleftrightarrow> (\<forall>i. fd \<notin> set (open_fds (sy_ep S i)))"

text \<open>
  A step of one thread.  Between any two steps of a thread the others may do theirs: an event
  is handled in one step, and so is one client of the sending loop, while the pointer to the
  next client is kept across the steps of the others.
\<close>

inductive system_step :: "(slot option \<Rightarrow> u8 list) \<Rightarrow> system \<Rightarrow> system \<Rightarrow> bool" for pb where
  start: "sy_state S i = Created \<Longrightarrow> fresh_fd (sr_socket r) S \<Longrightarrow>
    start_thread (int i) r (sy_ep S i) = Ok (started, ep) \<Longrightarrow>
    system_step pb S (put i ((view i S)\<lparr>t_ep := if started then ep\<lparr>base_sock := 0\<rparr> else ep\<rparr>)
      (if started then Waiting else Ended) S)"
| receive: "sy_state S i = Waiting \<Longrightarrow> kernel_ok ev (view i S) \<Longrightarrow>
    ev_fd ev = l_sock (sy_ep S i) \<longrightarrow> fresh_fd (ev_accept ev) S \<Longrightarrow>
    handle_event pb ev (view i S) = Ok t \<Longrightarrow> system_step pb S (put i t Waiting S)"
| enter: "sy_state S i = Waiting \<Longrightarrow>
    system_step pb S (put i (view i S) (Sending (contexts_by_ptr (sy_ep S i))) S)"
| send: "sy_state S i = Sending (Some s) \<Longrightarrow>
    flush_one rs s (sy_bro S) (sy_ep S i) = Ok (bro, ep, nxt, out) \<Longrightarrow>
    system_step pb S (put i ((view i S)\<lparr>t_bro := bro, t_ep := ep\<rparr>) (Sending nxt) S)"
| leave: "sy_state S i = Sending None \<Longrightarrow> system_step pb S (put i (view i S) Waiting S)"
| stop: "sy_state S i = Waiting \<Longrightarrow> system_step pb S (put i (view i S) Ended S)"

end
