(* ===== verification/Event_Loop_Frame.thy ===== *)
theory Event_Loop_Frame
  imports Event_Loop
begin

text \<open>
  What reading and handling a packet leaves alone: the handle and the socket of every client,
  and the packet being sent; a client whose current packet exists keeps one that exists.
\<close>

section \<open>What an operation on one client leaves alone\<close>

definition cur_ok :: "client \<Rightarrow> bool" where
  "cur_ok c \<longleftrightarrow> (case sending_cur_packet c of None \<Rightarrow> True | Some a \<Rightarrow> packets c a \<noteq> None)"

definition keeps :: "client \<Rightarrow> client \<Rightarrow> bool" where
  "keeps c c' \<longleftrightarrow> hh c' = hh c \<and> sock c' = sock c \<and> (cur_ok c \<longrightarrow> cur_ok c')"

lemma keeps_refl [simp]: "keeps c c"
  by (simp add: keeps_def)

lemma keeps_trans: "keeps a b \<Longrightarrow> keeps b c \<Longrightarrow> keeps a c"
  by (simp add: keeps_def)

lemma keeps_update [simp]:
  "keeps c (c'\<lparr>in_packet := m\<rparr>) = keeps c c'" "keeps c (c'\<lparr>in_parser := p\<rparr>) = keeps c c'"
  "keeps c (c'\<lparr>remaining_count := n\<rparr>) = keeps c c'" "keeps c (c'\<lparr>remaining_mult := w\<rparr>) = keeps c c'"
  "keeps c (c'\<lparr>in_payload := b\<rparr>) = keeps c c'" "keeps c (c'\<lparr>in_to_process := w\<rparr>) = keeps c c'"
  "keeps c (c'\<lparr>in_cur := w\<rparr>) = keeps c c'" "keeps c (c'\<lparr>last_mid := i\<rparr>) = keeps c c'"
  "keeps c (c'\<lparr>is_subscribe := t\<rparr>) = keeps c c'" "keeps c (c'\<lparr>subs := ss\<rparr>) = keeps c c'"
  "keeps c (c'\<lparr>cstate := st\<rparr>) = keeps c c'" "keeps c (c'\<lparr>cid := bs\<rparr>) = keeps c c'"
  "keeps c (c'\<lparr>num_sending_pack := i'\<rparr>) = keeps c c'" "keeps c (c'\<lparr>itself := it\<rparr>) = keeps c c'"
  "keeps c (c'\<lparr>snd_num := w\<rparr>) = keeps c c'" "keeps c (c'\<lparr>sending_packet := sp\<rparr>) = keeps c c'"
  "keeps c (c'\<lparr>sending_packet_tail := sp\<rparr>) = keeps c c'" "keeps c (c'\<lparr>next_addr := a\<rparr>) = keeps c c'"
  "keeps c (c'\<lparr>epoll_id := i'\<rparr>) = keeps c c'"
  by (simp_all add: keeps_def cur_ok_def cong: option.case_cong)

lemma keeps_packets: "keeps c (c\<lparr>packets := (packets c)(a \<mapsto> p)\<rparr>)"
  by (auto simp: keeps_def cur_ok_def split: option.splits)

lemma enqueue_keeps: "enqueue pk c = Ok c' \<Longrightarrow> keeps c c'"
  by (auto simp: enqueue_def Let_def deref_def keeps_def cur_ok_def split: option.splits if_splits)

lemma publish_msg_keeps: "publish_msg c t p l = Ok c' \<Longrightarrow> keeps c c'"
  by (auto simp: publish_msg_def obind_eq_Ok dest: enqueue_keeps)

lemma ack_msg_keeps: "ack_msg c m l r = Ok c' \<Longrightarrow> keeps c c'"
  by (auto simp: ack_msg_def obind_eq_Ok split: option.splits dest: enqueue_keeps)

text \<open>Reading a packet leaves the sending side of a client alone.\<close>

definition outside :: "client \<Rightarrow> _" where
  "outside c = (hh c, sock c, packets c, next_addr c, sending_packet c, sending_packet_tail c,
     sending_cur_packet c, num_sending_pack c)"

lemma outside_keeps: "outside c' = outside c \<Longrightarrow> keeps c c'"
  by (auto simp: outside_def keeps_def cur_ok_def split: option.splits)

lemma outside_update [simp]:
  "outside (c\<lparr>in_packet := m\<rparr>) = outside c" "outside (c\<lparr>in_parser := p\<rparr>) = outside c"
  "outside (c\<lparr>remaining_count := n\<rparr>) = outside c" "outside (c\<lparr>remaining_mult := w\<rparr>) = outside c"
  "outside (c\<lparr>in_payload := b\<rparr>) = outside c" "outside (c\<lparr>in_to_process := w\<rparr>) = outside c"
  "outside (c\<lparr>in_cur := w\<rparr>) = outside c"
  by (simp_all add: outside_def)

section \<open>What reading does to a client\<close>

text \<open>
  A relation between a client before and after reading: it holds for every change that
  \<open>loop_read\<close> makes while it collects a packet.
\<close>

locale collect_frame =
  fixes rel :: "client \<Rightarrow> client \<Rightarrow> bool"
  assumes step_refl: "rel c c"
    and step_trans: "rel c1 c2 \<Longrightarrow> rel c2 c3 \<Longrightarrow> rel c1 c3"
    and step_start: "rel c (start_packet c)"
    and step_command: "rel c (c\<lparr>in_packet := map_option (\<lambda>m. mqtt_parser_command m d) (in_packet c), remaining_mult := 1\<rparr>)"
    and step_byte: "rel c (length_byte d c)"
    and step_count: "rel c (c\<lparr>remaining_count := n\<rparr>)"
    and step_payload: "rel c (c\<lparr>in_payload := pl\<rparr>)"
    and step_length: "rel c (c\<lparr>in_to_process := w\<rparr>)"
    and step_chunk: "rel c (payload_chunk bs c)"
begin

text \<open>A part of \<open>loop_read\<close> that stops returns at most 1.\<close>

definition part_rel :: "client \<Rightarrow> read_step \<Rightarrow> bool" where
  "part_rel c x \<longleftrightarrow> (case x of Go c' r es \<Rightarrow> rel c c' | Return r c' es \<Rightarrow> rel c c' \<and> r \<le> 1 | Bad_write \<Rightarrow> True)"

lemma part_rel_simps [simp]:
  "part_rel c (Go c' r es) = rel c c'" "part_rel c (Return r c' es) = (rel c c' \<and> r \<le> 1)" "part_rel c Bad_write"
  by (simp_all add: part_rel_def)

lemma part_rel_trans: "rel c c1 \<Longrightarrow> part_rel c1 x \<Longrightarrow> part_rel c x"
  by (cases x) (auto intro: step_trans)

lemma and_then_rel: "part_rel c x \<Longrightarrow> (\<And>c' r es. part_rel c' (f c' r es)) \<Longrightarrow> part_rel c (and_then x f)"
  by (cases x) (auto intro: part_rel_trans)

lemma recv_code_le: "\<forall>bs. x \<noteq> Got bs \<Longrightarrow> recv_code x \<le> 1"
  by (cases x) simp_all

lemma read_command_rel: "part_rel c (read_command c r es)"
proof (cases rule: recv_cases [of 1 es])
  case (Stop x es1)
  then show ?thesis using recv_code_le [of x] by (cases x) (simp_all add: read_command_def step_refl)
qed (simp add: read_command_def step_refl step_command)

lemma read_length_rel: "part_rel c (read_length c es)"
proof (induction "nat (remaining_count c + 5)" arbitrary: c es rule: less_induct)
  case less
  show ?case
  proof (cases rule: recv_cases [of 1 es])
    case (Got bs es1)
    have "nat (remaining_count (length_byte (hd bs) c) + 5) < nat (remaining_count c + 5)"
      if "\<not> remaining_count c < -3" using that by simp
    from part_rel_trans [OF step_byte less.hyps [OF this, of es1]] show ?thesis
      by (auto simp: read_length_Got [OF Got] step_byte step_count)
  qed (simp add: read_length_stop step_refl recv_code_le)
qed

lemma set_payload_rel: "part_rel c (set_payload ok c r es)"
proof -
  let ?c = "c\<lparr>remaining_count := remaining_count c * -1\<rparr>"
  have "rel c (?c\<lparr>in_payload := d, in_to_process := w\<rparr>)" for d w
    using step_length [of "?c\<lparr>in_payload := d\<rparr>" w] step_payload [of ?c d] step_count by (blast intro: step_trans)
  moreover have "rel c (?c\<lparr>in_payload := d\<rparr>)" for d using step_payload step_count by (blast intro: step_trans)
  ultimately show ?thesis using step_count by (simp add: set_payload_def Let_def)
qed

lemma read_payload_rel: "part_rel c (read_payload c r es)"
proof (induction "unat (in_to_process c)" arbitrary: c r es rule: less_induct)
  case less
  show ?case
  proof (cases "0 < in_to_process c")
    case False
    then have "in_to_process c = 0" by (simp add: word_gt_0)
    then show ?thesis by (simp add: read_payload_done step_refl)
  next
    case True
    then have pos: "0 < unat (in_to_process c)" by (simp add: word_less_nat_alt)
    show ?thesis
    proof (cases rule: recv_cases [of "unat (in_to_process c)" es])
      case (Got bs es1)
      note l = recv_Got [OF Got pos]
      have "unat (in_to_process (payload_chunk bs c)) < unat (in_to_process c)"
        using minus_of_nat_less [of "length bs" "in_to_process c"] l pos by simp
      from less.hyps [OF this, of "int (length bs)" es1] show ?thesis
        by (simp add: read_payload_Got [OF Got True] part_rel_trans [OF step_chunk])
    qed (simp add: read_payload_stop True step_refl recv_code_le)
  qed
qed

lemma collect_rel: "part_rel c (collect ok c es)"
proof -
  have "part_rel c (read_command (start_packet c) (-1) es)"
    by (rule part_rel_trans [OF step_start read_command_rel])
  moreover have "part_rel c' (read_remaining ok c' r es')" for c' r es'
    unfolding read_remaining_eq by (auto intro: and_then_rel read_length_rel set_payload_rel step_refl)
  ultimately show ?thesis unfolding collect_def by (intro and_then_rel read_payload_rel)
qed

end

interpretation outside: collect_frame "\<lambda>c c'. outside c' = outside c"
  by unfold_locales (simp_all add: start_packet_def length_byte_def payload_chunk_def)

section \<open>What a packet does to the clients\<close>

text \<open>
  A relation between a client before and after a handler: it holds for every operation by which a
  handler changes a client, apart from freeing the packet at the end.
\<close>

locale client_frame =
  fixes rel :: "client \<Rightarrow> client \<Rightarrow> bool"
  assumes rel_refl: "rel c c"
    and rel_trans: "rel a b \<Longrightarrow> rel b c \<Longrightarrow> rel a c"
    and rel_enqueue: "make_packet m = Ok pk \<Longrightarrow> enqueue pk c = Ok c' \<Longrightarrow> rel c c'"
    and rel_last_mid: "rel c (c\<lparr>last_mid := i\<rparr>)"
    and rel_subs: "rel c (c\<lparr>subs := ss\<rparr>)"
    and rel_subscribed: "rel c (c\<lparr>is_subscribe := t\<rparr>)"
    and rel_added: "rel c (c\<lparr>itself := it, cid := k, num_sending_pack := 0, cstate := st\<rparr>)"
begin

definition all_rel :: "broker \<Rightarrow> broker \<Rightarrow> bool" where
  "all_rel bro bro' \<longleftrightarrow> (\<forall>x. rel (clients bro x) (clients bro' x))"

lemma all_refl: "all_rel bro bro"
  by (simp add: all_rel_def rel_refl)

lemma all_trans: "all_rel a b \<Longrightarrow> all_rel b c \<Longrightarrow> all_rel a c"
  unfolding all_rel_def by (blast intro: rel_trans)

lemma all_set: "rel (clients bro s) c \<Longrightarrow> all_rel bro (set_client s c bro)"
  by (simp add: all_rel_def rel_refl)

lemma all_set2: "all_rel bro bro' \<Longrightarrow> rel (clients bro' s) c \<Longrightarrow> all_rel bro (set_client s c bro')"
  using all_set all_trans by blast

lemma publish_msg_rel: "publish_msg c t p len = Ok c' \<Longrightarrow> rel c c'"
  by (auto simp: publish_msg_def obind_eq_Ok intro: rel_enqueue)

lemma ack_msg_rel: "ack_msg c m len r = Ok c' \<Longrightarrow> rel c c'"
  by (auto simp: ack_msg_def obind_eq_Ok rel_refl split: option.splits intro: rel_enqueue)

lemma ack_rel: "all_rel bro b \<Longrightarrow> ack_msg (clients b s) m len r = Ok c \<Longrightarrow> all_rel bro (set_client s c b)"
  by (auto intro: all_set2 ack_msg_rel)

lemma subs_process_rel: "subs_process publish_msg t p len ls st = Ok st' \<Longrightarrow> rel (st x) (st' x)"
proof (induction ls arbitrary: st)
  case (Cons l ls)
  show ?case
  proof (cases "is_subscribe (st (l_context l))")
    case True
    with Cons.prems obtain c where c: "publish_msg (st (l_context l)) t p len = Ok c"
      "subs_process publish_msg t p len ls (st(l_context l := c)) = Ok st'"
      by (auto simp: obind_eq_Ok)
    have "rel (st x) ((st(l_context l := c)) x)" using publish_msg_rel [OF c(1)] by (simp add: rel_refl)
    then show ?thesis using Cons.IH [OF c(2)] rel_trans by blast
  qed (use Cons in simp)
qed (simp add: rel_refl)

lemma tree_process_rel:
  "mqtt3_sub_tree_process bro s t p len publish_msg = Ok (rc, bro') \<Longrightarrow> all_rel bro bro'"
  by (auto simp: mqtt3_sub_tree_process_def all_rel_def obind_eq_Ok process_tops_nodes rel_refl
      intro: subs_process_rel split: prod.splits option.splits if_splits)

lemma sub_add_rel: "mqtt3_sub_add bro s t q = Ok (rc, bro') \<Longrightarrow> all_rel bro bro'"
  using mqtt3_sub_add_law [of bro s t q rc bro'] by (auto simp: only_subs_def all_rel_def rel_refl rel_subs)

lemma handle_publish_rel:
  assumes "handle_publish s m bro = Ok (rc, bro')"
  shows "all_rel bro bro'"
proof -
  let ?b = "set_client s ((clients bro s)\<lparr>last_mid := pub_message_id (m_publish m)\<rparr>) bro"
  have "all_rel bro ?b" by (rule all_set) (rule rel_last_mid)
  with assms show ?thesis
    by (auto simp: handle_publish_def obind_eq_Ok Let_def all_refl intro: all_trans
        dest!: tree_process_rel split: if_splits option.splits)
qed

lemma add_client_rel: "add_client i s bro = Ok bro' \<Longrightarrow> all_rel bro bro'"
  by (auto simp: add_client_def all_rel_def rel_refl rel_added split: option.splits if_splits)

lemma handle_connect_rel: "handle_connect base s m bro = Ok (rc, bro') \<Longrightarrow> all_rel bro bro'"
  by (auto simp: handle_connect_def obind_eq_Ok Let_def intro: ack_rel all_refl dest!: add_client_rel
      split: if_splits)

lemma subscribed_rel: "all_rel bro b \<Longrightarrow> all_rel bro (set_client s ((clients b s)\<lparr>is_subscribe := t\<rparr>) b)"
  by (rule all_set2 [OF _ rel_subscribed])

lemma handle_subscribe_rel:
  assumes "handle_subscribe s m bro = Ok (rc, bro')"
  shows "all_rel bro bro'"
proof -
  let ?b = "set_client s ((clients bro s)\<lparr>last_mid := sub_message_id (m_subscribe m)\<rparr>) bro"
  have b: "all_rel bro ?b" by (rule all_set) (rule rel_last_mid)
  have add: "mqtt3_sub_add ?b s t q = Ok (r, b') \<Longrightarrow> all_rel bro b'" for t q r b'
    using all_trans [OF b sub_add_rel] .
  obtain ret b where s: "ack_msg (clients b s) MQTT_TYPE_SUBACK 3 ret = Ok (clients bro' s)"
      "bro' = set_client s (clients bro' s) b" and k: "all_rel bro b"
    using assms add subscribed_rel
    unfolding handle_subscribe_def obind_eq_Ok
    by (clarsimp split: option.splits if_splits simp: obind_eq_Ok Let_def) (metis all_refl)+
  show ?thesis using ack_rel [OF k s(1)] s(2) by simp
qed

text \<open>The handler frees the packet at the end, and does nothing else than the relation tells.\<close>

lemma handler_rel:
  assumes "handle_mqtt_command base s bro = Ok (rc, bro')"
  obtains b where "all_rel bro b" "bro' = set_client s ((clients b s)\<lparr>in_packet := None\<rparr>) b"
proof -
  from assms obtain m ret b where m:
    "(if m_type m = MQTT_TYPE_PUBLISH then handle_publish s m bro
      else if m_type m = MQTT_TYPE_CONNECT then handle_connect base s m bro
      else if m_type m = MQTT_TYPE_SUBSCRIBE then handle_subscribe s m bro
      else if m_type m = MQTT_TYPE_PINGREQ then
        obind (ack_msg (clients bro s) MQTT_TYPE_PINGRESP 0 0) (\<lambda>c. Ok (0, set_client s c bro))
      else if m_type m = MQTT_TYPE_UNSUBSCRIBE then Ok (0, bro)
      else if m_type m = MQTT_TYPE_DISCONNECT then Ok (1, bro) else Ok (0, bro)) = Ok (ret, b)"
    and b: "bro' = set_client s ((clients b s)\<lparr>in_packet := free_mqtt_msg (in_packet (clients b s))\<rparr>) b"
    unfolding handle_mqtt_command_def by (auto simp: obind_eq_Ok split: option.splits)
  from m have "all_rel bro b"
    by (auto simp: obind_eq_Ok all_refl split: if_splits dest: ack_rel [OF all_refl]
        dest!: handle_publish_rel handle_connect_rel handle_subscribe_rel)
  then show thesis using b by (intro that) simp_all
qed

end

text \<open>A relation that reading keeps as well holds for a call of \<open>loop_read\<close>.\<close>

locale reading_frame = client_frame +
  assumes rel_outside: "outside c' = outside c \<Longrightarrow> rel c c'"
begin

lemma all_outside: "all_rel bro bro' \<Longrightarrow> outside c = outside (clients bro' s) \<Longrightarrow> all_rel bro (set_client s c bro')"
  by (blast intro: all_set2 rel_outside)

lemma finish_packet_rel:
  assumes "finish_packet_in base s r bro = Ok (rc, bro')"
  shows "all_rel bro bro'"
proof -
  have upd: "all_rel bro (set_client s ((clients bro s)\<lparr>in_cur := 0, remaining_count := 0,
      in_parser := p', in_packet := m'\<rparr>) bro)" for p' m' by (rule all_outside [OF all_refl]) simp
  have handled: "all_rel bro b" if "all_rel bro a" "handle_mqtt_command base s a = Ok (ret, b)" for a b ret
  proof -
    note h = that
    obtain d where d: "all_rel a d" "b = set_client s ((clients d s)\<lparr>in_packet := None\<rparr>) d"
      by (rule handler_rel [OF h(2)])
    show ?thesis unfolding d(2) by (rule all_outside [OF all_trans [OF h(1) d(1)]]) simp
  qed
  show ?thesis
    using assms
    by (auto simp: finish_packet_in_def Let_def obind_eq_Ok upd split: option.splits parse_result.splits
        if_splits intro: all_outside upd dest!: handled [OF upd])
qed

lemma loop_read_rel:
  assumes "loop_read base s ok hup err inp es bro = Ok (r, bro', es')"
  shows "all_rel bro bro'"
proof -
  have c: "all_rel bro (set_client s c bro)" if "outside c = outside (clients bro s)" for c
    using that by (rule all_outside [OF all_refl])
  show ?thesis
    using assms outside.collect_rel [of "clients bro s" ok es]
    by (auto simp: loop_read_def obind_eq_Ok c all_refl split: if_splits read_step.splits
        intro: all_trans [OF c] dest!: finish_packet_rel)
qed

end

section \<open>The table, the socket and the current packet\<close>

interpretation kept: reading_frame keeps
  by unfold_locales (auto simp: outside_keeps intro: keeps_trans enqueue_keeps)

definition bro_keeps :: "broker \<Rightarrow> broker \<Rightarrow> bool" where
  "bro_keeps bro bro' \<longleftrightarrow> (\<forall>x. keeps (clients bro x) (clients bro' x))"

lemma bro_keeps_set: "keeps (clients bro s) c \<Longrightarrow> bro_keeps bro (set_client s c bro)"
  by (simp add: bro_keeps_def)

lemma loop_read_keeps: "loop_read base s ok hup err inp es bro = Ok (r, bro', es') \<Longrightarrow> bro_keeps bro bro'"
  using kept.loop_read_rel by (simp add: kept.all_rel_def bro_keeps_def)

section \<open>The packets of all clients\<close>

text \<open>The queues stay consistent, since every packet made fits in its buffer.\<close>

lemma make_packet_sized:
  assumes "make_packet m = Ok pk"
  shows "pnext pk = None" "unat (wlen pk) \<le> length (send_buf pk)"
  using assms
  by (auto simp: make_packet_def mqtt_serialiser_write_def new_packet_def Let_def
      split: option.splits Option.bind_splits if_splits)

lemma sender_ok_outside:
  assumes "outside c' = outside c"
  shows "sender_ok c' = sender_ok c"
proof -
  have e: "packets c' = packets c" "next_addr c' = next_addr c" "sending_packet c' = sending_packet c"
    "sending_packet_tail c' = sending_packet_tail c" "sending_cur_packet c' = sending_cur_packet c"
    "num_sending_pack c' = num_sending_pack c"
    using assms by (simp_all add: outside_def)
  show ?thesis by (simp only: sender_ok_def queued_def queue_at_def packets_at_def cur_packet_def e)
qed

interpretation sender: reading_frame "\<lambda>c c'. sender_ok c \<longrightarrow> sender_ok c'"
proof unfold_locales
  fix m pk c c'
  assume "make_packet m = Ok pk" "enqueue pk c = Ok c'"
  then show "sender_ok c \<longrightarrow> sender_ok c'" using enqueue_sender_ok [of c pk] make_packet_sized [of m pk] by auto
next
  fix c c' :: client
  assume "outside c' = outside c"
  then show "sender_ok c \<longrightarrow> sender_ok c'" using sender_ok_outside by blast
qed (simp_all add: sender_ok_added)

lemma loop_read_clients_ok:
  "loop_read base s ok hup err inp es bro = Ok (r, bro', es') \<Longrightarrow> clients_ok bro \<Longrightarrow> clients_ok bro'"
  using sender.loop_read_rel by (simp add: sender.all_rel_def clients_ok_def)

section \<open>The reading side of all clients\<close>

lemma reader_update2 [simp]:
  "reader (c\<lparr>subs := ss\<rparr>) = reader c" "reader (c\<lparr>is_subscribe := b\<rparr>) = reader c"
  "reader (c\<lparr>itself := it\<rparr>) = reader c" "reader (c\<lparr>cid := k\<rparr>) = reader c" "reader (c\<lparr>cstate := st\<rparr>) = reader c"
  by (simp_all add: reader_def)

interpretation reading: client_frame "\<lambda>c c'. reader c' = reader c"
proof unfold_locales
  show "reader c' = reader c" if "enqueue pk c = Ok c'" for pk c c' using that by (rule enqueue_reader)
qed simp_all

lemma handler_reader:
  assumes "handle_mqtt_command base s bro = Ok (rc, bro')"
  shows "reader (clients bro' x) = reader (if x = s then (clients bro s)\<lparr>in_packet := None\<rparr> else clients bro x)"
proof -
  obtain b where b: "reading.all_rel bro b" "bro' = set_client s ((clients b s)\<lparr>in_packet := None\<rparr>) b"
    by (rule reading.handler_rel [OF assms])
  then have "reader (clients b x) = reader (clients bro x)" by (simp add: reading.all_rel_def)
  then show ?thesis by (cases "x = s") (simp_all add: b(2) reader_def)
qed

end
