(* ===== verification/Event_Loop_Facts.thy ===== *)
theory Event_Loop_Facts
  imports Event_Loop_Frame
begin

text \<open>
  The operations of the event loop on the table of a thread's clients: the well-formedness
  \<open>thread_ok\<close> of a thread with the list of its clients, and how removing, accepting and the
  sending loop change that list.
\<close>

section \<open>What sending does to a client\<close>

text \<open>A relation that every change to a client by the sending loop keeps.\<close>

locale sending_frame =
  fixes rel :: "client \<Rightarrow> client \<Rightarrow> bool"
  assumes send_refl: "rel c c"
    and send_trans: "rel c1 c2 \<Longrightarrow> rel c2 c3 \<Longrightarrow> rel c1 c3"
    and send_take: "take_packet c = Ok c' \<Longrightarrow> rel c c'"
    and send_write: "sending_cur_packet c = Some a \<Longrightarrow> rel c (c\<lparr>packets := (packets c)(a \<mapsto> p)\<rparr>)"
    and send_count: "rel c (c\<lparr>snd_num := n\<rparr>)"
    and send_finish: "rel c (finish_packet a p c)"
begin

lemma flush_loop_rel: "flush_loop n rs c = Ok (e, c', out, rs') \<Longrightarrow> rel c c'"
proof (induction n arbitrary: rs c e out rs')
  case (Suc n)
  from Suc.prems obtain c1 p e1 p1 out1 rs1 where 1: "take_packet c = Ok c1"
    "deref (packets c1) (sending_cur_packet c1) = Ok p" "send_loop rs p = Ok (e1, p1, out1, rs1)"
    by (auto simp: obind_eq_Ok)
  define a where "a = the (sending_cur_packet c1)"
  define c2 where "c2 = c1\<lparr>packets := (packets c1)(a \<mapsto> p1)\<rparr>"
  define c3 where "c3 = finish_packet a p1 (c2\<lparr>snd_num := snd_num c2 + 1\<rparr>)"
  from 1(2) have a: "sending_cur_packet c1 = Some a" by (auto simp: deref_def a_def split: option.splits)
  have k2: "rel c c2" using send_trans [OF send_take [OF 1(1)] send_write [OF a]] by (simp add: c2_def)
  have k3: "rel c2 c3" unfolding c3_def by (rule send_trans [OF send_count send_finish])
  from Suc.prems 1 have "(if e1 \<noteq> Sent_all then Ok (e1, c2, out1, rs1)
      else obind (flush_loop n rs1 c3) (\<lambda>(e, c, out', rs). Ok (e, c, out1 @ out', rs))) = Ok (e, c', out, rs')"
    by (simp add: c3_def c2_def a_def Let_def cong: if_cong)
  then show ?case using Suc.IH [of rs1 c3] k2 k3
    by (auto simp: obind_eq_Ok split: if_splits intro: send_trans)
qed (simp add: send_refl)

lemma flush_client_rel: "flush_client rs c = Ok (e, c', out, rs') \<Longrightarrow> rel c c'"
  by (auto simp: flush_client_def flush_loop_rel send_refl split: if_splits)

end

interpretation kept: sending_frame keeps
proof unfold_locales
  show "keeps c c'" if "take_packet c = Ok c'" for c c'
    using that by (auto simp: take_packet_def obind_eq_Ok Let_def deref_def keeps_def cur_ok_def
        split: if_splits option.splits)
  show "keeps c (finish_packet a p c)" for a p c by (simp add: finish_packet_def keeps_def cur_ok_def)
qed (auto simp: keeps_packets intro: keeps_trans)

lemmas flush_client_keeps = kept.flush_client_rel

text \<open>Sending leaves the packet alone that is being read.\<close>

interpretation reading: sending_frame "\<lambda>c c'. reader c' = reader c"
proof unfold_locales
  show "reader c' = reader c" if "take_packet c = Ok c'" for c c'
    using that by (auto simp: take_packet_def obind_eq_Ok Let_def deref_def reader_def
        split: if_splits option.splits)
qed (simp_all add: finish_packet_def reader_def)

section \<open>Removing an element and walking on\<close>

lemma hash_delete_next:
  assumes "hash_ok H xs" "e \<in> set xs" "hash_delete e H = Ok H'"
  shows "next_el (handles H' e) = next_el (handles H e)"
proof -
  from assms(2) obtain as bs where s: "xs = as @ e # bs" by (metis split_list)
  have d: "dll (\<lambda>x. next_el (handles H x)) (\<lambda>x. prev (handles H x)) None (head H) (as @ e # bs)" "distinct (as @ e # bs)"
    using assms(1) s by (simp_all add: hash_ok_def app_list_def)
  have "prev (handles H e) \<noteq> Some e"
    using dll_links [OF d(1)] d(2) by auto
  then have u: "next_el (app_unlink e (handles H) e) = next_el (handles H e)"
    by (auto simp: app_unlink_def Let_def split: option.splits)
  have b: "hash_del_in_bkt y hs b = (hs', b') \<Longrightarrow> next_el (hs' y) = next_el (hs y)" for y hs b hs' b'
    by (auto simp: hash_del_in_bkt_def Let_def split: option.splits)
  show ?thesis using assms(3) u
    by (auto simp: hash_delete_def Let_def split: option.splits if_splits prod.splits dest!: b)
qed

lemma hash_ok_next:
  assumes "hash_ok H (as @ e # bs)"
  shows "next_el (handles H e) = (if bs = [] then None else Some (hd bs))"
  using assms dll_links(1) [of "\<lambda>x. next_el (handles H x)" "\<lambda>x. prev (handles H x)" None "head H" as e bs]
  by (simp add: hash_ok_def app_list_def)

lemma hash_ok_head: "hash_ok H xs \<Longrightarrow> head H = (if xs = [] then None else Some (hd xs))"
  unfolding hash_ok_def app_list_def by (blast dest: dll_head)

lemma hash_find_range: "hash_ok H xs \<Longrightarrow> xs \<noteq> [] \<Longrightarrow> \<exists>t. tbl H = Some t"
  by (auto simp: hash_ok_def)

section \<open>The clients of a thread\<close>

definition thread_ok :: "broker \<Rightarrow> epollop \<Rightarrow> slot list \<Rightarrow> bool" where
  "thread_ok bro ep xs \<longleftrightarrow> hash_ok (thread_hash bro ep) xs \<and> base_sock ep = 0 \<and> 0 \<le> l_sock ep \<and>
     (\<forall>x. cur_ok (clients bro x)) \<and>
     (\<forall>s \<in> set xs. sock (clients bro s) = int s \<and> 0 < s \<and> s < MAX_FD_PER_LOOP * LOOP_COUNT) \<and>
     l_sock ep \<notin> int ` set xs \<and> set (open_fds ep) = insert (l_sock ep) (int ` set xs) \<and>
     set (watched ep) \<subseteq> set (open_fds ep)"

lemma thread_hash_keeps:
  assumes "hash_ok (thread_hash bro ep) xs" "\<forall>x \<in> set xs. hh (clients bro' x) = hh (clients bro x)"
    "contexts_by_ptr ep' = contexts_by_ptr ep" "ctx_tbl ep' = ctx_tbl ep"
  shows "hash_ok (thread_hash bro' ep') xs"
  using assms by (intro hash_ok_cong [OF assms(1)]) (auto simp: thread_hash_def)

lemma thread_ok_keeps:
  assumes "thread_ok bro ep xs" "bro_keeps bro bro'"
  shows "thread_ok bro' ep xs"
  using assms thread_hash_keeps [of bro ep xs bro' ep]
  by (auto simp: thread_ok_def bro_keeps_def keeps_def)

lemma thread_listener:
  assumes "thread_ok bro ep xs"
  shows "nat (l_sock ep) \<notin> set xs" "int (nat (l_sock ep)) = l_sock ep"
proof
  assume "nat (l_sock ep) \<in> set xs"
  then have "int (nat (l_sock ep)) \<in> int ` set xs" by (rule imageI)
  with assms show False by (simp add: thread_ok_def)
qed (use assms in \<open>simp add: thread_ok_def\<close>)

lemma thread_client_fd:
  assumes "thread_ok bro ep xs" "s \<in> set xs"
  shows "int s \<noteq> l_sock ep"
proof
  assume "int s = l_sock ep"
  with assms(2) have "l_sock ep \<in> int ` set xs" by (metis image_eqI)
  with assms(1) show False by (simp add: thread_ok_def)
qed

lemma put_hash_ok:
  assumes "hash_ok H ys" "put_hash H bro ep = (bro', ep')"
  shows "hash_ok (thread_hash bro' ep') ys"
    "clients bro' x = (clients bro x)\<lparr>hh := handles H x\<rparr>"
    "ep' = ep\<lparr>contexts_by_ptr := head H, ctx_tbl := tbl H\<rparr>"
    "bro' = bro\<lparr>clients := (\<lambda>x. (clients bro x)\<lparr>hh := handles H x\<rparr>)\<rparr>"
  using assms hash_ok_cong [of H ys "thread_hash bro' ep'"]
  by (auto simp: put_hash_def thread_hash_def)

definition cleaned :: "client \<Rightarrow> bool" where
  "cleaned c \<longleftrightarrow> idle c \<and> sock c = 0 \<and> cid c = replicate 24 0 \<and> cstate c = cs_new \<and> \<not> is_subscribe c \<and>
     in_payload c = None \<and> num_sending_pack c = 0 \<and> sending_cur_packet c = None"

lemma queued_clean [simp]:
  "queued (c\<lparr>is_subscribe := b\<rparr>) pks = queued c pks" "queued (c\<lparr>sock := i\<rparr>) pks = queued c pks"
  "queued (c\<lparr>num_sending_pack := i\<rparr>) pks = queued c pks" "queued (c\<lparr>cid := k\<rparr>) pks = queued c pks"
  "queued (c\<lparr>last_mid := l\<rparr>) pks = queued c pks" "queued (c\<lparr>cstate := st\<rparr>) pks = queued c pks"
  "queued (c\<lparr>in_packet := n\<rparr>) pks = queued c pks" "queued (c\<lparr>out_packet := n\<rparr>) pks = queued c pks"
  "queued (c\<lparr>in_parser := p\<rparr>) pks = queued c pks" "queued (c\<lparr>remaining_count := i\<rparr>) pks = queued c pks"
  "queued (c\<lparr>remaining_mult := w\<rparr>) pks = queued c pks" "queued (c\<lparr>in_payload := d\<rparr>) pks = queued c pks"
  "queued (c\<lparr>in_to_process := w\<rparr>) pks = queued c pks" "queued (c\<lparr>in_cur := w\<rparr>) pks = queued c pks"
  "queued (c\<lparr>hh := h\<rparr>) pks = queued c pks" "queued (c\<lparr>epoll_id := i\<rparr>) pks = queued c pks"
  by (simp_all add: queued_def queue_at_def packets_at_def cong: option.case_cong)

lemma clean_context_ok:
  assumes "cur_ok c"
  obtains c' where "clean_context c = Ok c'" "hh c' = hh c" "itself c' = itself c" "cur_ok c'" "cleaned c'"
    "\<And>q. queued c q \<Longrightarrow> queued c' q"
proof -
  let ?c = "c\<lparr>is_subscribe := False, sock := 0, num_sending_pack := 0,
            cid := replicate 24 0, last_mid := 0, cstate := cs_new,
            in_packet := None, in_parser := parser0, out_packet := None,
            remaining_count := 0, remaining_mult := 0, in_payload := None,
            in_to_process := 0, in_cur := 0\<rparr>"
  show thesis
  proof (cases "sending_cur_packet c")
    case None
    then show thesis
      by (intro that [of ?c]) (simp_all add: clean_context_def Let_def free_mqtt_msg_def cleaned_def idle_def cur_ok_def)
  next
    case (Some a)
    then have "packets c a \<noteq> None" using assms by (simp add: cur_ok_def)
    moreover have "queued c q \<Longrightarrow> queued (?c\<lparr>packets := (packets c)(a := None), sending_cur_packet := None\<rparr>) q" for q
      using queued_cur_update(2) [of ?c q a] Some by simp
    ultimately show thesis using Some
      by (intro that [of "?c\<lparr>packets := (packets c)(a := None), sending_cur_packet := None\<rparr>"])
        (simp_all add: clean_context_def Let_def free_mqtt_msg_def cleaned_def idle_def cur_ok_def)
  qed
qed

text \<open>Removing the client of a descriptor.\<close>

lemma remove_client_ok:
  assumes "hash_ok (thread_hash bro ep) xs" "s \<in> set xs" "base_sock ep = 0" "fd = int s"
    and "cur_ok (clients bro s)"
  obtains bro' ep' c where "remove_client fd bro ep = Ok (bro', ep')"
    "hash_ok (thread_hash bro' ep') (remove1 s xs)" "clients bro' s = c" "cleaned c" "cur_ok c"
    "itself c = itself (clients bro s)"
    "\<And>q. queued (clients bro s) q \<Longrightarrow> queued c q"
    "next_el (hh c) = next_el (hh (clients bro s))"
    "\<And>x. x \<noteq> s \<Longrightarrow> \<exists>h. clients bro' x = (clients bro x)\<lparr>hh := h\<rparr>"
    "\<And>x. x \<notin> set xs \<Longrightarrow> clients bro' x = clients bro x"
    "bro'\<lparr>clients := clients bro\<rparr> = bro"
    "\<exists>h t. ep' = (disconnect_sock fd ep)\<lparr>contexts_by_ptr := h, ctx_tbl := t\<rparr>"
proof -
  from hash_delete_ok [OF assms(1,2)] obtain H where H: "hash_delete s (thread_hash bro ep) = Ok H"
    "hash_ok H (remove1 s xs)"
    "\<And>x. x \<notin> set xs \<Longrightarrow> handles H x = hh (clients bro x)"
    by (auto simp: thread_hash_def)
  obtain bro1 ep1 where p: "put_hash H bro ep = (bro1, ep1)" by fastforce
  note P = put_hash_ok [OF H(2) p]
  have slot: "slot_of ep fd = s" using assms(3,4) by (simp add: slot_of_def)
  have q: "queued ((clients bro s)\<lparr>hh := h\<rparr>) q = queued (clients bro s) q" for h q
    by (simp add: queued_def queue_at_def packets_at_def cong: option.case_cong)
  have "cur_ok (clients bro1 s)" using assms(5) P(2) by (simp add: cur_ok_def cong: option.case_cong)
  then obtain c where c: "clean_context (clients bro1 s) = Ok c" "hh c = hh (clients bro1 s)"
    "itself c = itself (clients bro1 s)" "cur_ok c" "cleaned c"
    "\<And>q. queued (clients bro1 s) q \<Longrightarrow> queued c q" by (rule clean_context_ok) blast
  show thesis
  proof (rule that)
    show "remove_client fd bro ep = Ok (set_client s c bro1, disconnect_sock fd ep1)"
      using H(1) p c(1) by (simp add: remove_client_def slot Let_def)
    show "hash_ok (thread_hash (set_client s c bro1) (disconnect_sock fd ep1)) (remove1 s xs)"
      by (rule thread_hash_keeps [OF P(1)]) (use c(2) in \<open>auto simp: disconnect_sock_def\<close>)
    show "next_el (hh c) = next_el (hh (clients bro s))"
      using hash_delete_next [OF assms(1,2) H(1)] c(2) P(2) by (simp add: thread_hash_def)
    show "(set_client s c bro1)\<lparr>clients := clients bro\<rparr> = bro" using P(4) by (simp add: set_client_def)
    show "\<exists>h t. disconnect_sock fd ep1 = (disconnect_sock fd ep)\<lparr>contexts_by_ptr := h, ctx_tbl := t\<rparr>"
      unfolding P(3) by (intro exI [of _ "head H"] exI [of _ "tbl H"]) (simp add: disconnect_sock_def)
    show "\<exists>h. clients (set_client s c bro1) x = (clients bro x)\<lparr>hh := h\<rparr>" if "x \<noteq> s" for x
      using that P(2) by auto
    show "clients (set_client s c bro1) x = clients bro x" if "x \<notin> set xs" for x
      using that P(2) H(3) assms(2) by auto
  qed (use c P(2) q in simp_all)
qed

lemma cur_ok_update [simp]:
  "cur_ok (c\<lparr>hh := h\<rparr>) = cur_ok c" "cur_ok (c\<lparr>sock := i\<rparr>) = cur_ok c"
  "cur_ok (c\<lparr>epoll_id := i\<rparr>) = cur_ok c"
  by (simp_all add: cur_ok_def cong: option.case_cong)

lemma thread_remove:
  assumes "thread_ok bro ep xs" "s \<in> set xs"
  obtains bro' ep' where "remove_client (int s) bro ep = Ok (bro', ep')" "thread_ok bro' ep' (remove1 s xs)"
    "cleaned (clients bro' s)" "\<And>q. queued (clients bro s) q \<Longrightarrow> queued (clients bro' s) q"
    "itself (clients bro' s) = itself (clients bro s)"
    "next_el (hh (clients bro' s)) = next_el (hh (clients bro s))"
    "\<And>x. x \<noteq> s \<Longrightarrow> \<exists>h. clients bro' x = (clients bro x)\<lparr>hh := h\<rparr>"
    "\<And>x. x \<notin> set xs \<Longrightarrow> clients bro' x = clients bro x"
    "bro'\<lparr>clients := clients bro\<rparr> = bro" "l_sock ep' = l_sock ep" "th_id ep' = th_id ep"
    "set (open_fds ep') = set (open_fds ep) - {int s}"
proof -
  have h: "hash_ok (thread_hash bro ep) xs" "base_sock ep = 0" "cur_ok (clients bro s)" "distinct xs"
    using assms(1) by (auto simp: thread_ok_def hash_ok_def)
  obtain bro' ep' c where r: "remove_client (int s) bro ep = Ok (bro', ep')"
    "hash_ok (thread_hash bro' ep') (remove1 s xs)" "clients bro' s = c" "cleaned c" "cur_ok c"
    "itself c = itself (clients bro s)" "\<And>q. queued (clients bro s) q \<Longrightarrow> queued c q"
    "next_el (hh c) = next_el (hh (clients bro s))"
    "\<And>x. x \<noteq> s \<Longrightarrow> \<exists>h. clients bro' x = (clients bro x)\<lparr>hh := h\<rparr>"
    "\<And>x. x \<notin> set xs \<Longrightarrow> clients bro' x = clients bro x"
    "bro'\<lparr>clients := clients bro\<rparr> = bro"
    "\<exists>h t. ep' = (disconnect_sock (int s) ep)\<lparr>contexts_by_ptr := h, ctx_tbl := t\<rparr>"
    by (rule remove_client_ok [OF h(1) assms(2) h(2) refl h(3)]) blast
  from r(12) have ep: "base_sock ep' = base_sock ep" "l_sock ep' = l_sock ep" "th_id ep' = th_id ep"
      "open_fds ep' = removeAll (int s) (open_fds ep)" "watched ep' = removeAll (int s) (watched ep)"
    by (auto simp: disconnect_sock_def)
  have other: "sock (clients bro' x) = sock (clients bro x)" "cur_ok (clients bro' x) = cur_ok (clients bro x)"
      if "x \<noteq> s" for x
    using r(9) [OF that] by auto
  have xs: "set (remove1 s xs) = set xs - {s}" using h(4) by (rule set_remove1_eq)
  have "thread_ok bro' ep' (remove1 s xs)"
    unfolding thread_ok_def xs ep
  proof (intro conjI)
    show "\<forall>x. cur_ok (clients bro' x)" using other(2) r(3,5) assms(1) by (metis thread_ok_def)
  qed (use assms r(2) other in \<open>auto simp: thread_ok_def\<close>)
  note ok = this
  show thesis
  proof (rule that [OF r(1) ok])
    show "\<exists>h. clients bro' x = (clients bro x)\<lparr>hh := h\<rparr>" if "x \<noteq> s" for x using r(9) [OF that] by blast
    show "clients bro' x = clients bro x" if "x \<notin> set xs" for x by (rule r(10) [OF that])
  qed (use r ep in auto)
qed

text \<open>Accepting a connection with a descriptor that is not open.\<close>

lemma accept_run:
  assumes "thread_ok bro ep xs" "length xs < MAX_FD_PER_LOOP" "nat r \<notin> set xs"
    and "0 < r" "r < int (MAX_FD_PER_LOOP * LOOP_COUNT)"
  obtains bro' ep' where "accept_client pb fd r added bro ep = Ok (bro', ep')"
    "hash_ok (thread_hash bro' ep') (xs @ [nat r])"
    "\<And>x. \<exists>h. clients bro' x = (if x = nat r then (clients bro x)\<lparr>sock := r, epoll_id := th_id ep\<rparr> else clients bro x)\<lparr>hh := h\<rparr>"
    "\<And>x. x \<notin> insert (nat r) (set xs) \<Longrightarrow> clients bro' x = clients bro x" "bro'\<lparr>clients := clients bro\<rparr> = bro"
    "base_sock ep' = base_sock ep" "l_sock ep' = l_sock ep" "th_id ep' = th_id ep"
    "open_fds ep' = r # open_fds ep" "watched ep' = (if added then [r] else []) @ watched ep"
proof -
  define s where "s = nat r"
  define bro1 where "bro1 = set_client s ((clients bro s)\<lparr>sock := r, epoll_id := th_id ep\<rparr>) bro"
  define ep0 where "ep0 = ep\<lparr>open_fds := r # open_fds ep\<rparr>"
  define ep1 where "ep1 = snd (add_sock added r ep0)"
  have ep1: "contexts_by_ptr ep1 = contexts_by_ptr ep" "ctx_tbl ep1 = ctx_tbl ep" "base_sock ep1 = base_sock ep"
    "l_sock ep1 = l_sock ep" "th_id ep1 = th_id ep" "open_fds ep1 = r # open_fds ep"
    "watched ep1 = (if added then [r] else []) @ watched ep"
    by (simp_all add: ep1_def ep0_def add_sock_def)
  have new: "s \<notin> set xs" using assms(3) by (simp add: s_def)
  have h: "hash_ok (thread_hash bro ep) xs" "base_sock ep = 0" using assms(1) by (auto simp: thread_ok_def)
  have h0: "hash_ok (thread_hash bro1 ep0) xs" and h1: "hash_ok (thread_hash bro1 ep1) xs"
    by (rule thread_hash_keeps [OF h(1)]; use new ep1 in \<open>auto simp: bro1_def ep0_def\<close>)+
  from hash_add_ok [OF h1 new, of "pb (itself (clients bro1 s))"] obtain H where
    H: "hash_add (pb (itself (clients bro1 s))) s (thread_hash bro1 ep1) = Ok H" "hash_ok H (xs @ [s])"
    "\<And>x. x \<notin> insert s (set xs) \<Longrightarrow> handles H x = hh (clients bro1 x)"
    by (auto simp: thread_hash_def)
  obtain bro2 ep2 where p: "put_hash H bro1 ep1 = (bro2, ep2)" by fastforce
  note P = put_hash_ok [OF H(2) p]
  have "accept_connection r ep = (r, ep0)" using assms(4,5) by (simp add: accept_connection_def ep0_def)
  moreover have "slot_of ep0 r = s" using h(2) by (simp add: slot_of_def ep0_def s_def)
  moreover have "th_id ep0 = th_id ep" by (simp add: ep0_def)
  ultimately have step: "accept_client pb fd r added bro ep = Ok (bro2, ep2)"
    unfolding accept_client_def Let_def
    using assms(2,4) H(1) p hash_rep_cnt [OF h0] by (simp add: bro1_def ep1_def)
  have c2: "clients bro2 x = (if x = s then (clients bro x)\<lparr>sock := r, epoll_id := th_id ep\<rparr> else clients bro x)
      \<lparr>hh := handles H x\<rparr>" for x
    using P(2) by (simp add: bro1_def)
  show thesis
  proof (rule that [OF step])
    show "clients bro2 x = clients bro x" if "x \<notin> insert (nat r) (set xs)" for x
      using c2 [of x] H(3) [of x] that by (auto simp: s_def bro1_def)
    show "bro2\<lparr>clients := clients bro\<rparr> = bro" using P(4) by (simp add: bro1_def set_client_def)
  qed (use P(1,3) ep1 c2 in \<open>auto simp: s_def\<close>)
qed

lemma thread_accept:
  assumes "thread_ok bro ep xs" "length xs < MAX_FD_PER_LOOP" "r \<notin> set (open_fds ep)"
    and "0 < r" "r < int (MAX_FD_PER_LOOP * LOOP_COUNT)"
  obtains bro' ep' where "accept_client pb fd r added bro ep = Ok (bro', ep')"
    "thread_ok bro' ep' (xs @ [nat r])" "l_sock ep' = l_sock ep" "th_id ep' = th_id ep"
    "open_fds ep' = r # open_fds ep" "watched ep' = (if added then [r] else []) @ watched ep"
    "\<exists>h. clients bro' (nat r) = (clients bro (nat r))\<lparr>sock := r, epoll_id := th_id ep, hh := h\<rparr>"
    "\<And>x. x \<noteq> nat r \<Longrightarrow> \<exists>h. clients bro' x = (clients bro x)\<lparr>hh := h\<rparr>"
    "\<And>x. x \<notin> insert (nat r) (set xs) \<Longrightarrow> clients bro' x = clients bro x"
    "bro'\<lparr>clients := clients bro\<rparr> = bro"
proof -
  have r: "int (nat r) = r" "0 < nat r" using assms(4) by simp_all
  have new: "nat r \<notin> set xs"
  proof
    assume "nat r \<in> set xs"
    then have "int (nat r) \<in> int ` set xs" by (rule imageI)
    with assms(1,3) r(1) show False by (simp add: thread_ok_def)
  qed
  obtain bro' ep' where 1: "accept_client pb fd r added bro ep = Ok (bro', ep')"
    "hash_ok (thread_hash bro' ep') (xs @ [nat r])"
    "\<And>x. \<exists>h. clients bro' x = (if x = nat r then (clients bro x)\<lparr>sock := r, epoll_id := th_id ep\<rparr> else clients bro x)\<lparr>hh := h\<rparr>"
    "\<And>x. x \<notin> insert (nat r) (set xs) \<Longrightarrow> clients bro' x = clients bro x" "bro'\<lparr>clients := clients bro\<rparr> = bro"
    "base_sock ep' = base_sock ep" "l_sock ep' = l_sock ep" "th_id ep' = th_id ep"
    "open_fds ep' = r # open_fds ep" "watched ep' = (if added then [r] else []) @ watched ep"
    by (rule accept_run [OF assms(1,2) new assms(4,5)]) (rule that)
  have c: "cur_ok (clients bro' x) = cur_ok (clients bro x)"
    "sock (clients bro' x) = (if x = nat r then r else sock (clients bro x))" for x
    using 1(3) [of x] by (auto split: if_splits)
  have "thread_ok bro' ep' (xs @ [nat r])"
    unfolding thread_ok_def
  proof (intro conjI)
    show "\<forall>x\<in>set (xs @ [nat r]). sock (clients bro' x) = int x \<and> 0 < x \<and> x < 32200 * 16"
      using assms(1,4,5) new c(2) by (auto simp: thread_ok_def)
    show "l_sock ep' \<notin> int ` set (xs @ [nat r])" using assms(1,3) r(1) 1(7) by (auto simp: thread_ok_def)
    show "set (open_fds ep') = insert (l_sock ep') (int ` set (xs @ [nat r]))"
      using assms(1) r(1) 1(7,9) by (auto simp: thread_ok_def)
    show "set (watched ep') \<subseteq> set (open_fds ep')" using assms(1) 1(9,10) by (auto simp: thread_ok_def)
  qed (use 1(2,6,7) c(1) assms(1) in \<open>simp_all add: thread_ok_def\<close>)
  moreover have "\<exists>h. clients bro' x = (clients bro x)\<lparr>hh := h\<rparr>" if "x \<noteq> nat r" for x using 1(3) [of x] that by simp
  ultimately show thesis using 1(3) [of "nat r"] by (intro that [OF 1(1) _ 1(7-10) _ _ 1(4,5)]) simp_all
qed

lemma accept_none:
  assumes "r \<le> 0 \<or> int (MAX_FD_PER_LOOP * LOOP_COUNT) \<le> r"
  shows "accept_client pb fd r added bro ep = Ok (bro, ep)"
  using assms by (auto simp: accept_client_def accept_connection_def)

section \<open>Sending to all\<close>

text \<open>One client: its bytes go out, it stays in the list or leaves it, and the next one follows.\<close>

lemma flush_one_ok:
  assumes "thread_ok bro ep (as @ s # zs)" "flush_one rs s bro ep = Ok (bro', ep', nxt, out)"
  obtains ys where "thread_ok bro' ep' (ys @ zs)" "ys = as \<or> ys = as @ [s]"
    "nxt = (if zs = [] then None else Some (hd zs))"
    "\<And>x. x \<notin> set (as @ s # zs) \<Longrightarrow> clients bro' x = clients bro x"
    "\<And>x. x \<noteq> s \<Longrightarrow> \<exists>h. clients bro' x = (clients bro x)\<lparr>hh := h\<rparr>"
    "l_sock ep' = l_sock ep" "set (open_fds ep') \<subseteq> set (open_fds ep)"
proof -
  from assms(2) obtain e c rest b1 e1 where 1: "flush_client rs (clients bro s) = Ok (e, c, out, rest)"
    "(if e = Skip_critical then remove_client (sock c) (set_client s c bro) ep
      else Ok (set_client s c bro, ep)) = Ok (bro', ep')" "nxt = next_el (hh (clients bro' s))"
    by (auto simp: flush_one_def obind_eq_Ok)
  have t: "thread_ok (set_client s c bro) ep (as @ s # zs)"
    by (rule thread_ok_keeps [OF assms(1) bro_keeps_set [OF flush_client_keeps [OF 1(1)]]])
  have nx: "next_el (hh c) = (if zs = [] then None else Some (hd zs))"
    using hash_ok_next [of "thread_hash (set_client s c bro) ep" as s zs] t
    by (auto simp: thread_ok_def thread_hash_def)
  show thesis
  proof (cases "e = Skip_critical")
    case False
    then have b: "bro' = set_client s c bro" "ep' = ep" using 1(2) by auto
    show thesis
    proof (rule that [of "as @ [s]"])
      show "\<exists>h. clients bro' x = (clients bro x)\<lparr>hh := h\<rparr>" if "x \<noteq> s" for x
        using that b(1) by (intro exI [of _ "hh (clients bro x)"]) simp
    qed (use t b nx 1(3) in auto)
  next
    case True
    have "sock c = int s" using t by (auto simp: thread_ok_def)
    then have r: "remove_client (int s) (set_client s c bro) ep = Ok (bro', ep')" using True 1(2) by simp
    have "s \<notin> set as" using assms(1) by (auto simp: thread_ok_def hash_ok_def)
    then have rm: "remove1 s (as @ s # zs) = as @ zs" by (simp add: remove1_append)
    obtain b2 e2 where 2: "remove_client (int s) (set_client s c bro) ep = Ok (b2, e2)"
      "thread_ok b2 e2 (remove1 s (as @ s # zs))"
      "next_el (hh (clients b2 s)) = next_el (hh (clients (set_client s c bro) s))"
      "\<And>x. x \<noteq> s \<Longrightarrow> \<exists>h. clients b2 x = (clients (set_client s c bro) x)\<lparr>hh := h\<rparr>"
      "\<And>x. x \<notin> set (as @ s # zs) \<Longrightarrow> clients b2 x = clients (set_client s c bro) x"
      "l_sock e2 = l_sock ep" "set (open_fds e2) = set (open_fds ep) - {int s}"
      by (rule thread_remove [OF t, of s]) (simp, rule that)
    from 2(1) r have b: "b2 = bro'" "e2 = ep'" by simp_all
    show thesis
      by (rule that [of as]) (use 2 1(3) nx in \<open>auto simp: rm b\<close>)
  qed
qed

lemma flush_clients_visits:
  assumes "thread_ok bro ep (as @ zs)" "length zs \<le> fuel"
    and "flush_clients fuel sends (if zs = [] then None else Some (hd zs)) bro ep = Ok (bro', ep', outs)"
  shows "map fst outs = zs \<and> (\<exists>ys. thread_ok bro' ep' (as @ ys) \<and> set ys \<subseteq> set zs)"
  using assms
proof (induction zs arbitrary: as fuel bro ep outs)
  case Nil
  then show ?case by (auto intro: exI [of _ "[]"])
next
  case (Cons s zs)
  then obtain n where n: "fuel = Suc n" by (cases fuel) auto
  with Cons.prems(3) obtain b1 e1 nxt out outs1 where 1:
    "flush_one (sends s) s bro ep = Ok (b1, e1, nxt, out)"
    "flush_clients n sends nxt b1 e1 = Ok (bro', ep', outs1)" "outs = (s, out) # outs1"
    by (auto simp: obind_eq_Ok)
  obtain ys where 2: "thread_ok b1 e1 (ys @ zs)" "ys = as \<or> ys = as @ [s]"
    "nxt = (if zs = [] then None else Some (hd zs))"
    by (rule flush_one_ok [OF Cons.prems(1) 1(1)]) (rule that)
  have "length zs \<le> n" using Cons.prems(2) n by simp
  from Cons.IH [OF 2(1) this 1(2) [unfolded 2(3)]] obtain us where
    3: "map fst outs1 = zs" "thread_ok bro' ep' (ys @ us)" "set us \<subseteq> set zs" by auto
  from 2(2) show ?case
  proof
    assume "ys = as"
    with 3 1(3) show ?thesis by (intro conjI exI [of _ us]) auto
  next
    assume "ys = as @ [s]"
    with 3 1(3) show ?thesis by (intro conjI exI [of _ "s # us"]) auto
  qed
qed

end
