(* ===== verification/Event_Loop_Properties.thy ===== *)
theory Event_Loop_Properties
  imports Event_Loop_Facts
begin

text \<open>
  The properties of the event loop: the list of a thread's clients along every run, the pass
  of the sending loop over it, and what happens at the limit and when a slot is used again.
\<close>

section \<open>Runs of a thread\<close>

text \<open>
  A step of a thread, with steps of the other threads in between: they may change the broker,
  but they leave alone the handle and the socket of this thread's clients.
\<close>

inductive thread_step :: "(slot option \<Rightarrow> u8 list) \<Rightarrow> thread \<Rightarrow> thread \<Rightarrow> bool" for pb where
  receive: "kernel_ok ev t \<Longrightarrow> handle_event pb ev t = Ok t' \<Longrightarrow> thread_step pb t t'"
| send: "flush_pass sends t = Ok (t', outs) \<Longrightarrow> thread_step pb t t'"
| other: "\<forall>x. int x \<in> set (open_fds (t_ep t)) \<longrightarrow> keeps (clients (t_bro t) x) (clients bro x) \<Longrightarrow>
    \<forall>x. cur_ok (clients bro x) \<Longrightarrow> thread_step pb t (t\<lparr>t_bro := bro\<rparr>)"

definition fresh_thread :: "thread \<Rightarrow> bool" where
  "fresh_thread t \<longleftrightarrow> contexts_by_ptr (t_ep t) = None \<and> base_sock (t_ep t) = 0 \<and> 0 \<le> l_sock (t_ep t) \<and>
     open_fds (t_ep t) = [l_sock (t_ep t)] \<and> set (watched (t_ep t)) \<subseteq> {l_sock (t_ep t)} \<and>
     (\<forall>x. cur_ok (clients (t_bro t) x))"

abbreviation clients_are :: "thread \<Rightarrow> slot list \<Rightarrow> bool" where
  "clients_are t xs \<equiv> thread_ok (t_bro t) (t_ep t) xs"

lemma fresh_thread_ok: "fresh_thread t \<Longrightarrow> clients_are t []"
  by (simp add: fresh_thread_def thread_ok_def hash_ok_def app_list_def thread_hash_def)

lemma below_capacity_length: "clients_are t xs \<Longrightarrow> below_capacity t = (length xs < MAX_FD_PER_LOOP)"
  using hash_rep_cnt [of "thread_hash (t_bro t) (t_ep t)" xs] by (simp add: thread_ok_def below_capacity_def)

text \<open>
  An event changes the list of the thread; of the other clients it changes only what the other
  threads do not rely on.
\<close>

lemma handle_listener:
  assumes "clients_are t xs" "kernel_ok ev t" "ev_fd ev = l_sock (t_ep t)" "handle_event pb ev t = Ok t'"
  obtains ys where "clients_are t' ys" "set (open_fds (t_ep t')) \<subseteq> insert (ev_accept ev) (set (open_fds (t_ep t)))"
    "\<And>x. int x \<notin> insert (ev_accept ev) (set (open_fds (t_ep t))) \<Longrightarrow>
      keeps (clients (t_bro t) x) (clients (t_bro t') x)"
proof -
  have k: "ev_accept ev \<notin> set (open_fds (t_ep t))" "length xs < MAX_FD_PER_LOOP"
    using assms(1-3) below_capacity_length by (auto simp: kernel_ok_def)
  have h: "obind (accept_client pb (ev_fd ev) (ev_accept ev) (ev_added ev) (t_bro t) (t_ep t))
      (\<lambda>(bro, ep). Ok (t\<lparr>t_bro := bro, t_ep := ep\<rparr>)) = Ok t'"
    using assms(3,4) by (simp add: handle_event_def Let_def)
  show thesis
  proof (cases "0 < ev_accept ev \<and> ev_accept ev < int (MAX_FD_PER_LOOP * LOOP_COUNT)")
    case True
    obtain bro' ep' where a: "accept_client pb (ev_fd ev) (ev_accept ev) (ev_added ev) (t_bro t) (t_ep t) = Ok (bro', ep')"
      "thread_ok bro' ep' (xs @ [nat (ev_accept ev)])" "open_fds ep' = ev_accept ev # open_fds (t_ep t)"
      "\<And>x. x \<notin> insert (nat (ev_accept ev)) (set xs) \<Longrightarrow> clients bro' x = clients (t_bro t) x"
      by (rule thread_accept [OF assms(1) k(2,1), of pb "ev_fd ev" "ev_added ev"]) (use True in auto)
    have out: "x \<notin> insert (nat (ev_accept ev)) (set xs)"
      if "int x \<notin> insert (ev_accept ev) (set (open_fds (t_ep t)))" for x
      using that assms(1) True by (auto simp: thread_ok_def)
    show thesis
      by (rule that [of "xs @ [nat (ev_accept ev)]"]) (use h a out in auto)
  next
    case False
    with h accept_none [of "ev_accept ev"] assms(1) show thesis by (intro that [of xs]) auto
  qed
qed

lemma handle_client:
  assumes "clients_are t xs" "kernel_ok ev t" "ev_fd ev \<noteq> l_sock (t_ep t)" "handle_event pb ev t = Ok t'"
  obtains ys where "clients_are t' ys" "set (open_fds (t_ep t')) \<subseteq> set (open_fds (t_ep t))"
    "\<And>x. int x \<notin> set (open_fds (t_ep t)) \<Longrightarrow> keeps (clients (t_bro t) x) (clients (t_bro t') x)"
proof -
  have fds: "set (open_fds (t_ep t)) = insert (l_sock (t_ep t)) (int ` set xs)" "ev_fd ev \<in> set (open_fds (t_ep t))"
    using assms(1,2) by (auto simp: thread_ok_def kernel_ok_def)
  with assms(3) obtain s where s: "ev_fd ev = int s" "s \<in> set xs" by auto
  from assms(3,4) obtain r bro1 es where 1: "loop_read (base_sock (t_ep t)) (slot_of (t_ep t) (ev_fd ev))
      (ev_mem ev) (ev_hup ev) (ev_err ev) (ev_in ev) (t_inbox t (ev_fd ev) @ ev_data ev) (t_bro t) = Ok (r, bro1, es)"
    "(if r \<le> 0 then
        obind (remove_client (ev_fd ev) bro1 (t_ep t)) (\<lambda>(bro, ep).
          Ok (t\<lparr>t_bro := bro, t_ep := ep, t_inbox := (t_inbox t)(ev_fd ev := [])\<rparr>))
      else Ok (t\<lparr>t_bro := bro1, t_inbox := (t_inbox t)(ev_fd ev := es)\<rparr>)) = Ok t'"
    unfolding handle_event_def Let_def if_P [OF assms(3)] obind_eq_Ok by auto
  have k: "bro_keeps (t_bro t) bro1" by (rule loop_read_keeps [OF 1(1)])
  have ok1: "thread_ok bro1 (t_ep t) xs" by (rule thread_ok_keeps [OF assms(1) k])
  show thesis
  proof (cases "r \<le> 0")
    case True
    obtain bro2 ep2 where r: "remove_client (int s) bro1 (t_ep t) = Ok (bro2, ep2)" "thread_ok bro2 ep2 (remove1 s xs)"
      "\<And>x. x \<notin> set xs \<Longrightarrow> clients bro2 x = clients bro1 x" "set (open_fds ep2) = set (open_fds (t_ep t)) - {int s}"
      by (rule thread_remove [OF ok1 s(2)]) (rule that)
    have t': "t' = t\<lparr>t_bro := bro2, t_ep := ep2, t_inbox := (t_inbox t)(ev_fd ev := [])\<rparr>"
      using 1(2) True s(1) r(1) by simp
    show thesis
    proof (rule that [of "remove1 s xs"])
      show "keeps (clients (t_bro t) x) (clients (t_bro t') x)" if "int x \<notin> set (open_fds (t_ep t))" for x
      proof -
        have "x \<notin> set xs" using that fds(1) by auto
        from r(3) [OF this] k show ?thesis by (simp add: t' bro_keeps_def)
      qed
    qed (use r t' in auto)
  next
    case False
    with 1(2) ok1 k show thesis by (intro that [of xs]) (auto simp: bro_keeps_def)
  qed
qed

lemma handle_event_clients:
  assumes "clients_are t xs" "kernel_ok ev t" "handle_event pb ev t = Ok t'"
  obtains ys where "clients_are t' ys"
    "set (open_fds (t_ep t')) \<subseteq> set (open_fds (t_ep t)) \<union> (if ev_fd ev = l_sock (t_ep t) then {ev_accept ev} else {})"
    "\<And>x. int x \<notin> set (open_fds (t_ep t)) \<Longrightarrow> ev_fd ev = l_sock (t_ep t) \<longrightarrow> int x \<noteq> ev_accept ev \<Longrightarrow>
      keeps (clients (t_bro t) x) (clients (t_bro t') x)"
proof (cases "ev_fd ev = l_sock (t_ep t)")
  case True
  show thesis
    by (rule handle_listener [OF assms(1,2) True assms(3)], rule that) (use True in auto)
next
  case False
  show thesis
    by (rule handle_client [OF assms(1,2) False assms(3)], rule that) (use False in auto)
qed

lemma flush_pass_visits:
  assumes "clients_are t xs" "flush_pass sends t = Ok (t', outs)"
  shows "map fst outs = xs" "\<exists>ys. clients_are t' ys \<and> set ys \<subseteq> set xs"
proof -
  have h: "hash_ok (thread_hash (t_bro t) (t_ep t)) xs" using assms(1) by (simp add: thread_ok_def)
  have hd: "contexts_by_ptr (t_ep t) = (if xs = [] then None else Some (hd xs))"
    using hash_ok_head [OF h] by (simp add: thread_hash_def)
  from assms(2) obtain bro ep where 1:
    "flush_clients (length xs) sends (contexts_by_ptr (t_ep t)) (t_bro t) (t_ep t) = Ok (bro, ep, outs)"
    "t' = t\<lparr>t_bro := bro, t_ep := ep\<rparr>"
    by (auto simp: flush_pass_def hash_rep_cnt [OF h] obind_eq_Ok)
  from flush_clients_visits [of "t_bro t" "t_ep t" "[]" xs "length xs" sends bro ep outs] assms(1) 1 hd
  show "map fst outs = xs" "\<exists>ys. clients_are t' ys \<and> set ys \<subseteq> set xs" by auto
qed

text \<open>Steps of other threads.\<close>

lemma thread_ok_other:
  assumes "thread_ok bro ep xs" "\<forall>x. int x \<in> set (open_fds ep) \<longrightarrow> keeps (clients bro x) (clients bro' x)"
    and "\<forall>x. cur_ok (clients bro' x)"
  shows "thread_ok bro' ep xs"
proof -
  have own: "keeps (clients bro x) (clients bro' x)" if "x \<in> set xs" for x
    using that assms(1,2) by (auto simp: thread_ok_def)
  have "hash_ok (thread_hash bro' ep) xs"
    by (rule thread_hash_keeps [of bro ep]) (use own assms(1) in \<open>auto simp: thread_ok_def keeps_def\<close>)
  then show ?thesis using assms(1,3) own unfolding thread_ok_def by (auto simp: keeps_def)
qed

lemma thread_step_clients:
  assumes "thread_step pb t t'" "clients_are t xs"
  shows "\<exists>ys. clients_are t' ys"
  using assms
proof (induction rule: thread_step.induct)
  case (receive ev t t')
  obtain ys where "clients_are t' ys"
    by (rule handle_event_clients [OF receive.prems receive.hyps]) (rule that)
  then show ?case ..
next
  case (send sends t t' outs)
  then show ?case using flush_pass_visits(2) by blast
next
  case (other t bro)
  then show ?case using thread_ok_other [of "t_bro t" "t_ep t" xs bro] by auto
qed

lemma thread_run_clients:
  "(thread_step pb)\<^sup>*\<^sup>* t t' \<Longrightarrow> clients_are t xs \<Longrightarrow> \<exists>ys. clients_are t' ys"
  by (induction arbitrary: xs rule: rtranclp_induct) (use thread_step_clients in blast)+

section \<open>A pass of the sending loop\<close>

lemma sender_ok_hh [simp]: "sender_ok (c\<lparr>hh := h\<rparr>) = sender_ok c"
  by (simp add: sender_ok_def cur_packet_def cong: option.case_cong)

lemma flush_client_safe:
  "sender_ok c \<Longrightarrow> flush_client rs c \<noteq> Fault \<and>
   (\<forall>e c' out rs'. flush_client rs c = Ok (e, c', out, rs') \<longrightarrow> sender_ok c')"
  using flush_loop_safe [of c "nat (num_sending_pack c)" rs] by (auto simp: flush_client_def)

lemma flush_one_safe:
  assumes "thread_ok bro ep xs" "s \<in> set xs" "sender_ok (clients bro s)"
  shows "flush_one rs s bro ep \<noteq> Fault"
proof (cases "flush_client rs (clients bro s)")
  case (Ok y)
  then obtain e c out rest where f: "flush_client rs (clients bro s) = Ok (e, c, out, rest)" by (cases y) auto
  have t: "thread_ok (set_client s c bro) ep xs"
    by (rule thread_ok_keeps [OF assms(1) bro_keeps_set [OF flush_client_keeps [OF f]]])
  moreover have "sock c = int s" using t assms(2) by (auto simp: thread_ok_def)
  moreover obtain b2 e2 where "remove_client (int s) (set_client s c bro) ep = Ok (b2, e2)"
    by (rule thread_remove [OF t assms(2)])
  ultimately show ?thesis using f by (simp add: flush_one_def)
qed (use flush_client_safe [OF assms(3), of rs] in \<open>simp_all add: flush_one_def\<close>)

lemma flush_clients_safe:
  assumes "thread_ok bro ep (as @ zs)" "\<forall>s \<in> set zs. sender_ok (clients bro s)"
  shows "flush_clients fuel sends (if zs = [] then None else Some (hd zs)) bro ep \<noteq> Fault"
  using assms
proof (induction zs arbitrary: as fuel bro ep)
  case (Cons s zs)
  have safe: "flush_one (sends s) s bro ep \<noteq> Fault"
    by (rule flush_one_safe [OF Cons.prems(1)]) (use Cons.prems(2) in auto)
  show ?case
  proof (cases "\<exists>n y. fuel = Suc n \<and> flush_one (sends s) s bro ep = Ok y")
    case True
    then obtain n b1 e1 nxt out where 1: "fuel = Suc n" "flush_one (sends s) s bro ep = Ok (b1, e1, nxt, out)"
      by (metis prod_cases4)
    obtain ys where 2: "thread_ok b1 e1 (ys @ zs)" "nxt = (if zs = [] then None else Some (hd zs))"
      "\<And>x. x \<noteq> s \<Longrightarrow> \<exists>h. clients b1 x = (clients bro x)\<lparr>hh := h\<rparr>"
      by (rule flush_one_ok [OF Cons.prems(1) 1(2)]) (rule that)
    have "s \<notin> set zs" using Cons.prems(1) by (auto simp: thread_ok_def hash_ok_def)
    then have "\<forall>x \<in> set zs. sender_ok (clients b1 x)" using 2(3) Cons.prems(2) by (metis list.set_intros(2) sender_ok_hh)
    from Cons.IH [OF 2(1) this, of n] show ?thesis
      using 1 by (cases "flush_clients n sends nxt b1 e1") (auto simp: 2(2))
  next
    case False
    with safe show ?thesis by (cases fuel; cases "flush_one (sends s) s bro ep") auto
  qed
qed simp

text \<open>When every socket takes everything.\<close>

definition waiting :: "client \<Rightarrow> packet list \<Rightarrow> send_result list list \<Rightarrow> bool" where
  "waiting c pks rss \<longleftrightarrow> queued c pks \<and> sending_cur_packet c = None \<and> num_sending_pack c = int (length pks) \<and>
     list_all2 (\<lambda>rs p. sized p \<and> wcur p = 0 \<and> covers rs (length (send_buf p))) rss pks"

lemma waiting_sent:
  assumes "waiting c pks rss"
  obtains c' where "flush_client (concat rss) c = Ok (Sent_all, c', concat (map send_buf pks), [])"
    "waiting c' [] []"
proof (cases "pks = []")
  case True
  with assms that [of c] show thesis by (auto simp: waiting_def flush_client_def)
next
  case False
  then have n: "\<not> num_sending_pack c < 1" using assms by (cases pks) (auto simp: waiting_def)
  obtain c' where "flush_loop (length pks) (concat rss) c = Ok (Sent_all, c', concat (map send_buf pks), [])"
    "queued c' []" "sending_cur_packet c' = None" "num_sending_pack c' = num_sending_pack c - int (length pks)"
    using flush_loop_all [of c pks "[]" rss "[]"] assms by (auto simp: waiting_def)
  with n assms that show thesis by (auto simp: waiting_def flush_client_def)
qed

lemma flush_clients_all:
  assumes "thread_ok bro ep (as @ zs)" "\<forall>s \<in> set zs. waiting (clients bro s) (pks s) (rss s) \<and> sends s = concat (rss s)"
  shows "\<exists>bro'. flush_clients (length zs) sends (if zs = [] then None else Some (hd zs)) bro ep =
      Ok (bro', ep, map (\<lambda>s. (s, concat (map send_buf (pks s)))) zs) \<and> thread_ok bro' ep (as @ zs) \<and>
    (\<forall>s \<in> set zs. waiting (clients bro' s) [] []) \<and> (\<forall>s. s \<notin> set zs \<longrightarrow> clients bro' s = clients bro s)"
  using assms
proof (induction zs arbitrary: as bro)
  case (Cons s zs)
  have d: "s \<notin> set as" "s \<notin> set zs" using Cons.prems(1) by (auto simp: thread_ok_def hash_ok_def)
  obtain c where f: "flush_client (concat (rss s)) (clients bro s) = Ok (Sent_all, c, concat (map send_buf (pks s)), [])"
    "waiting c [] []" by (rule waiting_sent [of "clients bro s" "pks s" "rss s"]) (use Cons.prems(2) in auto)
  have k: "keeps (clients bro s) c" by (rule flush_client_keeps [OF f(1)])
  have t: "thread_ok (set_client s c bro) ep (as @ s # zs)"
    by (rule thread_ok_keeps [OF Cons.prems(1) bro_keeps_set [OF k]])
  have nx: "next_el (hh c) = (if zs = [] then None else Some (hd zs))"
    using hash_ok_next [of "thread_hash (set_client s c bro) ep" as s zs] t
    by (auto simp: thread_ok_def thread_hash_def)
  with f(1) Cons.prems(2) have one: "flush_one (sends s) s bro ep = Ok (set_client s c bro, ep,
      if zs = [] then None else Some (hd zs), concat (map send_buf (pks s)))" by (simp add: flush_one_def)
  have "\<forall>x \<in> set zs. waiting (clients (set_client s c bro) x) (pks x) (rss x) \<and> sends x = concat (rss x)" using Cons.prems(2) d by auto
  with Cons.IH [where as = "as @ [s]" and bro = "set_client s c bro"] t obtain bro' where
    "flush_clients (length zs) sends (if zs = [] then None else Some (hd zs)) (set_client s c bro) ep =
      Ok (bro', ep, map (\<lambda>s. (s, concat (map send_buf (pks s)))) zs)"
    "thread_ok bro' ep (as @ s # zs)" "\<forall>s \<in> set zs. waiting (clients bro' s) [] []"
    "\<forall>x. x \<notin> set zs \<longrightarrow> clients bro' x = clients (set_client s c bro) x" by auto
  then show ?case using f(2) one d by (intro exI [of _ bro']) auto
qed simp

text \<open>The whole pass when every socket takes everything.\<close>

lemma flush_pass_all:
  assumes "thread_ok (t_bro t) (t_ep t) xs"
    and "\<forall>s \<in> set xs. waiting (clients (t_bro t) s) (pks s) (rss s) \<and> sends s = concat (rss s)"
  shows "\<exists>t'. flush_pass sends t = Ok (t', map (\<lambda>s. (s, concat (map send_buf (pks s)))) xs) \<and>
    thread_ok (t_bro t') (t_ep t') xs \<and> (\<forall>s \<in> set xs. waiting (clients (t_bro t') s) [] []) \<and>
    (\<forall>s. s \<notin> set xs \<longrightarrow> clients (t_bro t') s = clients (t_bro t) s)"
proof -
  have h: "hash_ok (thread_hash (t_bro t) (t_ep t)) xs" using assms(1) by (simp add: thread_ok_def)
  then have hd: "contexts_by_ptr (t_ep t) = (if xs = [] then None else Some (hd xs))"
    using hash_ok_head by (fastforce simp: thread_hash_def)
  from flush_clients_all [of "t_bro t" "t_ep t" "[]" xs pks rss sends] assms obtain bro' where
    "flush_clients (length xs) sends (if xs = [] then None else Some (hd xs)) (t_bro t) (t_ep t) =
      Ok (bro', t_ep t, map (\<lambda>s. (s, concat (map send_buf (pks s)))) xs)" "thread_ok bro' (t_ep t) xs"
    "\<forall>s \<in> set xs. waiting (clients bro' s) [] []"
    "\<forall>s. s \<notin> set xs \<longrightarrow> clients bro' s = clients (t_bro t) s" by auto
  then show ?thesis
    by (intro exI [of _ "t\<lparr>t_bro := bro'\<rparr>"]) (simp add: flush_pass_def hash_rep_cnt [OF h] hd)
qed

text \<open>A CONNECT does not touch the packet being sent.\<close>

lemma ack_msg_cur: "ack_msg c m l r = Ok c' \<Longrightarrow> sending_cur_packet c' = sending_cur_packet c"
  by (auto simp: ack_msg_def obind_eq_Ok dest: enqueue_cur split: option.splits)

lemma handle_connect_cur:
  "handle_connect base s m bro = Ok (rc, bro') \<Longrightarrow>
   sending_cur_packet (clients bro' x) = sending_cur_packet (clients bro x)"
  by (auto simp: handle_connect_def add_client_def obind_eq_Ok Let_def split: if_splits option.splits
      dest!: ack_msg_cur)

section \<open>Examples\<close>

definition example_ep :: epollop where
  "example_ep = \<lparr>epfd = 4, num_events = 96600, l_sock = 3, base_sock = 0, th_id = 0, contexts_by_ptr = None,
     ctx_tbl = None, watched = [3], open_fds = [3]\<rparr>"

definition example_thread :: thread where
  "example_thread = \<lparr>t_bro = broker0 [], t_ep = example_ep, t_inbox = (\<lambda>_. [])\<rparr>"

lemma example_ep_fields [simp]:
  "l_sock example_ep = 3" "open_fds example_ep = [3]" "watched example_ep = [3]"
  "base_sock example_ep = 0" "contexts_by_ptr example_ep = None" "ctx_tbl example_ep = None"
  by (simp_all add: example_ep_def)

lemma client0_hh: "hh client0 = handle0" "cur_ok client0" "sock client0 = 0"
  by (simp_all add: client0_def cur_ok_def)

lemma example_start:
  "\<forall>x. cur_ok (clients bro x) \<Longrightarrow> thread_ok bro example_ep []"
  using fresh_thread_ok [of "\<lparr>t_bro = bro, t_ep = example_ep, t_inbox = (\<lambda>_. [])\<rparr>"]
  by (simp add: fresh_thread_def)

lemma example_fresh: "fresh_thread example_thread" "thread_ok (broker0 []) example_ep []"
  using client0_hh example_start [of "broker0 []"]
  by (simp_all add: fresh_thread_def example_thread_def broker0_def)

text \<open>A thread with one client, in slot 5, for which one packet of three bytes waits.\<close>

lemma example_client:
  obtains bro ep where "thread_ok bro ep [5]" "l_sock ep = 3" "set (open_fds ep) = {3, 5}"
    "waiting (clients bro 5) [new_packet [7, 8, 9] 3] [[(2, False), (1, False)]]" "sender_ok (clients bro 5)"
proof -
  let ?p = "new_packet [7, 8, 9] 3"
  obtain c where c: "enqueue ?p client0 = Ok c" "queued c [?p]" "sending_cur_packet c = None" "num_sending_pack c = 1"
    by (rule one_packet [of ?p]) (simp_all add: new_packet_def)
  have k: "keeps client0 c" by (rule enqueue_keeps [OF c(1)])
  let ?bro = "set_client 5 c (broker0 [])"
  have t: "thread_ok ?bro example_ep []"
    using k client0_hh by (intro example_start) (simp add: keeps_def broker0_def)
  obtain bro ep where 1: "thread_ok bro ep ([] @ [nat 5])" "l_sock ep = l_sock example_ep"
    "open_fds ep = 5 # open_fds example_ep"
    "\<exists>h. clients bro (nat 5) = (clients ?bro (nat 5))\<lparr>sock := 5, epoll_id := th_id example_ep, hh := h\<rparr>"
    by (rule thread_accept [OF t, of 5 "\<lambda>_. []" 3 True]) auto
  then obtain h where h: "clients bro 5 = c\<lparr>sock := 5, epoll_id := th_id example_ep, hh := h\<rparr>" by auto
  have w: "waiting (clients bro 5) [?p] [[(2, False), (1, False)]]"
    using c by (simp add: h waiting_def new_packet_def sized_def covers_def)
  have "cur_packet (clients bro 5) = None" using c(3) by (simp add: h cur_packet_def)
  then have "sender_ok (clients bro 5)"
    using w by (intro sender_ok_def [THEN iffD2] exI [of _ "[?p]"]) (simp add: waiting_def new_packet_def)
  with 1 w show thesis by (intro that [of bro ep]) auto
qed

text \<open>A thread at its limit.\<close>

lemma full_thread:
  assumes "n \<le> MAX_FD_PER_LOOP"
  shows "\<exists>bro ep xs. thread_ok bro ep xs \<and> l_sock ep = 3 \<and> length xs = n \<and> (\<forall>s \<in> set xs. s < 4 + n) \<and>
    hh (clients bro 3) = handle0"
  using assms
proof (induction n)
  case 0
  have "hh (clients (broker0 []) 3) = handle0" using client0_hh by (simp add: broker0_def)
  then show ?case using example_fresh(2) by (intro exI [of _ "broker0 []"] exI [of _ example_ep]) simp
next
  case (Suc n)
  then obtain bro ep xs where t: "thread_ok bro ep xs" "l_sock ep = 3" "length xs = n" "\<forall>s \<in> set xs. s < 4 + n"
    "hh (clients bro 3) = handle0" by auto
  have r: "length xs < MAX_FD_PER_LOOP" "int (4 + n) \<notin> set (open_fds ep)" "0 < int (4 + n)"
    "int (4 + n) < int (MAX_FD_PER_LOOP * LOOP_COUNT)"
    using t Suc.prems by (auto simp: thread_ok_def)
  obtain bro' ep' where n: "thread_ok bro' ep' (xs @ [nat (int (4 + n))])" "l_sock ep' = l_sock ep"
    "\<And>x. x \<notin> insert (nat (int (4 + n))) (set xs) \<Longrightarrow> clients bro' x = clients bro x"
    by (rule thread_accept [OF t(1) r, of "\<lambda>_. []" 3 True]) (rule that)
  have "nat (int (4 + n)) = 4 + n" by (rule nat_int)
  with n t have "thread_ok bro' ep' (xs @ [4 + n])" "\<forall>s \<in> set (xs @ [4 + n]). s < 4 + Suc n" by auto
  moreover have "(3 :: nat) \<notin> insert (nat (int (4 + n))) (set xs)"
    using t(1,2) thread_listener [OF t(1)] by simp
  with n(3) have "hh (clients bro' 3) = handle0" using t(5) by simp
  ultimately show ?case using n(2) t(2,3)
    by (intro exI [of _ bro'] exI [of _ ep'] exI [of _ "xs @ [4 + n]"]) simp
qed

section \<open>The properties\<close>

text \<open>Along every run of a thread, with the steps of the other threads in between, the
  hash table holds the clients of the thread's open connections and nothing else: there is a
  list of slots that the loop over \<open>hh.next\<close> visits and \<open>HASH_COUNT\<close> counts, every one is in
  range and has its descriptor as socket, and the thread's open descriptors are those and the
  listening one.  This needs that a connection is accepted only below the limit.\<close>

lemma thread_clients_listed:
  assumes "fresh_thread t0" "(thread_step pb)\<^sup>*\<^sup>* t0 t"
  shows "\<exists>xs. thread_ok (t_bro t) (t_ep t) xs \<and> hash_cnt (thread_hash (t_bro t) (t_ep t)) = Ok (length xs) \<and>
    hash_walk (length xs) (\<lambda>s. hh (clients (t_bro t) s)) (contexts_by_ptr (t_ep t)) = Ok xs \<and>
    set (open_fds (t_ep t)) = insert (l_sock (t_ep t)) (int ` set xs)"
proof -
  obtain xs where xs: "clients_are t xs"
    using thread_run_clients [OF assms(2) fresh_thread_ok [OF assms(1)]] by blast
  then have "hash_ok (thread_hash (t_bro t) (t_ep t)) xs" by (simp add: thread_ok_def)
  from hash_rep_cnt [OF this] hash_rep_walk [OF this order_refl] xs show ?thesis
    by (intro exI [of _ xs] conjI) (simp_all add: thread_hash_def, simp add: thread_ok_def)
qed

text \<open>C17: Below the limit, accepting a connection with a new descriptor appends its client to
  the thread's list, and removing any client of the list then takes exactly this client out:
  its slot is reset, its descriptor closed, and every other client keeps all its data.
  Neither operation follows a bad pointer.\<close>

theorem clients_come_and_go:
  assumes "thread_ok bro ep xs" "length xs < MAX_FD_PER_LOOP" "r \<notin> set (open_fds ep)"
    and "0 < r" "r < int (MAX_FD_PER_LOOP * LOOP_COUNT)" "s \<in> set xs \<or> int s = r"
  shows "\<exists>bro1 ep1 bro2 ep2. accept_client pb (l_sock ep) r added bro ep = Ok (bro1, ep1) \<and>
    thread_ok bro1 ep1 (xs @ [nat r]) \<and> sock (clients bro1 (nat r)) = r \<and>
    remove_client (int s) bro1 ep1 = Ok (bro2, ep2) \<and> thread_ok bro2 ep2 (remove1 s (xs @ [nat r])) \<and>
    cleaned (clients bro2 s) \<and> int s \<notin> set (open_fds ep2) \<and>
    (\<forall>x. x \<noteq> s \<longrightarrow> (\<exists>h. clients bro2 x = (clients bro1 x)\<lparr>hh := h\<rparr>))"
proof -
  obtain bro1 ep1 where 1: "accept_client pb (l_sock ep) r added bro ep = Ok (bro1, ep1)"
    "thread_ok bro1 ep1 (xs @ [nat r])"
    by (rule thread_accept [OF assms(1-5), of pb "l_sock ep" added])
  have s: "s \<in> set (xs @ [nat r])" using assms(4,6) by auto
  obtain bro2 ep2 where "remove_client (int s) bro1 ep1 = Ok (bro2, ep2)"
    "thread_ok bro2 ep2 (remove1 s (xs @ [nat r]))" "cleaned (clients bro2 s)"
    "\<And>x. x \<noteq> s \<Longrightarrow> \<exists>h. clients bro2 x = (clients bro1 x)\<lparr>hh := h\<rparr>"
    "set (open_fds ep2) = set (open_fds ep1) - {int s}"
    by (rule thread_remove [OF 1(2) s]) (rule that)
  moreover have "sock (clients bro1 (nat r)) = r" using 1(2) assms(4) by (auto simp: thread_ok_def)
  ultimately show ?thesis using 1 by blast
qed

theorem clients_come_and_go_witness:
  "\<exists>bro1 ep1 bro2 ep2. accept_client (\<lambda>_. []) 3 5 True (broker0 []) example_ep = Ok (bro1, ep1) \<and>
    thread_ok bro1 ep1 [5] \<and> remove_client 5 bro1 ep1 = Ok (bro2, ep2) \<and> thread_ok bro2 ep2 []"
  using clients_come_and_go [OF example_fresh(2), of 5 5 "\<lambda>_. []" True] by (simp split del: if_split) blast

text \<open>C16: One pass of the sending loop visits every client of the thread exactly once and in the
  order of the list, even when clients are removed on the way because their socket failed:
  what is left is a part of the list, and no null or dangling pointer is followed as long as
  no client's counter is larger than its queue.\<close>

theorem pass_visits_every_client:
  assumes "thread_ok (t_bro t) (t_ep t) xs" "\<forall>s \<in> set xs. sender_ok (clients (t_bro t) s)"
  shows "flush_pass sends t \<noteq> Fault \<and> (\<forall>t' outs. flush_pass sends t = Ok (t', outs) \<longrightarrow>
    map fst outs = xs \<and> (\<exists>ys. thread_ok (t_bro t') (t_ep t') ys \<and> set ys \<subseteq> set xs))"
proof -
  have h: "hash_ok (thread_hash (t_bro t) (t_ep t)) xs" using assms(1) by (simp add: thread_ok_def)
  then have "contexts_by_ptr (t_ep t) = (if xs = [] then None else Some (hd xs))"
    using hash_ok_head by (fastforce simp: thread_hash_def)
  with flush_clients_safe [of "t_bro t" "t_ep t" "[]" xs "length xs" sends] assms
  have "flush_pass sends t \<noteq> Fault"
    by (cases "flush_clients (length xs) sends (contexts_by_ptr (t_ep t)) (t_bro t) (t_ep t)")
      (auto simp: flush_pass_def hash_rep_cnt [OF h])
  then show ?thesis using flush_pass_visits [OF assms(1)] by blast
qed

theorem pass_visits_every_client_witness:
  "\<exists>t. thread_ok (t_bro t) (t_ep t) [5] \<and> flush_pass (\<lambda>_. [(0, False)]) t \<noteq> Fault"
proof -
  obtain bro ep where "thread_ok bro ep [5]" "sender_ok (clients bro 5)" by (rule example_client)
  then show ?thesis
    using pass_visits_every_client [of "\<lparr>t_bro = bro, t_ep = ep, t_inbox = (\<lambda>_. [])\<rparr>" "[5]" "\<lambda>_. [(0, False)]"]
    by (intro exI [of _ "\<lparr>t_bro = bro, t_ep = ep, t_inbox = (\<lambda>_. [])\<rparr>"]) simp
qed



text \<open>C29: At the limit, a new connection ends the thread's work: \<open>remove_client\<close> is called with
  the listening descriptor, which is closed, and when the handle of its slot was never used, its two
  null links make \<open>HASH_DEL\<close> free the table of all clients.  The new connection stays open
  unwatched, nothing is sent to any client any more, and the next removal of any of them
  follows a null pointer.\<close>

theorem capacity_frees_all_clients:
  assumes "thread_ok bro ep xs" "MAX_FD_PER_LOOP \<le> length xs" "r \<notin> set (open_fds ep)"
    and "0 < r" "r < int (MAX_FD_PER_LOOP * LOOP_COUNT)" "hh (clients bro (nat (l_sock ep))) = handle0"
  shows "\<exists>bro' ep'. accept_client pb (l_sock ep) r added bro ep = Ok (bro', ep') \<and>
    contexts_by_ptr ep' = None \<and> l_sock ep \<notin> set (open_fds ep') \<and>
    r \<in> set (open_fds ep') \<and> r \<notin> set (watched ep') \<and> set (watched ep) - {l_sock ep} \<subseteq> set (watched ep') \<and>
    (\<forall>sends inbox. flush_pass sends \<lparr>t_bro = bro', t_ep = ep', t_inbox = inbox\<rparr> =
       Ok (\<lparr>t_bro = bro', t_ep = ep', t_inbox = inbox\<rparr>, [])) \<and>
    (\<forall>fd bro2. remove_client fd bro2 ep' = Fault)"
proof -
  define s where "s = nat r"
  define l where "l = nat (l_sock ep)"
  have s: "int s = r" using assms(4) by (simp add: s_def)
  define bro1 where "bro1 = set_client s ((clients bro s)\<lparr>sock := r, epoll_id := th_id ep\<rparr>) bro"
  define ep0 where "ep0 = ep\<lparr>open_fds := r # open_fds ep\<rparr>"
  have new: "s \<notin> set xs" "s \<noteq> l" "r \<noteq> l_sock ep" using assms(1,3) s thread_listener(2) [OF assms(1)]
    by (auto simp: thread_ok_def l_def)
  have ok: "hash_ok (thread_hash bro ep) xs" "base_sock ep = 0" "cur_ok (clients bro l)" "xs \<noteq> []"
    using assms(1,2) by (auto simp: thread_ok_def)
  have h0: "hash_ok (thread_hash bro1 ep0) xs"
    by (rule thread_hash_keeps [OF ok(1)]) (use new in \<open>auto simp: bro1_def ep0_def\<close>)
  then obtain h t where ht: "contexts_by_ptr ep0 = Some h" "ctx_tbl ep0 = Some t"
    using ok(4) by (auto simp: hash_ok_def app_list_def thread_hash_def dest!: dll_head)
  have "hash_delete l (thread_hash bro1 ep0) =
      Ok \<lparr>handles = \<lambda>x. hh (clients bro1 x), head = None, tbl = None\<rparr>"
    using assms(6) ht new(2) by (simp add: hash_delete_def thread_hash_def bro1_def handle0_def l_def)
  moreover define bro2 where "bro2 = bro1\<lparr>clients := (\<lambda>x. (clients bro1 x)\<lparr>hh := hh (clients bro1 x)\<rparr>)\<rparr>"
  define ep2 where "ep2 = ep0\<lparr>contexts_by_ptr := None, ctx_tbl := None\<rparr>"
  have "cur_ok (clients bro2 l)" using ok(3) new(2) by (simp add: bro2_def bro1_def)
  then obtain c where c: "clean_context (clients bro2 l) = Ok c" by (rule clean_context_ok)
  have "slot_of ep0 (l_sock ep) = l" using ok(2) by (simp add: slot_of_def ep0_def l_def)
  ultimately have rm: "remove_client (l_sock ep) bro1 ep0 = Ok (set_client l c bro2, disconnect_sock (l_sock ep) ep2)"
    using c by (simp add: remove_client_def put_hash_def bro2_def ep2_def Let_def)
  have "accept_connection r ep = (r, ep0)" using assms(4,5) by (simp add: accept_connection_def ep0_def)
  moreover have "slot_of ep0 r = s" "th_id ep0 = th_id ep" using ok(2) by (simp_all add: slot_of_def ep0_def s_def)
  ultimately have step: "accept_client pb (l_sock ep) r added bro ep =
      Ok (set_client l c bro2, disconnect_sock (l_sock ep) ep2)"
    unfolding accept_client_def Let_def
    using assms(2,4) rm hash_rep_cnt [OF h0] by (simp add: bro1_def)
  have "r \<notin> set (watched ep)" using assms(1,3) by (auto simp: thread_ok_def)
  with step new(3) show ?thesis
    by (intro exI [of _ "set_client l c bro2"] exI [of _ "disconnect_sock (l_sock ep) ep2"])
      (auto simp: disconnect_sock_def ep2_def ep0_def flush_pass_def hash_cnt_def thread_hash_def
        remove_client_def hash_delete_def Let_def)
qed

theorem capacity_frees_all_clients_witness:
  "\<exists>bro ep xs bro' ep'. thread_ok bro ep xs \<and> length xs = 32200 \<and>
    accept_client (\<lambda>_. []) 3 32204 True bro ep = Ok (bro', ep') \<and> contexts_by_ptr ep' = None"
proof -
  obtain bro ep xs where t: "thread_ok bro ep xs" "l_sock ep = 3" "length xs = 32200" "\<forall>s \<in> set xs. s < 32204"
    "hh (clients bro 3) = handle0" using full_thread [OF order_refl] by auto
  then have "(32204 :: int) \<notin> set (open_fds ep)" by (auto simp: thread_ok_def)
  from capacity_frees_all_clients [OF t(1) _ this, of "\<lambda>_. []" True] t(2,3,5) obtain bro' ep' where
    "accept_client (\<lambda>_. []) 3 32204 True bro ep = Ok (bro', ep')" "contexts_by_ptr ep' = None" by auto
  with t(1,3) show ?thesis
    by (intro exI [of _ bro] exI [of _ ep] exI [of _ xs] exI [of _ bro'] exI [of _ ep']) simp
qed

text \<open>C30: Packets outlive their receiver: \<open>clean_context\<close> does not empty the queue, so when the
  connection of a client with waiting packets ends and its descriptor is used again for a new
  connection, the new client gets the first packet meant for the old one instead of its
  CONNACK, which stays in the queue behind the others.\<close>

theorem stale_packet_to_next_client:
  assumes "thread_ok bro ep xs" "length xs \<le> MAX_FD_PER_LOOP" "s \<in> set xs"
    and "queued (clients bro s) (pk # pks)" "sized pk" "wcur pk = 0" "covers rs (length (send_buf pk))"
    and "buf_str (client_id (m_connect m)) = Some ident" "0 < length ident" "length ident \<le> 23"
  shows "\<exists>bro1 ep1 bro2 ep2 bro3 c. remove_client (int s) bro ep = Ok (bro1, ep1) \<and>
    accept_client pb (l_sock ep1) (int s) True bro1 ep1 = Ok (bro2, ep2) \<and>
    handle_connect 0 s m bro2 = Ok (0, bro3) \<and>
    flush_client rs (clients bro3 s) = Ok (Sent_all, c, send_buf pk, []) \<and>
    queued c (pks @ [sized_packet (connack_bytes 0)])"
proof -
  obtain bro1 ep1 where 1: "remove_client (int s) bro ep = Ok (bro1, ep1)" "thread_ok bro1 ep1 (remove1 s xs)"
    "cleaned (clients bro1 s)" "\<And>q. queued (clients bro s) q \<Longrightarrow> queued (clients bro1 s) q"
    "set (open_fds ep1) = set (open_fds ep) - {int s}"
    by (rule thread_remove [OF assms(1,3)]) (rule that)
  have rg: "0 < int s" "int s < int (MAX_FD_PER_LOOP * LOOP_COUNT)" using assms(1,3) by (auto simp: thread_ok_def)
  have len: "length (remove1 s xs) < MAX_FD_PER_LOOP" using assms(2,3) by (cases xs) (auto simp: length_remove1)
  obtain bro2 ep2 where 2: "accept_client pb (l_sock ep1) (int s) True bro1 ep1 = Ok (bro2, ep2)"
    "\<exists>h. clients bro2 (nat (int s)) = (clients bro1 (nat (int s)))\<lparr>sock := int s, epoll_id := th_id ep1, hh := h\<rparr>"
    by (rule thread_accept [OF 1(2) len, of "int s" pb "l_sock ep1" True]) (use 1(5) rg in auto)
  then obtain h where c2: "clients bro2 s = (clients bro1 s)\<lparr>sock := int s, epoll_id := th_id ep1, hh := h\<rparr>" by auto
  have q2: "queued (clients bro2 s) (pk # pks)" "sock (clients bro2 s) = int s" "sending_cur_packet (clients bro2 s) = None"
    using 1(3,4) assms(4) by (simp_all add: c2 cleaned_def)
  obtain c3 where 3: "handle_connect 0 s m bro2 = Ok (0, set_client s c3 bro2)"
    "queued c3 (pk # pks @ [sized_packet (connack_bytes 0)])" "num_sending_pack c3 = 1"
    using handle_connect_run [OF q2(1,2) assms(8)] assms(9,10) by auto
  have cur: "sending_cur_packet c3 = None" using handle_connect_cur [OF 3(1), of s] q2(3) by simp
  have "list_all2 (\<lambda>rs p. sized p \<and> wcur p = 0 \<and> covers rs (length (send_buf p))) [rs] [pk]" using assms(5-7) by simp
  from flush_loop_all [OF _ cur this, of "pks @ [sized_packet (connack_bytes 0)]" "[]"] 3(2) obtain c where
    "flush_loop 1 rs c3 = Ok (Sent_all, c, send_buf pk, [])" "queued c (pks @ [sized_packet (connack_bytes 0)])" by auto
  then have "flush_client rs c3 = Ok (Sent_all, c, send_buf pk, [])" "queued c (pks @ [sized_packet (connack_bytes 0)])"
    using 3(3) by (simp_all add: flush_client_def)
  with 1(1) 2(1) 3(1) show ?thesis by (metis clients_set_client fun_upd_same)
qed

theorem stale_packet_to_next_client_witness:
  "\<exists>bro ep bro1 ep1 bro2 ep2 bro3 c. thread_ok bro ep [5] \<and> remove_client 5 bro ep = Ok (bro1, ep1) \<and>
    accept_client (\<lambda>_. []) (l_sock ep1) 5 True bro1 ep1 = Ok (bro2, ep2) \<and>
    handle_connect 0 5 (message0\<lparr>m_connect := connect0\<lparr>client_id := \<lparr>blen = 1, bdata = Some [0x61]\<rparr>\<rparr>\<rparr>) bro2 = Ok (0, bro3) \<and>
    flush_client [(2, False), (1, False)] (clients bro3 5) = Ok (Sent_all, c, [7, 8, 9], [])"
proof -
  let ?m = "message0\<lparr>m_connect := connect0\<lparr>client_id := \<lparr>blen = 1, bdata = Some [0x61]\<rparr>\<rparr>\<rparr>"
  obtain bro ep where c: "thread_ok bro ep [5]"
    "waiting (clients bro 5) [new_packet [7, 8, 9] 3] [[(2, False), (1, False)]]" by (rule example_client)
  have m: "buf_str (client_id (m_connect ?m)) = Some [0x61]" by (simp add: buf_str_def mem_read_def)
  have p: "queued (clients bro 5) [new_packet [7, 8, 9] 3]" "sized (new_packet [7, 8, 9] 3)"
    "wcur (new_packet [7, 8, 9] 3) = 0" "covers [(2, False), (1, False)] (length (send_buf (new_packet [7, 8, 9] 3)))"
    "send_buf (new_packet [7, 8, 9] 3) = [7, 8, 9]"
    using c(2) by (simp_all add: waiting_def new_packet_def sized_def covers_def)
  have "\<exists>bro1 ep1 bro2 ep2 bro3 c. remove_client (int 5) bro ep = Ok (bro1, ep1) \<and>
    accept_client (\<lambda>_. []) (l_sock ep1) (int 5) True bro1 ep1 = Ok (bro2, ep2) \<and>
    handle_connect 0 5 ?m bro2 = Ok (0, bro3) \<and>
    flush_client [(2, False), (1, False)] (clients bro3 5) = Ok (Sent_all, c, send_buf (new_packet [7, 8, 9] 3), []) \<and>
    queued c ([] @ [sized_packet (connack_bytes 0)])"
    by (rule stale_packet_to_next_client [OF c(1) _ _ p(1-4) m]) simp_all
  with c(1) show ?thesis unfolding p(5) of_nat_numeral by (elim exE conjE) (intro exI conjI; assumption)
qed

end
