(* ===== verification/Threads_Facts.thy ===== *)
theory Threads_Facts
  imports Threads Event_Loop_Properties
begin

text \<open>
  All threads together: every thread's hash table holds the clients of its own connections, no
  client is in two tables, and the pointer of a sending loop never leaves its table, whatever
  the other threads do in between.
\<close>

section \<open>The invariant\<close>

lemma view_fields [simp]:
  "t_bro (view i S) = sy_bro S" "t_ep (view i S) = sy_ep S i" "t_inbox (view i S) = sy_inbox S"
  by (simp_all add: view_def)

lemma put_fields [simp]:
  "sy_bro (put i t st S) = t_bro t" "sy_ep (put i t st S) = (sy_ep S)(i := t_ep t)"
  "sy_state (put i t st S) = (sy_state S)(i := st)" "sy_inbox (put i t st S) = t_inbox t"
  by (simp_all add: put_def)

definition loop_ok :: "broker \<Rightarrow> epollop \<Rightarrow> thread_state \<Rightarrow> slot list \<Rightarrow> bool" where
  "loop_ok bro ep st xs \<longleftrightarrow> (case st of
       Created \<Rightarrow> ep = epollop0 \<and> xs = []
     | Waiting \<Rightarrow> thread_ok bro ep xs
     | Sending c \<Rightarrow> thread_ok bro ep xs \<and> (\<forall>s. c = Some s \<longrightarrow> s \<in> set xs)
     | Ended \<Rightarrow> thread_ok bro ep xs \<or> open_fds ep = [] \<and> xs = [])"

definition system_ok :: "system \<Rightarrow> (nat \<Rightarrow> slot list) \<Rightarrow> bool" where
  "system_ok S xss \<longleftrightarrow> (\<forall>x. cur_ok (clients (sy_bro S) x)) \<and>
     (\<forall>i. loop_ok (sy_bro S) (sy_ep S i) (sy_state S i) (xss i)) \<and>
     (\<forall>i j. i \<noteq> j \<longrightarrow> disjnt (set (open_fds (sy_ep S i))) (set (open_fds (sy_ep S j))))"

lemma system_okD:
  assumes "system_ok S xss"
  shows "cur_ok (clients (sy_bro S) x)" "loop_ok (sy_bro S) (sy_ep S i) (sy_state S i) (xss i)"
    "i \<noteq> j \<Longrightarrow> disjnt (set (open_fds (sy_ep S i))) (set (open_fds (sy_ep S j)))"
  using assms by (simp_all add: system_ok_def)

lemma loop_ok_other:
  assumes "loop_ok bro ep st xs" "\<forall>x. int x \<in> set (open_fds ep) \<longrightarrow> keeps (clients bro x) (clients bro' x)"
    and "\<forall>x. cur_ok (clients bro' x)"
  shows "loop_ok bro' ep st xs"
  using assms thread_ok_other [OF _ assms(2,3)] by (auto simp: loop_ok_def split: thread_state.splits)

text \<open>
  A step of one thread keeps the invariant when it keeps its own part and touches, besides its
  own descriptors, at most fresh ones.
\<close>

lemma system_ok_put:
  assumes "system_ok S xss" "loop_ok (t_bro t) (t_ep t) st ys" "\<forall>x. cur_ok (clients (t_bro t) x)"
    and "set (open_fds (t_ep t)) \<subseteq> set (open_fds (sy_ep S i)) \<union> F" "\<forall>fd \<in> F. fresh_fd fd S"
    and "\<And>x. int x \<notin> set (open_fds (sy_ep S i)) \<union> F \<Longrightarrow> keeps (clients (sy_bro S) x) (clients (t_bro t) x)"
  shows "system_ok (put i t st S) (xss(i := ys))"
proof -
  have d: "disjnt (set (open_fds (t_ep t))) (set (open_fds (sy_ep S j)))" if "j \<noteq> i" for j
    using assms(4,5) system_okD(3) [OF assms(1), of i j] that by (fastforce simp: disjnt_def fresh_fd_def)
  have "loop_ok (t_bro t) (sy_ep S j) (sy_state S j) (xss j)" if "j \<noteq> i" for j
  proof (rule loop_ok_other [OF system_okD(2) [OF assms(1)] _ assms(3)])
    have "int x \<notin> set (open_fds (sy_ep S i)) \<union> F" if "int x \<in> set (open_fds (sy_ep S j))" for x
      using that \<open>j \<noteq> i\<close> assms(5) system_okD(3) [OF assms(1), of i j] by (auto simp: disjnt_def fresh_fd_def)
    then show "\<forall>x. int x \<in> set (open_fds (sy_ep S j)) \<longrightarrow> keeps (clients (sy_bro S) x) (clients (t_bro t) x)"
      using assms(6) by blast
  qed
  then show ?thesis
    using assms(2,3) d d [THEN disjnt_sym] system_okD(3) [OF assms(1)] unfolding system_ok_def by auto
qed

section \<open>Starting a thread\<close>

lemma start_thread_ok:
  assumes "start_thread th r epollop0 = Ok (started, ep)" "\<forall>x. cur_ok (clients bro x)"
  shows "if started then thread_ok bro (ep\<lparr>base_sock := 0\<rparr>) [] \<and> open_fds ep = [sr_socket r] else open_fds ep = []"
proof -
  obtain rc ep1 where 1: "init_event_io r (int MAX_EVENT_PER_LOOP) (epollop0\<lparr>th_id := th\<rparr>) = Ok (rc, ep1)"
    "(if rc = -1 then Ok (False, ep1)
      else let (fd, ep) = get_listen_sock r ep1; ep = ep\<lparr>l_sock := fd\<rparr>
      in if fd = -1 then Ok (False, ep) else Ok (True, snd (add_sock (sr_added r) fd ep))) = Ok (started, ep)"
    using assms(1) by (auto simp: start_thread_def obind_eq_Ok)
  have e: "contexts_by_ptr ep1 = None" "ctx_tbl ep1 = None" "watched ep1 = []" "open_fds ep1 = []" "base_sock ep1 = 0"
    using 1(1) by (auto simp: init_event_io_def epollop0_def Let_def split: if_splits)
  show ?thesis
    using 1(2) e assms(2)
    by (auto simp: get_listen_sock_def add_sock_def Let_def thread_ok_def hash_ok_def app_list_def thread_hash_def
        split: if_splits)
qed

section \<open>Every step keeps the invariant\<close>

lemma thread_cur_ok: "thread_ok bro ep xs \<Longrightarrow> \<forall>x. cur_ok (clients bro x)"
  by (simp add: thread_ok_def)

lemma loop_ok_first:
  assumes "thread_ok bro ep xs"
  shows "loop_ok bro ep (Sending (contexts_by_ptr ep)) xs"
proof -
  have "hash_ok (thread_hash bro ep) xs" using assms by (simp add: thread_ok_def)
  from hash_ok_head [OF this] show ?thesis using assms by (auto simp: loop_ok_def thread_hash_def)
qed

lemma start_ok:
  assumes "system_ok S xss" "sy_state S i = Created" "fresh_fd (sr_socket r) S"
    and "start_thread (int i) r (sy_ep S i) = Ok (started, ep)"
  shows "system_ok (put i ((view i S)\<lparr>t_ep := if started then ep\<lparr>base_sock := 0\<rparr> else ep\<rparr>)
      (if started then Waiting else Ended) S) (xss(i := []))"
proof -
  note cur = system_okD(1) [OF assms(1)]
  have "sy_ep S i = epollop0" using system_okD(2) [OF assms(1), of i] assms(2) by (simp add: loop_ok_def)
  with start_thread_ok [of "int i" r started ep "sy_bro S"] assms(4) cur have
    new: "if started then thread_ok (sy_bro S) (ep\<lparr>base_sock := 0\<rparr>) [] \<and> open_fds ep = [sr_socket r] else open_fds ep = []"
    by simp
  show ?thesis
    by (rule system_ok_put [OF assms(1), where F = "{sr_socket r}"])
      (use new cur assms(3) in \<open>auto simp: loop_ok_def split: if_splits\<close>)
qed

lemma receive_ok:
  assumes "system_ok S xss" "sy_state S i = Waiting" "kernel_ok ev (view i S)"
    and "ev_fd ev = l_sock (sy_ep S i) \<longrightarrow> fresh_fd (ev_accept ev) S" "handle_event pb ev (view i S) = Ok t"
  shows "\<exists>ys. system_ok (put i t Waiting S) (xss(i := ys))"
proof -
  have c: "clients_are (view i S) (xss i)"
    using system_okD(2) [OF assms(1), of i] assms(2) by (simp add: loop_ok_def)
  obtain ys where ys: "clients_are t ys"
    "set (open_fds (t_ep t)) \<subseteq> set (open_fds (sy_ep S i)) \<union> (if ev_fd ev = l_sock (sy_ep S i) then {ev_accept ev} else {})"
    "\<And>x. int x \<notin> set (open_fds (sy_ep S i)) \<Longrightarrow> ev_fd ev = l_sock (sy_ep S i) \<longrightarrow> int x \<noteq> ev_accept ev \<Longrightarrow>
      keeps (clients (sy_bro S) x) (clients (t_bro t) x)"
    by (rule handle_event_clients [OF c assms(3,5)]) (simp only: view_fields, rule that)
  have "system_ok (put i t Waiting S) (xss(i := ys))"
    by (rule system_ok_put [OF assms(1) _ thread_cur_ok [OF ys(1)] ys(2)])
      (use ys assms(4) in \<open>auto simp: loop_ok_def split: if_splits\<close>)
  then show ?thesis ..
qed

lemma send_ok:
  assumes "system_ok S xss" "sy_state S i = Sending (Some s)"
    and "flush_one rs s (sy_bro S) (sy_ep S i) = Ok (bro, ep, nxt, out)"
  shows "\<exists>ys. system_ok (put i ((view i S)\<lparr>t_bro := bro, t_ep := ep\<rparr>) (Sending nxt) S) (xss(i := ys))"
proof -
  have t: "thread_ok (sy_bro S) (sy_ep S i) (xss i)" "s \<in> set (xss i)"
    using system_okD(2) [OF assms(1), of i] assms(2) by (simp_all add: loop_ok_def)
  then obtain as zs where x: "xss i = as @ s # zs" by (metis split_list)
  obtain ys where ys: "thread_ok bro ep (ys @ zs)" "nxt = (if zs = [] then None else Some (hd zs))"
    "\<And>x. x \<notin> set (as @ s # zs) \<Longrightarrow> clients bro x = clients (sy_bro S) x"
    "set (open_fds ep) \<subseteq> set (open_fds (sy_ep S i))"
    by (rule flush_one_ok [OF t(1) [unfolded x] assms(3)]) (rule that)
  have out: "int x \<notin> set (open_fds (sy_ep S i)) \<Longrightarrow> x \<notin> set (as @ s # zs)" for x
    using t(1) by (auto simp: thread_ok_def x)
  have "system_ok (put i ((view i S)\<lparr>t_bro := bro, t_ep := ep\<rparr>) (Sending nxt) S) (xss(i := ys @ zs))"
    by (rule system_ok_put [OF assms(1), where F = "{}"])
      (use ys thread_cur_ok [OF ys(1)] out in \<open>auto simp: loop_ok_def\<close>)
  then show ?thesis ..
qed

text \<open>The other steps change only where the thread is.\<close>

lemma move_ok:
  assumes "system_ok S xss" "loop_ok (sy_bro S) (sy_ep S i) st (xss i)"
  shows "system_ok (put i (view i S) st S) (xss(i := xss i))"
  by (rule system_ok_put [OF assms(1), where F = "{}"])
    (use assms system_okD(1) [OF assms(1)] in simp_all)

lemma system_step_ok:
  assumes "system_step pb S S'" "system_ok S xss"
  shows "\<exists>xss'. system_ok S' xss'"
  using assms
proof (induction rule: system_step.induct)
  case (start S i r started ep)
  then show ?case using start_ok by blast
next
  case (receive S i ev t)
  then show ?case using receive_ok by blast
next
  case (enter S i)
  have "thread_ok (sy_bro S) (sy_ep S i) (xss i)"
    using system_okD(2) [OF enter.prems, of i] enter.hyps by (simp add: loop_ok_def)
  then show ?case using move_ok [OF enter.prems] loop_ok_first by blast
next
  case (send S i s rs bro ep nxt out)
  then show ?case using send_ok by blast
next
  case (leave S i)
  have "loop_ok (sy_bro S) (sy_ep S i) Waiting (xss i)"
    using system_okD(2) [OF leave.prems, of i] leave.hyps by (simp add: loop_ok_def)
  then show ?case using move_ok [OF leave.prems] by blast
next
  case (stop S i)
  have "loop_ok (sy_bro S) (sy_ep S i) Ended (xss i)"
    using system_okD(2) [OF stop.prems, of i] stop.hyps by (simp add: loop_ok_def)
  then show ?case using move_ok [OF stop.prems] by blast
qed

lemma system_run_ok: "(system_step pb)\<^sup>*\<^sup>* S S' \<Longrightarrow> system_ok S xss \<Longrightarrow> \<exists>xss'. system_ok S' xss'"
  by (induction arbitrary: xss rule: rtranclp_induct) (use system_step_ok in blast)+

lemma system0_ok: "\<forall>x. cur_ok (clients bro x) \<Longrightarrow> system_ok (system0 bro ths) (\<lambda>_. [])"
  by (simp add: system_ok_def system0_def loop_ok_def epollop0_def disjnt_def)

section \<open>Steps of one thread alone\<close>

lemma put_put [simp]: "put i t' st' (put i t st S) = put i t' st' S"
  by (simp add: put_def)

lemma view_put [simp]: "view i (put i t st S) = t"
  by (simp add: view_def)

lemma put_same:
  "sy_bro S = bro \<Longrightarrow> sy_ep S i = ep \<Longrightarrow> sy_state S i = st \<Longrightarrow>
   put i ((view i S)\<lparr>t_bro := bro, t_ep := ep\<rparr>) st S = S"
  by (cases S) (auto simp: put_def view_def)

text \<open>The pass over all clients is the sequence of its steps, without steps of others.\<close>

lemma flush_clients_steps:
  "flush_clients n sends c (sy_bro S) (sy_ep S i) = Ok (bro, ep, outs) \<Longrightarrow> sy_state S i = Sending c \<Longrightarrow>
   (system_step pb)\<^sup>*\<^sup>* S (put i ((view i S)\<lparr>t_bro := bro, t_ep := ep\<rparr>) (Sending None) S)"
proof (induction n arbitrary: c S outs)
  case 0
  then show ?case by (cases c) (simp_all add: put_same)
next
  case (Suc n)
  show ?case
  proof (cases c)
    case None
    then show ?thesis using Suc.prems by (simp add: put_same)
  next
    case (Some s)
    with Suc.prems(1) obtain b1 e1 nxt out outs1 where 1:
      "flush_one (sends s) s (sy_bro S) (sy_ep S i) = Ok (b1, e1, nxt, out)"
      "flush_clients n sends nxt b1 e1 = Ok (bro, ep, outs1)" by (auto simp: obind_eq_Ok)
    let ?S = "put i ((view i S)\<lparr>t_bro := b1, t_ep := e1\<rparr>) (Sending nxt) S"
    have "system_step pb S ?S"
      by (rule system_step.send [OF _ 1(1)]) (use Suc.prems(2) Some in simp)
    moreover have "(system_step pb)\<^sup>*\<^sup>* ?S (put i ((view i ?S)\<lparr>t_bro := bro, t_ep := ep\<rparr>) (Sending None) ?S)"
      by (rule Suc.IH [where outs = outs1 and c = nxt]) (use 1(2) in simp_all)
    ultimately show ?thesis by simp
  qed
qed

lemma pass_is_steps:
  assumes "sy_state S i = Waiting" "flush_pass sends (view i S) = Ok (t, outs)"
  shows "(system_step pb)\<^sup>*\<^sup>* S (put i t Waiting S)"
proof -
  let ?S = "put i (view i S) (Sending (contexts_by_ptr (sy_ep S i))) S"
  from assms(2) obtain n bro ep where 1: "t = (view i S)\<lparr>t_bro := bro, t_ep := ep\<rparr>"
    "flush_clients n sends (contexts_by_ptr (sy_ep S i)) (sy_bro S) (sy_ep S i) = Ok (bro, ep, outs)"
    by (auto simp: flush_pass_def obind_eq_Ok)
  have "system_step pb S ?S" by (rule system_step.enter [OF assms(1)])
  also have "(system_step pb)\<^sup>*\<^sup>* ?S (put i ((view i ?S)\<lparr>t_bro := bro, t_ep := ep\<rparr>) (Sending None) ?S)"
    by (rule flush_clients_steps [where outs = outs]) (use 1(2) in simp_all)
  also have "put i ((view i ?S)\<lparr>t_bro := bro, t_ep := ep\<rparr>) (Sending None) ?S = put i t (Sending None) S"
    by (simp add: 1(1))
  also have "system_step pb (put i t (Sending None) S) (put i t Waiting S)"
    using system_step.leave [of "put i t (Sending None) S" i pb] by simp
  finally show ?thesis .
qed

section \<open>The start of the program\<close>

lemma broker_main_start:
  assumes "broker_main argc al lock rcs = Ok (0, Some bro, ths)"
  shows "clients bro x = client0" "cur_ok (clients bro x)" "\<not> root_lock bro"
proof -
  have "init_database al = Ok (0, Some bro)"
    using assms by (auto simp: broker_main_def obind_eq_Ok split: if_splits)
  then show "clients bro x = client0" "\<not> root_lock bro"
    by (auto simp: init_database_def broker0_def Let_def split: if_splits prod.splits)
  then show "cur_ok (clients bro x)" using client0_hh by simp
qed

lemma create_threads_prefix:
  "snd (create_threads rcs i) = [i..<i + length (takeWhile (\<lambda>rc. rc = 0) rcs)]"
  by (induction rcs i rule: create_threads.induct) (auto simp: split_beta upt_conv_Cons simp del: upt_Suc)

lemma create_threads_rc:
  "fst (create_threads rcs i) = (case dropWhile (\<lambda>rc. rc = 0) rcs of [] \<Rightarrow> 0 | rc # _ \<Rightarrow> rc)"
  by (induction rcs i rule: create_threads.induct) (auto simp: split_beta)

lemma first_failure:
  "rc \<noteq> (0 :: int) \<Longrightarrow> takeWhile (\<lambda>rc. rc = 0) (replicate k 0 @ rc # rcs) = replicate k 0"
  "rc \<noteq> (0 :: int) \<Longrightarrow> dropWhile (\<lambda>rc. rc = 0) (replicate k 0 @ rc # rcs) = rc # rcs"
  by (induction k) simp_all

text \<open>
  \<open>pthread_create\<close> gives a positive error number, which \<open>start_server\<close> compares with -1 and
  \<open>main\<close> does not look at: the program ends with status 0 and with it the threads that run.
\<close>

lemma create_failure_unnoticed:
  assumes "init_database al = Ok (0, Some bro)" "k < LOOP_COUNT" "0 < rc"
  shows "broker_main 2 al 0 (replicate k 0 @ rc # rcs) = Ok (0, Some bro, [0..<k])"
    "fst (start_server (replicate k 0 @ rc # rcs)) = 0"
proof -
  obtain m where m: "LOOP_COUNT - k = Suc m" using assms(2) by (cases "LOOP_COUNT - k") auto
  have t: "take LOOP_COUNT (replicate k 0 @ rc # rcs) = replicate k 0 @ rc # take m rcs"
    using assms(2) m by (simp add: min_def)
  note w = first_failure [of rc k "take m rcs"]
  show "fst (start_server (replicate k 0 @ rc # rcs)) = 0"
    using assms(3) create_threads_rc [of "replicate k 0 @ rc # take m rcs" 0]
    unfolding start_server_def run_worker_def t by (simp add: split_beta w)
  have "snd (start_server (replicate k 0 @ rc # rcs)) = [0..<k]"
    using create_threads_prefix [of "replicate k 0 @ rc # take m rcs" 0] assms(3)
    unfolding start_server_def run_worker_def t by (simp add: split_beta w)
  then show "broker_main 2 al 0 (replicate k 0 @ rc # rcs) = Ok (0, Some bro, [0..<k])"
    using assms(1) by (simp add: broker_main_def)
qed

section \<open>An example\<close>

text \<open>Two threads, of which the first accepts a connection and begins to send.\<close>

definition example_results :: "int \<Rightarrow> start_results" where
  "example_results fd = \<lparr>sr_epoll = 7, sr_mem = True, sr_socket = fd, sr_bind = 0, sr_listen = 0, sr_added = True\<rparr>"

lemma example_start_thread:
  assumes "0 \<le> fd"
  obtains ep where "start_thread th (example_results fd) epollop0 = Ok (True, ep)" "base_sock ep = 0"
    "l_sock ep = fd" "open_fds ep = [fd]" "watched ep = [fd]" "contexts_by_ptr ep = None" "th_id ep = th"
  by (rule that [of "\<lparr>epfd = 7, num_events = 96600, l_sock = fd, base_sock = 0, th_id = th,
      contexts_by_ptr = None, ctx_tbl = None, watched = [fd], open_fds = [fd]\<rparr>"])
    (use assms in \<open>simp_all add: start_thread_def init_event_io_def get_listen_sock_def add_sock_def
      example_results_def epollop0_def Let_def\<close>)

lemma example_accept:
  obtains bro S where "broker_main 2 [] 0 [0, 0] = Ok (0, Some bro, [0, 1])"
    "(system_step (\<lambda>_. []))\<^sup>*\<^sup>* (system0 bro [0, 1]) S" "sy_state S 0 = Waiting" "contexts_by_ptr (sy_ep S 0) = Some 5"
    "l_sock (sy_ep S 0) = 3" "5 \<in> set (watched (sy_ep S 0))" "base_sock (sy_ep S 0) = 0" "sy_inbox S 5 = []"
    "idle (clients (sy_bro S) 5)" "\<not> root_lock (sy_bro S)"
proof -
  define bro where "bro = (broker0 [])\<lparr>subs_children := [Subhier [] [] []]\<rparr>"
  have m: "broker_main 2 [] 0 [0, 0] = Ok (0, Some bro, [0, 1])"
    by (simp add: broker_main_def init_database_def bro_def start_server_def run_worker_def)
  obtain e0 where e0: "start_thread (int 0) (example_results 3) epollop0 = Ok (True, e0)" "base_sock e0 = 0"
    "l_sock e0 = 3" "open_fds e0 = [3]" "watched e0 = [3]" "contexts_by_ptr e0 = None"
    by (rule example_start_thread [of 3]) (simp, rule that)
  obtain e1 where e1: "start_thread (int 1) (example_results 4) epollop0 = Ok (True, e1)" "open_fds e1 = [4]"
    by (rule example_start_thread [of 4]) (simp, rule that)
  define S1 where "S1 = put 0 ((view 0 (system0 bro [0, 1]))\<lparr>t_ep := e0\<lparr>base_sock := 0\<rparr>\<rparr>) Waiting (system0 bro [0, 1])"
  define S2 where "S2 = put 1 ((view 1 S1)\<lparr>t_ep := e1\<lparr>base_sock := 0\<rparr>\<rparr>) Waiting S1"
  have 1: "system_step (\<lambda>_. []) (system0 bro [0, 1]) S1"
    using system_step.start [of "system0 bro [0, 1]" 0 "example_results 3" True e0 "\<lambda>_. []"] e0
    by (simp add: S1_def system0_def fresh_fd_def epollop0_def)
  have "sy_ep S1 1 = epollop0" "sy_state S1 1 = Created" "fresh_fd 4 S1"
    using e0 by (simp_all add: S1_def system0_def fresh_fd_def epollop0_def)
  then have 2: "system_step (\<lambda>_. []) S1 S2"
    using system_step.start [of S1 1 "example_results 4" True e1 "\<lambda>_. []"] e1
    by (simp add: S2_def example_results_def)
  have e: "sy_ep S2 0 = e0" "open_fds (sy_ep S2 1) = [4]" "\<And>i. open_fds (sy_ep S2 i) = (if i = 0 then [3] else if i = 1 then [4] else [])"
    "sy_bro S2 = bro" "sy_state S2 0 = Waiting" "sy_state S2 1 = Waiting"
    using e0 e1 by (simp_all add: S1_def S2_def system0_def epollop0_def)
  have "\<forall>x. cur_ok (clients bro x)" using broker_main_start(2) [OF m] by blast
  then have t: "thread_ok bro e0 []"
    using e0 fresh_thread_ok [of "\<lparr>t_bro = bro, t_ep = e0, t_inbox = (\<lambda>_. [])\<rparr>"] by (simp add: fresh_thread_def)
  obtain bro' ep' where a: "accept_client (\<lambda>_. []) 3 5 True bro e0 = Ok (bro', ep')"
    "thread_ok bro' ep' ([] @ [nat 5])" "l_sock ep' = l_sock e0"
    "\<exists>h. clients bro' (nat 5) = (clients bro (nat 5))\<lparr>sock := 5, epoll_id := th_id e0, hh := h\<rparr>"
    "watched ep' = (if True then [5] else []) @ watched e0" "bro'\<lparr>clients := clients bro\<rparr> = bro"
    by (rule thread_accept [OF t, of 5 "\<lambda>_. []" 3 True]) (use e0 in auto)
  let ?ev = "\<lparr>ev_fd = 3, ev_hup = False, ev_err = False, ev_in = True, ev_data = [],
      ev_mem = True, ev_accept = 5, ev_added = True\<rparr>"
  let ?t = "(view 0 S2)\<lparr>t_bro := bro', t_ep := ep'\<rparr>"
  define S3 where "S3 = put 0 ?t Waiting S2"
  have "handle_event (\<lambda>_. []) ?ev (view 0 S2) = Ok ?t"
    using a(1) e e0 by (simp add: handle_event_def Let_def)
  moreover have "kernel_ok ?ev (view 0 S2)"
    using e e0 by (simp add: kernel_ok_def below_capacity_def hash_cnt_def thread_hash_def)
  moreover have "fresh_fd 5 S2" using e(3) by (simp add: fresh_fd_def)
  ultimately have 3: "system_step (\<lambda>_. []) S2 S3"
    using system_step.receive [of S2 0 ?ev "\<lambda>_. []" ?t] e(5) by (simp add: S3_def)
  have "contexts_by_ptr ep' = Some 5"
    using hash_ok_head [of "thread_hash bro' ep'" "[5]"] a(2) by (simp add: thread_ok_def thread_hash_def)
  moreover have "idle (clients bro' 5)"
    using a(4) broker_main_start(1) [OF m] by (auto simp: idle_def client0_def)
  moreover have "\<not> root_lock bro'" "base_sock ep' = 0"
    using a(2,6) broker_main_start(3) [OF m] by (cases bro'; cases bro; simp add: thread_ok_def)+
  moreover have "(system_step (\<lambda>_. []))\<^sup>*\<^sup>* (system0 bro [0, 1]) S3"
    using 1 2 3 by (meson converse_rtranclp_into_rtranclp rtranclp.rtrancl_refl)
  ultimately show thesis by (intro that [OF m, of S3]) (use a(3,5) e0 in \<open>simp_all add: S3_def S2_def S1_def system0_def\<close>)
qed

lemma example_run:
  obtains bro S where "broker_main 2 [] 0 [0, 0] = Ok (0, Some bro, [0, 1])"
    "(system_step (\<lambda>_. []))\<^sup>*\<^sup>* (system0 bro [0, 1]) S" "sy_state S 0 = Sending (Some 5)"
proof -
  obtain bro S where r: "broker_main 2 [] 0 [0, 0] = Ok (0, Some bro, [0, 1])"
    "(system_step (\<lambda>_. []))\<^sup>*\<^sup>* (system0 bro [0, 1]) S" "sy_state S 0 = Waiting" "contexts_by_ptr (sy_ep S 0) = Some 5"
    by (rule example_accept) (rule that)
  have "system_step (\<lambda>_. []) S (put 0 (view 0 S) (Sending (Some 5)) S)"
    using system_step.enter [OF r(3)] r(4) by simp
  with r(2) have "(system_step (\<lambda>_. []))\<^sup>*\<^sup>* (system0 bro [0, 1]) (put 0 (view 0 S) (Sending (Some 5)) S)"
    by (rule rtranclp.rtrancl_into_rtrancl)
  then show thesis by (rule that [OF r(1)]) simp
qed

section \<open>The property\<close>

lemma system_ok_list:
  assumes "system_ok S xss" "sy_state S i = Waiting \<or> sy_state S i = Sending c"
  shows "thread_ok (sy_bro S) (sy_ep S i) (xss i)"
  using system_okD(2) [OF assms(1), of i] assms(2) by (auto simp: loop_ok_def)

lemma system_ok_slots:
  assumes "system_ok S xss"
  shows "int ` set (xss i) \<subseteq> set (open_fds (sy_ep S i))"
  using system_okD(2) [OF assms, of i] by (auto simp: loop_ok_def thread_ok_def split: thread_state.splits)

lemma system_ok_disjnt:
  assumes "system_ok S xss" "i \<noteq> j"
  shows "disjnt (set (xss i)) (set (xss j))"
  using system_okD(3) [OF assms] system_ok_slots [OF assms(1), of i] system_ok_slots [OF assms(1), of j]
  by (fastforce simp: disjnt_def)

text \<open>C5: From \<open>main\<close> on and along every interleaving of the broker's threads, every thread that is
  in its loop has in its hash table the clients of its own open connections and nothing else:
  the loop over \<open>hh.next\<close> visits each of them once, each has its descriptor as socket, and the
  open descriptors are those and the listening one.  No client is in the tables of two
  threads, and the pointer that a sending loop keeps across the steps of the others, which
  publish to its clients, accept and remove connections, is always one of its own clients.
  This needs that a connection is accepted only below the limit.\<close>

theorem threads_keep_their_clients:
  assumes "broker_main argc al lock rcs = Ok (0, Some bro, ths)" "(system_step pb)\<^sup>*\<^sup>* (system0 bro ths) S"
  shows "\<exists>xss. (\<forall>i c. sy_state S i = Waiting \<or> sy_state S i = Sending c \<longrightarrow>
      hash_walk (length (xss i)) (\<lambda>s. hh (clients (sy_bro S) s)) (contexts_by_ptr (sy_ep S i)) = Ok (xss i) \<and>
      distinct (xss i) \<and> (\<forall>s \<in> set (xss i). sock (clients (sy_bro S) s) = int s) \<and>
      set (open_fds (sy_ep S i)) = insert (l_sock (sy_ep S i)) (int ` set (xss i))) \<and>
    (\<forall>i s. sy_state S i = Sending (Some s) \<longrightarrow> s \<in> set (xss i)) \<and>
    (\<forall>i j. i \<noteq> j \<longrightarrow> disjnt (set (xss i)) (set (xss j)))"
proof -
  have "system_ok (system0 bro ths) (\<lambda>_. [])" using broker_main_start(2) [OF assms(1)] system0_ok by blast
  from system_run_ok [OF assms(2) this] obtain xss where ok: "system_ok S xss" by blast
  show ?thesis
  proof (intro exI [of _ xss] conjI allI impI)
    fix i c
    assume "sy_state S i = Waiting \<or> sy_state S i = Sending c"
    then have t: "thread_ok (sy_bro S) (sy_ep S i) (xss i)" by (rule system_ok_list [OF ok])
    then have h: "hash_ok (thread_hash (sy_bro S) (sy_ep S i)) (xss i)" by (simp add: thread_ok_def)
    show "hash_walk (length (xss i)) (\<lambda>s. hh (clients (sy_bro S) s)) (contexts_by_ptr (sy_ep S i)) = Ok (xss i)"
      using hash_rep_walk [OF h order_refl] by (simp add: thread_hash_def)
    show "distinct (xss i)" using h by (simp add: hash_ok_def)
    show "\<forall>s \<in> set (xss i). sock (clients (sy_bro S) s) = int s"
      "set (open_fds (sy_ep S i)) = insert (l_sock (sy_ep S i)) (int ` set (xss i))"
      using t by (simp_all add: thread_ok_def)
  next
    fix i s
    assume "sy_state S i = Sending (Some s)"
    then show "s \<in> set (xss i)" using system_okD(2) [OF ok, of i] by (simp add: loop_ok_def)
  qed (rule system_ok_disjnt [OF ok])
qed

theorem threads_keep_their_clients_witness:
  "\<exists>bro S xss. broker_main 2 [] 0 [0, 0] = Ok (0, Some bro, [0, 1]) \<and>
    (system_step (\<lambda>_. []))\<^sup>*\<^sup>* (system0 bro [0, 1]) S \<and> sy_state S 0 = Sending (Some 5) \<and>
    hash_walk (length (xss 0)) (\<lambda>s. hh (clients (sy_bro S) s)) (contexts_by_ptr (sy_ep S 0)) = Ok (xss 0) \<and>
    (5 :: nat) \<in> set (xss 0) \<and> disjnt (set (xss 0)) (set (xss (1 :: nat)))"
proof -
  obtain bro S where r: "broker_main 2 [] 0 [0, 0] = Ok (0, Some bro, [0, 1])"
    "(system_step (\<lambda>_. []))\<^sup>*\<^sup>* (system0 bro [0, 1]) S" "sy_state S 0 = Sending (Some 5)"
    by (rule example_run) (rule that)
  from threads_keep_their_clients [OF r(1,2)] obtain xss where
    "\<forall>i c. sy_state S i = Waiting \<or> sy_state S i = Sending c \<longrightarrow>
      hash_walk (length (xss i)) (\<lambda>s. hh (clients (sy_bro S) s)) (contexts_by_ptr (sy_ep S i)) = Ok (xss i)"
    "\<forall>i s. sy_state S i = Sending (Some s) \<longrightarrow> s \<in> set (xss i)"
    "\<forall>i j. i \<noteq> j \<longrightarrow> disjnt (set (xss i)) (set (xss j))" by blast
  with r show ?thesis by (intro exI [of _ bro] exI [of _ S] exI [of _ xss]) simp
qed

end
