(* ===== verification/Threads_Delivery.thy ===== *)
theory Threads_Delivery
  imports Threads_Facts
begin

text \<open>
  A message on its whole way: from the bytes that one thread reads from the socket of the
  publisher to the bytes that another thread writes to the sockets of the subscribers.
\<close>

text \<open>How many copies of a message on topic \<open>t\<close> client \<open>x\<close> gets.\<close>

definition deliveries :: "broker \<Rightarrow> token \<Rightarrow> slot \<Rightarrow> nat" where
  "deliveries bro t x = (if is_subscribe (clients bro x)
     then \<Sum>f \<in> {f. mqtt_matches f t \<and> sub_leaves bro f \<noteq> []}. leaf_count (sub_leaves bro f) x else 0)"

text \<open>What a publication leaves of a client.\<close>

definition delivered :: "broker \<Rightarrow> token \<Rightarrow> u8 list \<Rightarrow> packet list \<Rightarrow> slot \<Rightarrow> client \<Rightarrow> bool" where
  "delivered bro t c q x c' \<longleftrightarrow> (let k = deliveries bro t x
     in queued c' (q @ replicate k (sized_packet (publish_bytes t c))) \<and>
        num_sending_pack c' = num_sending_pack (clients bro x) + int k \<and>
        sending_cur_packet c' = sending_cur_packet (clients bro x))"

lemma got_delivered:
  assumes "got (sized_packet (publish_bytes t c)) (\<Sum>f\<leftarrow>fs. leaf_count (sub_leaves bro f) x) (clients bro x) q c'"
    and "distinct fs" "set fs = {f. mqtt_matches f t \<and> sub_leaves bro f \<noteq> []}"
  shows "delivered bro t c q x c'"
proof -
  have "(\<Sum>f\<leftarrow>fs. leaf_count (sub_leaves bro f) x) =
      (\<Sum>f \<in> {f. mqtt_matches f t \<and> sub_leaves bro f \<noteq> []}. leaf_count (sub_leaves bro f) x)"
    using sum_list_distinct_conv_sum_set [OF assms(2)] assms(3) by simp
  with assms(1) show ?thesis by (simp add: got_def delivered_def deliveries_def Let_def split: if_splits)
qed

section \<open>Reading the message\<close>

lemma publish_event:
  assumes "clients_are t xs" "s \<in> set xs" "t_inbox t (int s) = []"
    and ev: "ev_fd ev = int s" "ev_mem ev" "\<not> ev_hup ev" "\<not> ev_err ev" "ev_in ev"
    and b: "tree_ok (t_bro t)" "mem_alloc (t_bro t) = []" "\<forall>x. queued (clients (t_bro t) x) (qs x)"
      "idle (clients (t_bro t) s)"
    and cmd: "m_type (mqtt_parser_command message0 cmd) = MQTT_TYPE_PUBLISH"
      "m_qos (mqtt_parser_command message0 cmd) = 0"
    and tp: "0 \<notin> set tp" "pub_topic_ok tp" "pub_topic_valid (Some (tp @ c)) \<noteq> None"
    and c: "2 \<le> length c" "2 + length tp + length c < 268435456"
    and es: "avail (ev_data ev) = cmd # varint (2 + length tp + length c) @ utf8_field tp @ c @ rest"
  shows "\<exists>t'. handle_event pb ev t = Ok t' \<and> t_ep t' = t_ep t \<and> bro_keeps (t_bro t) (t_bro t') \<and>
    avail (t_inbox t' (int s)) = rest \<and>
    (\<forall>x. delivered (t_bro t) tp c (qs x) x (clients (t_bro t') x))"
proof -
  have l: "int s \<noteq> l_sock (t_ep t)" "base_sock (t_ep t) = 0"
    using assms(1) thread_client_fd [OF assms(1,2)] by (simp_all add: thread_ok_def)
  obtain fs r bro' es' where 1: "distinct fs"
    "set fs = {f. mqtt_matches f tp \<and> sub_leaves (t_bro t) f \<noteq> []}"
    "loop_read (base_sock (t_ep t)) s True False False True (ev_data ev) (t_bro t) = Ok (r, bro', es')" "0 < r"
    "avail es' = rest"
    "\<forall>x. got (sized_packet (publish_bytes tp c)) (\<Sum>f\<leftarrow>fs. leaf_count (sub_leaves (t_bro t) f) x)
       (clients (t_bro t) x) (qs x) (clients bro' x)"
    using publish_end_to_end [OF b cmd tp c es, of "base_sock (t_ep t)"] by blast
  let ?t = "t\<lparr>t_bro := bro', t_inbox := (t_inbox t)(int s := es')\<rparr>"
  have "slot_of (t_ep t) (int s) = s" using l(2) by (simp add: slot_of_def)
  then have "handle_event pb ev t = Ok ?t"
    using 1(3,4) l assms(3) ev by (simp add: handle_event_def Let_def)
  moreover have "bro_keeps (t_bro t) bro'" by (rule loop_read_keeps [OF 1(3)])
  moreover have "delivered (t_bro t) tp c (qs x) x (clients bro' x)" for x
    by (rule got_delivered [OF 1(6) [rule_format] 1(1,2)])
  ultimately show ?thesis using 1(5) by (intro exI [of _ ?t]) simp
qed

section \<open>Sending it\<close>

lemma publish_sized: "2 + length t + length c < 268435456 \<Longrightarrow> sized (sized_packet (publish_bytes t c))"
  using length_publish_bytes [of t c] unat_of_nat_u32_small [of "length (publish_bytes t c)"]
  by (simp add: sized_def)

lemma delivered_waiting:
  assumes "delivered bro t c [] x c'" "num_sending_pack (clients bro x) = 0"
    "sending_cur_packet (clients bro x) = None" "2 + length t + length c < 268435456"
    "covers rs (length (publish_bytes t c))"
  shows "waiting c' (replicate (deliveries bro t x) (sized_packet (publish_bytes t c)))
    (replicate (deliveries bro t x) rs)"
  using assms publish_sized [OF assms(4)]
  by (simp add: delivered_def waiting_def Let_def list_all2_conv_all_nth)

section \<open>An example\<close>

text \<open>A subscriber between two packets for which nothing waits.\<close>

definition resting :: "client \<Rightarrow> bool" where
  "resting c \<longleftrightarrow> queued c [] \<and> idle c \<and> is_subscribe c \<and> num_sending_pack c = 0 \<and> sending_cur_packet c = None"

lemma resting_update [simp]:
  "resting (c\<lparr>hh := h\<rparr>) = resting c" "resting (c\<lparr>sock := k\<rparr>) = resting c"
  "resting (c\<lparr>epoll_id := i\<rparr>) = resting c" "resting (c\<lparr>subs := ss\<rparr>) = resting c"
  by (simp_all add: resting_def idle_def queued_def queue_at_def packets_at_def cong: option.case_cong)

lemma resting_example: "resting (clients example_broker x)"
  by (simp add: resting_def idle_def queued_def queue_at_def packets_at_def example_broker_def client0_def)

text \<open>The client in slot 6 has subscribed to \<open>a\<close>.\<close>

lemma example_subscribed:
  obtains bro where "tree_ok bro" "mem_alloc bro = []"
    "\<And>f. sub_leaves bro f = (if f = [0x61] then [\<lparr>l_context = 6, l_qos = 0\<rparr>] else [])"
    "\<forall>x. resting (clients bro x)"
proof -
  obtain bro where add: "mqtt3_sub_add example_broker 6 [0x61] 0 = Ok (0, bro)" "mem_alloc bro = []"
    using mqtt3_sub_add_enough [of example_broker 6 "[0x61]" 0] by (auto simp: example_broker_def)
  have "tree_ok bro"
    by (rule tree_ok_add [OF add(1)]) (use example_store(1) in \<open>simp_all add: store_ok_def sub_filter_ok_def\<close>)
  moreover have "sub_leaves bro f = (if f = [0x61] then [\<lparr>l_context = 6, l_qos = 0\<rparr>] else [])" for f
    using mqtt3_sub_add_law [OF add(1)] example_store(2) [of f] example_store(2) [of "[0x61]"]
    by (simp add: sub_leaves_def upsert_def)
  moreover have "\<forall>x. resting (clients bro x)"
    using mqtt3_sub_add_law [OF add(1)] resting_example by (auto simp: only_subs_def)
  ultimately show thesis using that add(2) by blast
qed

text \<open>Two threads on this broker, with the clients 5 and 6.\<close>

definition example_loop :: "int \<Rightarrow> epollop" where
  "example_loop fd = epollop0\<lparr>num_events := 96600, l_sock := fd, watched := [fd], open_fds := [fd]\<rparr>"

lemma example_loop_ok: "\<forall>x. cur_ok (clients bro x) \<Longrightarrow> 0 \<le> fd \<Longrightarrow> thread_ok bro (example_loop fd) []"
  by (simp add: thread_ok_def hash_ok_def app_list_def thread_hash_def example_loop_def epollop0_def)

lemma example_threads:
  assumes "\<forall>x. resting (clients bro x)"
  obtains S where "system_ok S (\<lambda>i. if i = 0 then [5] else if i = 1 then [6] else [])"
    "sy_state S 0 = Waiting" "sy_state S 1 = Waiting" "5 \<in> set (watched (sy_ep S 0))" "sy_inbox S = (\<lambda>_. [])"
    "(sy_bro S)\<lparr>clients := clients bro\<rparr> = bro"
    "\<forall>x. resting (clients (sy_bro S) x)"
proof -
  have c0: "\<forall>x. cur_ok (clients bro x)" using assms by (simp add: resting_def cur_ok_def)
  obtain b1 e1 where 1: "thread_ok b1 e1 ([] @ [nat 5])" "open_fds e1 = 5 # open_fds (example_loop 3)"
    "watched e1 = (if True then [5] else []) @ watched (example_loop 3)"
    "\<exists>h. clients b1 (nat 5) = (clients bro (nat 5))\<lparr>sock := 5, epoll_id := th_id (example_loop 3), hh := h\<rparr>"
    "\<And>x. x \<noteq> nat 5 \<Longrightarrow> \<exists>h. clients b1 x = (clients bro x)\<lparr>hh := h\<rparr>" "b1\<lparr>clients := clients bro\<rparr> = bro"
    by (rule thread_accept [OF example_loop_ok [OF c0, of 3], of 5 "\<lambda>_. []" 3 True])
      (simp, simp, simp add: example_loop_def, simp, simp, rule that)
  have c1: "\<forall>x. cur_ok (clients b1 x)" by (rule thread_cur_ok [OF 1(1)])
  obtain b2 e2 where 2: "thread_ok b2 e2 ([] @ [nat 6])" "open_fds e2 = 6 # open_fds (example_loop 4)"
    "\<exists>h. clients b2 (nat 6) = (clients b1 (nat 6))\<lparr>sock := 6, epoll_id := th_id (example_loop 4), hh := h\<rparr>"
    "\<And>x. x \<notin> insert (nat 6) (set []) \<Longrightarrow> clients b2 x = clients b1 x" "b2\<lparr>clients := clients b1\<rparr> = b1"
    by (rule thread_accept [OF example_loop_ok [OF c1, of 4], of 6 "\<lambda>_. []" 4 True])
      (simp, simp, simp add: example_loop_def, simp, simp, rule that)
  have "thread_ok b2 e1 [5]"
    by (rule thread_ok_other [OF 1(1) [simplified] _ thread_cur_ok [OF 2(1)]])
      (use 1(2) 2(4) in \<open>auto simp: example_loop_def\<close>)
  moreover define S where "S = \<lparr>sy_bro = b2, sy_ep = (\<lambda>i. if i = 0 then e1 else if i = 1 then e2 else epollop0),
      sy_state = (\<lambda>i. if i = 0 \<or> i = 1 then Waiting else Ended), sy_inbox = (\<lambda>_. [])\<rparr>"
  ultimately have "system_ok S (\<lambda>i. if i = 0 then [5] else if i = 1 then [6] else [])"
    using 1(2) 2(1,2) thread_cur_ok [OF 2(1)]
    by (auto simp: system_ok_def loop_ok_def epollop0_def example_loop_def disjnt_def)
  moreover have "resting (clients b2 x)" for x
  proof -
    have r1: "resting (clients b1 y)" for y
      using assms 1(4) 1(5) [of y] by (cases "y = nat 5") auto
    show ?thesis using r1 2(3) 2(4) [of x] by (cases "x = nat 6") auto
  qed
  moreover have "b2\<lparr>clients := clients bro\<rparr> = bro" using 1(6) 2(5) by (cases b1; cases b2; cases bro) simp
  ultimately show thesis using 1(3) by (intro that [of S]) (simp_all add: S_def)
qed

section \<open>The property\<close>



end
