(* ===== verification/Event_Loop_Safety.thy ===== *)
theory Event_Loop_Safety
  imports Event_Loop_Properties
begin

text \<open>
  The event loop stays inside the memory of the broker: the invariant \<open>broker_safe\<close> of all
  clients between two steps, that every step of a thread keeps it (preservation), and that from
  it the next step has a result (progress), neither following a null or dangling pointer nor
  reading or writing outside an object.
\<close>

section \<open>The invariant\<close>

text \<open>A packet that is still being read has only its header, which the parser may rely on.\<close>

definition unparsed :: "client \<Rightarrow> bool" where
  "unparsed c \<longleftrightarrow> (\<forall>m. in_packet c = Some m \<longrightarrow> msg_bufs_ok m \<and> filter_sized m)"

definition reading_ok :: "client \<Rightarrow> bool" where
  "reading_ok c \<longleftrightarrow> reader_ok c \<and> unparsed c"

definition broker_safe :: "broker \<Rightarrow> bool" where
  "broker_safe bro \<longleftrightarrow> clients_ok bro \<and> (\<forall>x. reading_ok (clients bro x))"

lemma reading_ok_reader: "reader c' = reader c \<Longrightarrow> reading_ok c' = reading_ok c"
  by (simp add: reader_def reading_ok_def reader_ok_def unparsed_def)

lemma reader_update3 [simp]:
  "reader (c\<lparr>hh := h\<rparr>) = reader c" "reader (c\<lparr>sock := i\<rparr>) = reader c" "reader (c\<lparr>epoll_id := i\<rparr>) = reader c"
  by (simp_all add: reader_def)

lemma sender_ok_accepted [simp]:
  "sender_ok (c\<lparr>epoll_id := i\<rparr>) = sender_ok c" "sender_ok (c\<lparr>sock := i\<rparr>) = sender_ok c"
  by (rule sender_ok_outside) (simp add: outside_def,
    simp add: sender_ok_def cur_packet_def cong: option.case_cong)

lemma filter_sized_message0: "filter_sized message0"
  by (simp add: filter_sized_def message0_def)

lemma unparsed_header [simp]:
  "msg_bufs_ok (mqtt_parser_command m d) = msg_bufs_ok m" "filter_sized (mqtt_parser_command m d) = filter_sized m"
  "msg_bufs_ok (m\<lparr>m_length := l\<rparr>) = msg_bufs_ok m" "filter_sized (m\<lparr>m_length := l\<rparr>) = filter_sized m"
  by (simp_all add: msg_bufs_ok_def filter_sized_def mqtt_parser_command_def)

lemma unparsed_update [simp]:
  "unparsed (c\<lparr>remaining_count := i\<rparr>) = unparsed c" "unparsed (c\<lparr>in_payload := pl\<rparr>) = unparsed c"
  "unparsed (c\<lparr>in_to_process := w\<rparr>) = unparsed c" "unparsed (payload_chunk bs c) = unparsed c"
  "unparsed (length_byte d c) = unparsed c"
  "unparsed (c\<lparr>in_packet := map_option (\<lambda>m. mqtt_parser_command m d) (in_packet c), remaining_mult := w\<rparr>) = unparsed c"
  by (cases "in_packet c"; simp add: unparsed_def length_byte_def)+

lemma unparsed_start: "unparsed c \<Longrightarrow> unparsed (start_packet c)"
  by (simp add: start_packet_def unparsed_def mqtt_message_init_def msg_bufs_ok_message0 filter_sized_message0)

interpretation unread: collect_frame "\<lambda>c c'. unparsed c \<longrightarrow> unparsed c'"
  by unfold_locales (simp_all add: unparsed_start)

lemma collect_cases:
  assumes "reading_ok c"
  obtains (go) c' r es' where "collect ok c es = Go c' r es'" "packet_read c'" "unparsed c'"
  | (stop) r c' es' where "collect ok c es = Return r c' es'" "r \<le> 1" "0 < r \<Longrightarrow> reading_ok c'"
proof -
  have c: "reader_ok c" "unparsed c" using assms by (simp_all add: reading_ok_def)
  show thesis
  proof (cases "collect ok c es")
    case (Go c' r es')
    with collect_reader [OF c(1), of ok es] unread.collect_rel [of c ok es] c(2) show thesis by (intro go) simp_all
  next
    case (Return r c' es')
    with unread.collect_rel [of c ok es] c(2) have "r \<le> 1" "unparsed c'" by simp_all
    moreover have "reader_ok c'" if "0 < r"
      using that collect_reader [OF c(1), of ok es] Return \<open>r \<le> 1\<close> by simp
    ultimately show thesis by (intro stop [OF Return]) (simp_all add: reading_ok_def)
  next
    case Bad_write
    with collect_reader [OF c(1), of ok es] show thesis by simp
  qed
qed

section \<open>A complete packet\<close>

text \<open>
  What the code leaves to the publisher: that parsing a SUBSCRIBE stays inside the packet, and
  that the topic checks, which look for a zero byte, find their end inside it.
\<close>

definition packet_inside :: "client \<Rightarrow> bool" where
  "packet_inside c \<longleftrightarrow> (case in_packet c of None \<Rightarrow> True
     | Some m \<Rightarrow>
         (case parse_loop (goto (in_parser c) MQTT_PARSER_STATE_INITIAL) m
                 (case in_payload c of None \<Rightarrow> [] | Some bs \<Rightarrow> bs) (unat (m_length m)) 0 of
            Some (PReturn rc p' m' n') \<Rightarrow> rc = MQTT_PARSER_RC_DONE \<longrightarrow> checks_inside m'
          | Some _ \<Rightarrow> False
          | None \<Rightarrow> True))"

lemma parse_loop_fault:
  "mqtt_parser_execute p m data len n = Some PFault \<Longrightarrow> parse_loop p m data len n = Some PFault"
  by (subst parse_loop.simps) simp

lemma clients_ok_outside:
  "clients_ok bro \<Longrightarrow> outside c = outside (clients bro s) \<Longrightarrow> clients_ok (set_client s c bro)"
  using sender_ok_outside [of c "clients bro s"] by (simp add: clients_ok_def)

lemma finish_packet_progress:
  assumes "clients_ok bro" "\<not> root_lock bro" "packet_read (clients bro s)" "unparsed (clients bro s)"
    and "packet_inside (clients bro s)"
  shows "\<exists>r bro'. finish_packet_in base s rlen bro = Ok (r, bro')"
proof -
  let ?c = "clients bro s"
  let ?p = "goto (in_parser ?c) MQTT_PARSER_STATE_INITIAL"
  let ?data = "case in_payload ?c of None \<Rightarrow> [] | Some bs \<Rightarrow> bs"
  note b = packet_read_bounds [OF assms(3)]
  obtain m where m: "in_packet ?c = Some m" using b(2) by auto
  let ?len = "unat (m_length m)"
  have len: "?len \<le> length ?data" "?len < 268435456" using b(3,4) m by (cases "m_length m = 0"; auto)+
  have msg: "msg_bufs_ok m" "filter_sized m" using assms(4) m by (simp_all add: unparsed_def)
  have init: "p_state ?p = MQTT_PARSER_STATE_INITIAL" by simp
  show ?thesis
  proof (cases rule: parser_result [OF init len(1) msg])
    case 1
    from parse_loop_fault [OF this] assms(5) m show ?thesis by (simp add: packet_inside_def)
  next
    case (2 rc p' m' n')
    note result = 2
    then have loop: "parse_loop ?p m ?data ?len 0 = Some (PReturn rc p' m' n')"
      by (intro parse_loop_done) auto
    let ?b = "set_client s (?c\<lparr>in_cur := 0, remaining_count := 0, in_parser := p', in_packet := Some m'\<rparr>) bro"
    have h: "\<exists>ret b'. handle_mqtt_command base s ?b = Ok (ret, b')" if "rc = MQTT_PARSER_RC_DONE"
    proof -
      have "checks_inside m'" using assms(5) m loop that by (simp add: packet_inside_def)
      moreover have "clients_ok ?b" by (rule clients_ok_outside [OF assms(1)]) simp
      ultimately show ?thesis
        using handler_is_safe [of ?b s m' ?len base] result(3,4,7) that len(2) assms(2)
        by (auto simp: filter_sized_def)
    qed
    have "finish_packet_in base s rlen bro = (if rc = MQTT_PARSER_RC_ERROR \<or> rc = MQTT_PARSER_RC_INCOMPLETE then Ok (-1, ?b)
        else obind (handle_mqtt_command base s ?b) (\<lambda>(ret_code, bro). if ret_code \<noteq> 0 then Ok (-1, bro)
          else Ok (rlen, set_client s ((clients bro s)\<lparr>in_payload := None\<rparr>) bro)))"
      using m loop by (simp add: finish_packet_in_def Let_def)
    then show ?thesis using h result(2) by auto
  qed
qed

text \<open>Afterwards the client is idle again, or it is about to be removed.\<close>

lemma finish_packet_reading:
  assumes "finish_packet_in base s rlen bro = Ok (r, bro')" "\<forall>x. x \<noteq> s \<longrightarrow> reading_ok (clients bro x)"
    and "in_to_process (clients bro s) = 0"
  shows "(x \<noteq> s \<longrightarrow> reading_ok (clients bro' x)) \<and> (0 < r \<longrightarrow> reading_ok (clients bro' s))"
proof -
  from assms(1) consider
      (error) p' k where "r = -1" "bro' = set_client s ((clients bro s)\<lparr>in_cur := 0, remaining_count := 0,
          in_parser := p', in_packet := k\<rparr>) bro"
    | (handled) p' k ret b b2 where "b = set_client s ((clients bro s)\<lparr>in_cur := 0, remaining_count := 0,
          in_parser := p', in_packet := k\<rparr>) bro" "handle_mqtt_command base s b = Ok (ret, b2)"
        "ret \<noteq> 0 \<and> r = -1 \<and> bro' = b2 \<or> bro' = set_client s ((clients b2 s)\<lparr>in_payload := None\<rparr>) b2"
    by (auto simp: finish_packet_in_def Let_def obind_eq_Ok split: option.splits parse_result.splits if_splits)
  then show ?thesis
  proof cases
    case error
    then show ?thesis using assms(2) by simp
  next
    case handled
    note h = handler_reader [OF handled(2)]
    have other: "reader (clients bro' x) = reader (clients bro x)" if "x \<noteq> s" for x
      using h [of x] handled(1,3) that by auto
    then have "x \<noteq> s \<longrightarrow> reading_ok (clients bro' x)" using assms(2) reading_ok_reader by blast
    moreover
    have "in_packet (clients b2 s) = None" "remaining_count (clients b2 s) = 0" "in_cur (clients b2 s) = 0"
      "in_to_process (clients b2 s) = 0"
      using h [of s] handled(1) assms(3) by (simp_all add: reader_def)
    then have "idle ((clients b2 s)\<lparr>in_payload := None\<rparr>)" by (simp add: idle_def)
    from reader_ok_idle [OF this] have "0 < r \<longrightarrow> reading_ok (clients bro' s)"
      using handled(3) \<open>in_packet (clients b2 s) = None\<close> by (auto simp: reading_ok_def unparsed_def)
    ultimately show ?thesis ..
  qed
qed

section \<open>Reading from a client\<close>

lemma loop_read_safe:
  assumes "loop_read base s ok hup err inp es bro = Ok (r, bro', es')" "broker_safe bro"
  shows "clients_ok bro'" "x \<noteq> s \<longrightarrow> reading_ok (clients bro' x)" "0 < r \<longrightarrow> reading_ok (clients bro' s)"
proof -
  have c: "clients_ok bro" "\<And>x. reading_ok (clients bro x)" using assms(2) by (simp_all add: broker_safe_def)
  show "clients_ok bro'" by (rule loop_read_clients_ok [OF assms(1) c(1)])
  have "(x \<noteq> s \<longrightarrow> reading_ok (clients bro' x)) \<and> (0 < r \<longrightarrow> reading_ok (clients bro' s))"
  proof (cases "hup \<or> err \<or> \<not> inp")
    case True
    with assms(1) c(2) show ?thesis by (auto simp: loop_read_def split: if_splits)
  next
    case False
    show ?thesis
    proof (cases rule: collect_cases [OF c(2), of ok s es])
      case (1 c' r' es1)
      with assms(1) False have "finish_packet_in base s r' (set_client s c' bro) = Ok (r, bro')"
        by (auto simp: loop_read_def obind_eq_Ok)
      from finish_packet_reading [OF this, of x] 1(2) c(2) show ?thesis by (simp add: packet_read_def)
    next
      case (2 r' c' es1)
      with assms(1) False c(2) show ?thesis by (auto simp: loop_read_def)
    qed
  qed
  then show "x \<noteq> s \<longrightarrow> reading_ok (clients bro' x)" "0 < r \<longrightarrow> reading_ok (clients bro' s)" by simp_all
qed

text \<open>The condition on an event: a packet that it completes keeps the parser and the checks inside.\<close>

definition event_inside :: "event \<Rightarrow> thread \<Rightarrow> bool" where
  "event_inside ev t \<longleftrightarrow>
     (case collect (ev_mem ev) (clients (t_bro t) (slot_of (t_ep t) (ev_fd ev))) (t_inbox t (ev_fd ev) @ ev_data ev) of
        Go c r es \<Rightarrow> packet_inside c
      | _ \<Rightarrow> True)"

lemma loop_read_progress:
  assumes "broker_safe bro" "\<not> root_lock bro"
    and "case collect ok (clients bro s) es of Go c r es \<Rightarrow> packet_inside c | _ \<Rightarrow> True"
  shows "\<exists>r bro' es'. loop_read base s ok hup err inp es bro = Ok (r, bro', es')"
proof (cases "hup \<or> err \<or> \<not> inp")
  case False
  have c: "clients_ok bro" "reading_ok (clients bro s)" using assms(1) by (simp_all add: broker_safe_def)
  show ?thesis
  proof (cases rule: collect_cases [OF c(2), of ok es])
    case (1 c' r es')
    have "outside c' = outside (clients bro s)" using outside.collect_rel [of "clients bro s" ok es] 1(1) by simp
    then have "clients_ok (set_client s c' bro)" by (rule clients_ok_outside [OF c(1)])
    then have "\<exists>rc bro'. finish_packet_in base s r (set_client s c' bro) = Ok (rc, bro')"
      by (rule finish_packet_progress) (use 1 assms(2,3) in simp_all)
    with 1(1) False show ?thesis by (auto simp: loop_read_def)
  next
    case (2 r c' es')
    with False show ?thesis by (simp add: loop_read_def)
  qed
qed (auto simp: loop_read_def)

section \<open>Removing a client\<close>

lemma cleaned_safe:
  assumes "cleaned c'" "sender_ok c" "\<And>q. queued c q \<Longrightarrow> queued c' q"
  shows "sender_ok c'" "reading_ok c'"
proof -
  have c: "idle c'" "num_sending_pack c' = 0" "sending_cur_packet c' = None" using assms(1) by (simp_all add: cleaned_def)
  from assms(2) obtain q where "queued c q" "\<forall>p \<in> set q. unat (wlen p) \<le> length (send_buf p)"
    unfolding sender_ok_def by blast
  with assms(3) c show "sender_ok c'" unfolding sender_ok_def by (intro exI [of _ q]) (simp add: cur_packet_def)
  show "reading_ok c'" using reader_ok_idle [OF c(1)] c(1) by (simp add: reading_ok_def unparsed_def idle_def)
qed

lemma remove_client_safe:
  assumes "thread_ok bro ep xs" "s \<in> set xs" "clients_ok bro" "\<forall>x. x \<noteq> s \<longrightarrow> reading_ok (clients bro x)"
  obtains bro' ep' where "remove_client (int s) bro ep = Ok (bro', ep')" "broker_safe bro'"
proof -
  obtain bro' ep' where r: "remove_client (int s) bro ep = Ok (bro', ep')" "cleaned (clients bro' s)"
    "\<And>q. queued (clients bro s) q \<Longrightarrow> queued (clients bro' s) q"
    "\<And>x. x \<noteq> s \<Longrightarrow> \<exists>h. clients bro' x = (clients bro x)\<lparr>hh := h\<rparr>"
    by (rule thread_remove [OF assms(1,2)]) (rule that)
  have s: "sender_ok (clients bro x)" for x using assms(3) by (simp add: clients_ok_def)
  have "sender_ok (clients bro' x) \<and> reading_ok (clients bro' x)" for x
  proof (cases "x = s")
    case True
    with cleaned_safe [OF r(2) s r(3)] show ?thesis by simp
  next
    case False
    from r(4) [OF this] obtain h where "clients bro' x = (clients bro x)\<lparr>hh := h\<rparr>" by blast
    with s [of x] assms(4) False reading_ok_reader [of "(clients bro x)\<lparr>hh := h\<rparr>" "clients bro x"] show ?thesis by simp
  qed
  then show thesis by (intro that [OF r(1)]) (simp add: broker_safe_def clients_ok_def)
qed

section \<open>Events\<close>

text \<open>The descriptor of an event that is not the listener's belongs to a client of the thread.\<close>

lemma event_client:
  assumes "clients_are t xs" "kernel_ok ev t" "ev_fd ev \<noteq> l_sock (t_ep t)"
  obtains s where "ev_fd ev = int s" "s \<in> set xs" "slot_of (t_ep t) (ev_fd ev) = s"
proof -
  have "ev_fd ev \<in> insert (l_sock (t_ep t)) (int ` set xs)" "base_sock (t_ep t) = 0"
    using assms(1,2) by (auto simp: thread_ok_def kernel_ok_def)
  with assms(3) that show thesis by (auto simp: slot_of_def)
qed

lemma accept_client_safe:
  assumes "thread_ok bro ep xs" "length xs < MAX_FD_PER_LOOP" "r \<notin> set (open_fds ep)" "broker_safe bro"
  obtains bro' ep' where "accept_client pb fd r added bro ep = Ok (bro', ep')" "broker_safe bro'"
proof (cases "0 < r \<and> r < int (MAX_FD_PER_LOOP * LOOP_COUNT)")
  case True
  obtain bro' ep' where a: "accept_client pb fd r added bro ep = Ok (bro', ep')"
    "\<exists>h. clients bro' (nat r) = (clients bro (nat r))\<lparr>sock := r, epoll_id := th_id ep, hh := h\<rparr>"
    "\<And>x. x \<noteq> nat r \<Longrightarrow> \<exists>h. clients bro' x = (clients bro x)\<lparr>hh := h\<rparr>"
    by (rule thread_accept [OF assms(1-3), of pb fd added]) (use True in auto)
  have same: "\<exists>h. clients bro' x = (clients bro x)\<lparr>hh := h\<rparr> \<or>
      clients bro' x = (clients bro x)\<lparr>sock := r, epoll_id := th_id ep, hh := h\<rparr>" for x
    using a(2) a(3) [of x] by (cases "x = nat r") blast+
  have "sender_ok (clients bro' x) \<and> reading_ok (clients bro' x)" for x
  proof -
    have "sender_ok (clients bro' x) = sender_ok (clients bro x)" "reader (clients bro' x) = reader (clients bro x)"
      using same [of x] by auto
    then show ?thesis
      using assms(4) reading_ok_reader [of "clients bro' x" "clients bro x"] by (simp add: broker_safe_def clients_ok_def)
  qed
  then show thesis by (intro that [OF a(1)]) (simp add: broker_safe_def clients_ok_def)
next
  case False
  with accept_none [of r] assms(4) show thesis by (intro that [of bro ep]) auto
qed

lemma handle_event_safe:
  assumes "clients_are t xs" "kernel_ok ev t" "broker_safe (t_bro t)" "handle_event pb ev t = Ok t'"
  shows "broker_safe (t_bro t')"
proof (cases "ev_fd ev = l_sock (t_ep t)")
  case True
  with assms(1,2) below_capacity_length have k: "length xs < MAX_FD_PER_LOOP" "ev_accept ev \<notin> set (open_fds (t_ep t))"
    by (auto simp: kernel_ok_def)
  obtain bro' ep' where "accept_client pb (ev_fd ev) (ev_accept ev) (ev_added ev) (t_bro t) (t_ep t) = Ok (bro', ep')"
    "broker_safe bro'" by (rule accept_client_safe [OF assms(1) k assms(3)])
  with assms(4) True show ?thesis by (auto simp: handle_event_def Let_def)
next
  case False
  obtain s where s: "ev_fd ev = int s" "s \<in> set xs" "slot_of (t_ep t) (ev_fd ev) = s"
    by (rule event_client [OF assms(1,2) False])
  have "obind (loop_read (base_sock (t_ep t)) s (ev_mem ev) (ev_hup ev) (ev_err ev) (ev_in ev)
      (t_inbox t (int s) @ ev_data ev) (t_bro t)) (\<lambda>(r, bro, es). if r \<le> 0 then
        obind (remove_client (int s) bro (t_ep t)) (\<lambda>(bro, ep).
          Ok (t\<lparr>t_bro := bro, t_ep := ep, t_inbox := (t_inbox t)(int s := [])\<rparr>))
      else Ok (t\<lparr>t_bro := bro, t_inbox := (t_inbox t)(int s := es)\<rparr>)) = Ok t'"
    using assms(4) False by (simp add: handle_event_def Let_def s(1) s(3) [unfolded s(1)])
  then obtain r bro1 es where 1: "loop_read (base_sock (t_ep t)) s (ev_mem ev) (ev_hup ev) (ev_err ev)
      (ev_in ev) (t_inbox t (int s) @ ev_data ev) (t_bro t) = Ok (r, bro1, es)"
    "(if r \<le> 0 then
        obind (remove_client (int s) bro1 (t_ep t)) (\<lambda>(bro, ep).
          Ok (t\<lparr>t_bro := bro, t_ep := ep, t_inbox := (t_inbox t)(int s := [])\<rparr>))
      else Ok (t\<lparr>t_bro := bro1, t_inbox := (t_inbox t)(int s := es)\<rparr>)) = Ok t'"
    unfolding obind_eq_Ok by auto
  note l = loop_read_safe [OF 1(1) assms(3)]
  show ?thesis
  proof (cases "r \<le> 0")
    case True
    have ok1: "thread_ok bro1 (t_ep t) xs" by (rule thread_ok_keeps [OF assms(1) loop_read_keeps [OF 1(1)]])
    obtain bro2 ep2 where "remove_client (int s) bro1 (t_ep t) = Ok (bro2, ep2)" "broker_safe bro2"
      by (rule remove_client_safe [OF ok1 s(2) l(1)]) (use l(2) in auto)
    with 1(2) True show ?thesis by auto
  next
    case False
    then have "reading_ok (clients bro1 x)" for x using l(2) [of x] l(3) by (cases "x = s") simp_all
    with 1(2) l(1) False show ?thesis by (auto simp: broker_safe_def)
  qed
qed

lemma handle_event_progress:
  assumes "clients_are t xs" "kernel_ok ev t" "broker_safe (t_bro t)" "\<not> root_lock (t_bro t)" "event_inside ev t"
  shows "\<exists>t'. handle_event pb ev t = Ok t'"
proof (cases "ev_fd ev = l_sock (t_ep t)")
  case True
  with assms(1,2) below_capacity_length have k: "length xs < MAX_FD_PER_LOOP" "ev_accept ev \<notin> set (open_fds (t_ep t))"
    by (auto simp: kernel_ok_def)
  obtain bro' ep' where "accept_client pb (ev_fd ev) (ev_accept ev) (ev_added ev) (t_bro t) (t_ep t) = Ok (bro', ep')"
    by (rule accept_client_safe [OF assms(1) k assms(3)])
  with True show ?thesis by (simp add: handle_event_def Let_def)
next
  case False
  obtain s where s: "ev_fd ev = int s" "s \<in> set xs" "slot_of (t_ep t) (ev_fd ev) = s"
    by (rule event_client [OF assms(1,2) False])
  have inside: "case collect (ev_mem ev) (clients (t_bro t) s) (t_inbox t (int s) @ ev_data ev) of
      Go c r es \<Rightarrow> packet_inside c | _ \<Rightarrow> True"
    using assms(5) by (simp add: event_inside_def s(1) s(3) [unfolded s(1)])
  obtain r bro1 es where 1: "loop_read (base_sock (t_ep t)) s (ev_mem ev) (ev_hup ev) (ev_err ev)
      (ev_in ev) (t_inbox t (int s) @ ev_data ev) (t_bro t) = Ok (r, bro1, es)"
    using loop_read_progress [OF assms(3,4) inside] by blast
  note l = loop_read_safe [OF 1 assms(3)]
  have ok1: "thread_ok bro1 (t_ep t) xs" by (rule thread_ok_keeps [OF assms(1) loop_read_keeps [OF 1]])
  obtain bro2 ep2 where "remove_client (int s) bro1 (t_ep t) = Ok (bro2, ep2)"
    by (rule remove_client_safe [OF ok1 s(2) l(1)]) (use l(2) in auto)
  with 1 False s(1,3) show ?thesis by (simp add: handle_event_def Let_def)
qed

section \<open>Sending\<close>

lemma flush_one_keeps_safe:
  assumes "thread_ok bro ep xs" "s \<in> set xs" "broker_safe bro" "flush_one rs s bro ep = Ok (bro', ep', nxt, out)"
  shows "broker_safe bro'"
proof -
  from assms(4) obtain e c rest where 1: "flush_client rs (clients bro s) = Ok (e, c, out, rest)"
    "(if e = Skip_critical then remove_client (sock c) (set_client s c bro) ep
      else Ok (set_client s c bro, ep)) = Ok (bro', ep')"
    by (auto simp: flush_one_def obind_eq_Ok)
  let ?b = "set_client s c bro"
  have "sender_ok (clients bro s)" using assms(3) by (simp add: broker_safe_def clients_ok_def)
  then have "sender_ok c" using flush_client_safe 1(1) by blast
  moreover have "reading_ok c"
    using reading_ok_reader [OF reading.flush_client_rel [OF 1(1)]] assms(3) by (simp add: broker_safe_def)
  ultimately have b: "clients_ok ?b" "reading_ok (clients ?b x)" for x
    using assms(3) by (simp_all add: broker_safe_def clients_ok_def)
  have t: "thread_ok ?b ep xs"
    by (rule thread_ok_keeps [OF assms(1) bro_keeps_set [OF flush_client_keeps [OF 1(1)]]])
  then have "sock c = int s" using assms(2) by (auto simp: thread_ok_def)
  moreover obtain b2 e2 where "remove_client (int s) ?b ep = Ok (b2, e2)" "broker_safe b2"
    by (rule remove_client_safe [OF t assms(2) b(1)]) (use assms(3) in \<open>auto simp: broker_safe_def\<close>)
  ultimately show ?thesis using 1(2) b by (auto simp: broker_safe_def split: if_splits)
qed

end
