(* ===== verification/Threads_Safety.thy ===== *)
theory Threads_Safety
  imports Threads_Facts Event_Loop_Safety
begin

text \<open>
  Memory safety of the whole broker: the invariant of all clients holds after every step of
  every thread, and so no thread ever leaves the memory of the broker, whatever the sockets
  deliver and the other threads do, as long as the packets meet the one condition that the code
  does not check itself.
\<close>

section \<open>Every step keeps the invariant\<close>

lemma system_step_safe:
  assumes "system_step pb S S'" "system_ok S xss" "broker_safe (sy_bro S)"
  shows "broker_safe (sy_bro S')"
  using assms
proof (induction rule: system_step.induct)
  case (receive S i ev t)
  have "clients_are (view i S) (xss i)" using system_ok_list [OF receive.prems(1)] receive.hyps(1) by simp
  from handle_event_safe [OF this receive.hyps(2) _ receive.hyps(4)] receive.prems(2) show ?case by simp
next
  case (send S i s rs bro ep nxt out)
  have "thread_ok (sy_bro S) (sy_ep S i) (xss i)" using system_ok_list [OF send.prems(1)] send.hyps(1) by simp
  moreover have "s \<in> set (xss i)"
    using system_okD(2) [OF send.prems(1), of i] send.hyps(1) by (simp add: loop_ok_def)
  ultimately show ?case using flush_one_keeps_safe [OF _ _ send.prems(2) send.hyps(2)] by simp
qed simp_all

lemma system_run_safe:
  "(system_step pb)\<^sup>*\<^sup>* S S' \<Longrightarrow> system_ok S xss \<Longrightarrow> broker_safe (sy_bro S) \<Longrightarrow>
   \<exists>xss'. system_ok S' xss' \<and> broker_safe (sy_bro S')"
proof (induction rule: rtranclp_induct)
  case (step S1 S2)
  then show ?case using system_step_ok system_step_safe by blast
qed blast

lemma client0_safe: "sender_ok client0" "reading_ok client0"
proof -
  have "idle client0" by (simp add: idle_def client0_def)
  from reader_ok_idle [OF this] show "reading_ok client0" by (simp add: reading_ok_def unparsed_def client0_def)
  have "queued client0 []" by (simp add: queued_def queue_at_def packets_at_def client0_def)
  then show "sender_ok client0"
    unfolding sender_ok_def by (intro exI [of _ "[]"]) (simp add: cur_packet_def client0_def)
qed

lemma start_safe:
  assumes "broker_main argc al lock rcs = Ok (0, Some bro, ths)"
  shows "system_ok (system0 bro ths) (\<lambda>_. [])" "broker_safe (sy_bro (system0 bro ths))"
  using broker_main_start [OF assms] client0_safe system0_ok [of bro ths]
  by (simp_all add: broker_safe_def clients_ok_def system0_def)

lemma start_thread_progress: "sr_mem r \<Longrightarrow> \<exists>x. start_thread th r ep = Ok x"
  by (auto simp: start_thread_def init_event_io_def Let_def split_beta)

section \<open>Packets that meet the condition\<close>

text \<open>A QoS 0 PUBLISH meets it when the check of its topic ends in its content.\<close>

lemma publish_inside:
  assumes "idle c" "avail es = cmd # varint (2 + length t + length d) @ utf8_field t @ d @ rest"
    and "m_type (mqtt_parser_command message0 cmd) = MQTT_TYPE_PUBLISH" "m_qos (mqtt_parser_command message0 cmd) = 0"
    and "length t < 65536" "2 \<le> length d" "2 + length t + length d < 268435456" "pub_topic_valid (Some (t @ d)) \<noteq> None"
  shows "case collect True c es of Go c r es \<Rightarrow> packet_inside c | _ \<Rightarrow> True"
proof -
  let ?pl = "utf8_field t @ d" and ?n = "2 + length t + length d"
  let ?m = "(mqtt_parser_command message0 cmd)\<lparr>m_length := of_nat ?n\<rparr>"
  have ln: "length ?pl = ?n" by simp
  obtain r es' where col: "collect True c es = Go (c\<lparr>in_packet := Some ?m, remaining_count := int (length (varint ?n)),
      remaining_mult := 128 ^ length (varint ?n), in_payload := Some ?pl, in_to_process := 0, in_cur := of_nat ?n\<rparr>) r es'"
    using collect_avail [OF assms(1), of es cmd ?pl rest] assms(2,6,7) unfolding ln by (auto simp: utf8_field_def be16_bytes_def)
  have "checks_inside (?m\<lparr>m_publish := \<lparr>topic_name = buf t d, pub_message_id = 0, content = buf d []\<rparr>\<rparr>)"
    using assms(3,8) by (simp add: checks_inside_def buf_def)
  then show ?thesis using publish_parsed [OF assms(3-7), of "in_parser c"] by (simp add: col packet_inside_def)
qed

section \<open>The property\<close>

text \<open>C4: The broker never leaves its memory: from \<open>main\<close> on and along every interleaving of its
  threads, no step of a thread follows a null or dangling pointer nor reads or writes outside an
  object, whatever the sockets deliver, in whatever pieces, and whatever allocations of payloads
  and subscriptions fail.  A thread starts; every event has a result, in particular every packet
  that it completes is parsed and handled; and the sending loop serves every client.  This needs
  the conditions that the code does not check itself: the array of a new thread is allocated,
  a completed packet keeps the parser and the topic checks inside it, a connection is accepted
  below the limit, and no failed subscription has left the root lock held.\<close>

theorem broker_stays_inside:
  assumes "broker_main argc al lock rcs = Ok (0, Some bro, ths)" "(system_step pb)\<^sup>*\<^sup>* (system0 bro ths) S"
  shows "(sy_state S i = Created \<and> sr_mem r \<longrightarrow> (\<exists>x. start_thread (int i) r (sy_ep S i) = Ok x)) \<and>
    (sy_state S i = Waiting \<and> kernel_ok ev (view i S) \<and> event_inside ev (view i S) \<and> \<not> root_lock (sy_bro S) \<longrightarrow>
      (\<exists>t. handle_event pb ev (view i S) = Ok t)) \<and>
    (sy_state S i = Sending (Some s) \<longrightarrow> flush_one rs s (sy_bro S) (sy_ep S i) \<noteq> Fault)"
proof -
  obtain xss where ok: "system_ok S xss" "broker_safe (sy_bro S)"
    using system_run_safe [OF assms(2) start_safe [OF assms(1)]] by blast
  have "\<exists>t. handle_event pb ev (view i S) = Ok t"
    if "sy_state S i = Waiting" "kernel_ok ev (view i S)" "event_inside ev (view i S)" "\<not> root_lock (sy_bro S)"
    using handle_event_progress [OF _ that(2) _ _ that(3), of "xss i" pb] system_ok_list [OF ok(1)] ok(2) that(1,4)
    by simp
  moreover have "flush_one rs s (sy_bro S) (sy_ep S i) \<noteq> Fault" if "sy_state S i = Sending (Some s)"
  proof -
    have "thread_ok (sy_bro S) (sy_ep S i) (xss i)" using system_ok_list [OF ok(1)] that by simp
    then show ?thesis
      by (rule flush_one_safe)
        (use that ok system_okD(2) [OF ok(1), of i] in \<open>simp_all add: loop_ok_def broker_safe_def clients_ok_def\<close>)
  qed
  ultimately show ?thesis using start_thread_progress by blast
qed

theorem broker_stays_inside_witness:
  "\<exists>bro S t. broker_main 2 [] 0 [0, 0] = Ok (0, Some bro, [0, 1]) \<and>
    (system_step (\<lambda>_. []))\<^sup>*\<^sup>* (system0 bro [0, 1]) S \<and> sy_state S 0 = Waiting \<and>
    handle_event (\<lambda>_. []) \<lparr>ev_fd = 5, ev_hup = False, ev_err = False, ev_in = True,
      ev_data = [Bytes (0x30 # varint 5 @ utf8_field [0x61] @ [0, 0])], ev_mem = True, ev_accept = -1,
      ev_added = False\<rparr> (view 0 S) = Ok t"
proof -
  obtain bro S where r: "broker_main 2 [] 0 [0, 0] = Ok (0, Some bro, [0, 1])"
    "(system_step (\<lambda>_. []))\<^sup>*\<^sup>* (system0 bro [0, 1]) S" "sy_state S 0 = Waiting" "contexts_by_ptr (sy_ep S 0) = Some 5"
    "l_sock (sy_ep S 0) = 3" "5 \<in> set (watched (sy_ep S 0))" "base_sock (sy_ep S 0) = 0" "sy_inbox S 5 = []"
    "idle (clients (sy_bro S) 5)" "\<not> root_lock (sy_bro S)"
    by (rule example_accept) (rule that)
  let ?ev = "\<lparr>ev_fd = 5, ev_hup = False, ev_err = False, ev_in = True,
      ev_data = [Bytes (0x30 # varint 5 @ utf8_field [0x61] @ [0, 0])], ev_mem = True, ev_accept = -1,
      ev_added = False\<rparr>"
  have "kernel_ok ?ev (view 0 S)" using r(5,6) by (simp add: kernel_ok_def)
  moreover have "event_inside ?ev (view 0 S)"
    using publish_inside [of "clients (sy_bro S) 5" "[Bytes (0x30 # varint 5 @ utf8_field [0x61] @ [0, 0])]" "0x30" "[0x61]" "[0, 0]" "[]"] r(7-9)
    by (simp add: event_inside_def slot_of_def mqtt_parser_command_def pub_topic_valid_def)
  ultimately obtain t where "handle_event (\<lambda>_. []) ?ev (view 0 S) = Ok t"
    using broker_stays_inside [OF r(1,2), of 0 _ ?ev] r(3,10) by blast
  with r(1-3) show ?thesis by blast
qed

end
