(* ===== verification/Printing.thy ===== *)
theory Printing
  imports Mumq_Prelude
begin

text \<open>
  The formats of \<open>printf\<close> that the program uses: decimal and two-digit hexadecimal numbers, and
  the bytes of a literal; and reading a decimal number back.
\<close>

fun decimal :: "nat \<Rightarrow> u8 list" where
  "decimal n = (if n < 10 then [of_nat (48 + n)] else decimal (n div 10) @ [of_nat (48 + n mod 10)])"

declare decimal.simps [simp del]

definition ascii :: "string \<Rightarrow> u8 list" where
  "ascii s = map of_char s"

definition printf_d :: "int \<Rightarrow> u8 list" where
  "printf_d n = (if n < 0 then ascii ''-'' @ decimal (nat (- n)) else decimal (nat n))"

definition hex_digit :: "nat \<Rightarrow> u8" where
  "hex_digit d = (if d < 10 then of_nat (48 + d) else of_nat (87 + d))"

definition printf_02x :: "u8 \<Rightarrow> u8 list" where
  "printf_02x b = [hex_digit (unat b div 16), hex_digit (unat b mod 16)]"

text \<open>The digits at the start of a string and their value.\<close>

definition is_digit :: "u8 \<Rightarrow> bool" where
  "is_digit b \<longleftrightarrow> 48 \<le> b \<and> b \<le> 57"

definition digits_value :: "u8 list \<Rightarrow> int" where
  "digits_value bs = foldl (\<lambda>n b. 10 * n + (int (unat b) - 48)) 0 (takeWhile is_digit bs)"

lemma digits_snoc:
  assumes "list_all is_digit bs" "is_digit b"
  shows "digits_value (bs @ [b]) = 10 * digits_value bs + (int (unat b) - 48)"
proof -
  have 1: "takeWhile is_digit (bs @ [b]) = bs @ [b]" "takeWhile is_digit bs = bs"
    using assms by (auto simp: list_all_iff takeWhile_eq_all_conv)
  show ?thesis unfolding digits_value_def 1 by simp
qed

lemma digit_byte:
  assumes "d < 10"
  shows "is_digit (of_nat (48 + d))" "int (unat (of_nat (48 + d) :: u8)) = 48 + int d"
proof -
  have "unat (of_nat (48 + d) :: u8) = 48 + d" using assms by (intro unat_of_nat_u8_small) simp
  then show "is_digit (of_nat (48 + d))" "int (unat (of_nat (48 + d) :: u8)) = 48 + int d"
    using assms by (simp_all add: is_digit_def word_le_nat_alt del: of_nat_add of_nat_unat)
qed

lemma decimal_digits: "list_all is_digit (decimal n) \<and> digits_value (decimal n) = int n"
proof (induction n rule: decimal.induct)
  case (1 n)
  show ?case
  proof (cases "n < 10")
    case True
    have d: "decimal n = [] @ [of_nat (48 + n)]" by (subst decimal.simps) (simp add: True)
    show ?thesis unfolding d using digit_byte [OF True] digits_snoc [of "[]", OF _ digit_byte(1) [OF True]]
      by (simp add: digits_value_def [of "[]"] del: of_nat_add of_nat_unat)
  next
    case False
    have d: "decimal n = decimal (n div 10) @ [of_nat (48 + n mod 10)]" by (subst decimal.simps) (simp add: False)
    have m: "n mod 10 < 10" by simp
    have "int n = 10 * int (n div 10) + int (n mod 10)" by (simp add: zdiv_int zmod_int)
    with digit_byte [OF m] 1 [OF False] digits_snoc [of "decimal (n div 10)", OF _ digit_byte(1) [OF m]]
    show ?thesis unfolding d by (simp del: of_nat_add of_nat_unat)
  qed
qed

lemma inj_decimal: "decimal m = decimal n \<longleftrightarrow> m = n"
  using decimal_digits by (metis of_nat_eq_iff)

lemma hex_digit_inj: "d < 16 \<Longrightarrow> e < 16 \<Longrightarrow> hex_digit d = hex_digit e \<longleftrightarrow> d = e"
proof -
  assume d: "d < 16" "e < 16"
  have u: "unat (hex_digit n) = (if n < 10 then 48 + n else 87 + n)" if "n < 16" for n
    using that unat_of_nat_u8_small [of "48 + n"] unat_of_nat_u8_small [of "87 + n"]
    by (auto simp: hex_digit_def simp del: of_nat_add)
  have "d = e" if "hex_digit d = hex_digit e"
    using arg_cong [OF that, of unat] u [OF d(1)] u [OF d(2)] by (simp split: if_splits)
  then show ?thesis by blast
qed

lemma printf_02x_inj: "printf_02x a = printf_02x b \<longleftrightarrow> a = b"
proof -
  have "unat b div 16 < 16" "unat b mod 16 < 16" for b :: u8
    using unat_u8_less [of b] by (simp_all add: less_mult_imp_div_less)
  then have "printf_02x a = printf_02x b \<longleftrightarrow> unat a div 16 = unat b div 16 \<and> unat a mod 16 = unat b mod 16"
    by (simp add: printf_02x_def hex_digit_inj)
  also have "\<dots> \<longleftrightarrow> unat a = unat b" by (metis div_mult_mod_eq)
  finally show ?thesis by (simp only: word_unat_eq_iff [of a b])
qed

end
