(* ===== verification/Tool_Types.thy ===== *)
theory Tool_Types
  imports Printing
begin

text \<open>
  What the load generators \<open>tools/epsub.c\<close> and \<open>tools/eppub.c\<close> have in common: their time
  arithmetic, the distribution of the connections over the cores and the numbering of the
  connections, and the names made from these numbers.  Both files contain this code.
  Numbers of connections and cores are natural numbers; \<open>atoi\<close> keeps them below $2^{31}$, so
  that the products of the code do not overflow for any number of connections it can reach.
\<close>

type_synonym u64 = "64 word"

section \<open>Time\<close>

record timeval =
  tv_sec :: int
  tv_usec :: int

text \<open>Differences of \<open>long\<close> values, converted to \<open>uint64_t\<close>.\<close>

definition time_diff :: "timeval \<Rightarrow> timeval \<Rightarrow> u64" where
  "time_diff cur old = of_int ((tv_sec cur - tv_sec old) * 1000000 + tv_usec cur - tv_usec old)"

text \<open>The minimum so far, 0 standing for none, and the maximum so far.\<close>

definition lower :: "u64 \<Rightarrow> u64 \<Rightarrow> u64" where
  "lower m x = (if m = 0 \<or> x < m then x else m)"

definition higher :: "u64 \<Rightarrow> u64 \<Rightarrow> u64" where
  "higher m x = (if m < x then x else m)"

text \<open>A \<open>struct timeval\<close> in memory: two little-endian 64-bit numbers.\<close>

definition le64 :: "u8 list \<Rightarrow> u64" where
  "le64 bs = foldr (\<lambda>i w. push_bit (8 * i) (ucast (bs ! i)) OR w) [0..<8] 0"

definition tv_of_bytes :: "u8 list \<Rightarrow> timeval" where
  "tv_of_bytes bs = \<lparr>tv_sec = sint (le64 bs), tv_usec = sint (le64 (drop 8 bs))\<rparr>"

definition bytes_of_u64 :: "u64 \<Rightarrow> u8 list" where
  "bytes_of_u64 w = map (\<lambda>i. ucast (drop_bit (8 * i) w)) [0..<8]"

definition bytes_of_tv :: "timeval \<Rightarrow> u8 list" where
  "bytes_of_tv tv = bytes_of_u64 (of_int (tv_sec tv)) @ bytes_of_u64 (of_int (tv_usec tv))"

abbreviation (input) sizeof_timeval :: nat where "sizeof_timeval \<equiv> 16"

section \<open>libmosquitto\<close>

abbreviation (input) MOSQ_ERR_SUCCESS :: int where "MOSQ_ERR_SUCCESS \<equiv> 0"

text \<open>The fields of a message that the callbacks read; the payload is its object.\<close>

record mosquitto_message =
  mm_payload :: "u8 list"
  mm_payloadlen :: int

datatype mosquitto_state = invalid | closed | connecting | connected | conacked | disconnected | will_disconnect

section \<open>Names\<close>

text \<open>\<open>sprintf\<close> into an array of 128 bytes, the terminating zero byte included.\<close>

definition sprintf128 :: "u8 list \<Rightarrow> u8 list outcome" where
  "sprintf128 s = (if length s < 128 then Ok s else Fault)"

section \<open>Connections and cores\<close>

text \<open>
  The parameters; \<open>concurs\<close> is the array of the connections per core, which \<open>main\<close> fills one
  entry at a time while it starts the threads.
\<close>

record config =
  core_limit :: nat
  concurrency :: nat
  concurs :: "nat \<Rightarrow> nat"
  flows_per_con :: u64
  topic :: "u8 list"
  is_unique :: bool
  client_id :: "u8 list option"
  size_opt :: int

text \<open>The number of the next connection of a core that has started \<open>started\<close> of them.\<close>

definition connection_id :: "config \<Rightarrow> nat \<Rightarrow> nat \<Rightarrow> nat" where
  "connection_id cf core started =
     (if started = concurrency cf \<and> concurs cf (core_limit cf - 1) < concurs cf core
      then core_limit cf * concurs cf (core_limit cf - 1) + core
      else core * concurrency cf + started)"

definition topic_name_of :: "config \<Rightarrow> nat \<Rightarrow> u8 list" where
  "topic_name_of cf i = topic cf @ (if is_unique cf then decimal i else [])"

definition client_name_of :: "string \<Rightarrow> config \<Rightarrow> nat \<Rightarrow> u8 list" where
  "client_name_of fallback cf i =
     (case client_id cf of Some c \<Rightarrow> c | None \<Rightarrow> ascii fallback) @ ascii ''-'' @ decimal i"

text \<open>
  \<open>main\<close>: the number of cores used, the connections per core and the cores with one more.
  Division by zero ends the program.
\<close>

definition plan :: "u64 \<Rightarrow> int \<Rightarrow> (u64 \<times> nat \<times> nat) outcome" where
  "plan conns limit =
     (let lim = (if conns < of_int limit then conns else of_int limit)
      in if 0 < conns then
           (if lim = 0 then Fault else Ok (lim, unat (conns div lim), unat (conns mod lim)))
         else Ok (lim, 1, 0))"

text \<open>The loop that fills \<open>concurs\<close>, after \<open>n\<close> of its rounds.\<close>

fun fill_concurs :: "nat \<Rightarrow> nat \<Rightarrow> nat \<Rightarrow> nat \<Rightarrow> nat" where
  "fill_concurs conc rem 0 = (\<lambda>_. 0)"
| "fill_concurs conc rem (Suc n) =
     (fill_concurs conc rem n)(n := if n < rem then conc + 1 else conc)"

text \<open>The arrays have \<open>MAX_CPUS\<close> entries; the loop over the cores does not test for it.\<close>

abbreviation (input) MAX_CPUS :: nat where "MAX_CPUS \<equiv> 16"

definition start_cores :: "u64 \<Rightarrow> int \<Rightarrow> (nat \<times> nat \<times> (nat \<Rightarrow> nat)) outcome" where
  "start_cores conns limit =
     obind (plan conns limit) (\<lambda>(lim, conc, rem).
       if MAX_CPUS < unat lim then Fault
       else Ok (unat lim, conc, fill_concurs conc rem (unat lim)))"

section \<open>Arguments\<close>

text \<open>\<open>atoi\<close> of the C library, for values that fit.\<close>

definition is_blank :: "u8 \<Rightarrow> bool" where
  "is_blank b \<longleftrightarrow> b = 32 \<or> (9 \<le> b \<and> b \<le> 13)"

definition atoi :: "u8 list \<Rightarrow> int" where
  "atoi s = (case dropWhile is_blank s of
     [] \<Rightarrow> 0
   | b # bs \<Rightarrow> if b = 45 then - digits_value bs else if b = 43 then digits_value bs else digits_value (b # bs))"

end
