(* ===== verification/Cpu.thy ===== *)
theory Cpu
  imports Mumq_Prelude
begin

text \<open>
  The helpers of the tools that ask for the number of processors and pin a thread to one
  (\<open>tools/util/cpu.c\<close>).  The C library allocates a set of processors in words of 64 bits
  (\<open>CPU_ALLOC\<close>) but takes its size in bytes (\<open>CPU_ZERO_S\<close>, \<open>CPU_SET_S\<close>); the code passes the
  number of processors as that size.
\<close>

definition CPU_ALLOC_SIZE :: "nat \<Rightarrow> nat" where
  "CPU_ALLOC_SIZE count = (count + 63) div 64 * 8"

text \<open>Writes of the C library into the set; \<^const>\<open>None\<close> is a write outside it.\<close>

definition CPU_ZERO_S :: "nat \<Rightarrow> u8 list \<Rightarrow> u8 list option" where
  "CPU_ZERO_S bytes m = (if bytes \<le> length m then Some (replicate bytes 0 @ drop bytes m) else None)"

definition CPU_SET_S :: "nat \<Rightarrow> nat \<Rightarrow> u8 list \<Rightarrow> u8 list option" where
  "CPU_SET_S cpu bytes m =
     (let i = cpu div 8 in
      if i < bytes then
        if i < length m then Some (m[i := m ! i OR push_bit (cpu mod 8) 1]) else None
      else Some m)"

text \<open>
  \<open>online\<close> is what \<open>sysconf\<close> returns, \<open>ok\<close> whether \<open>CPU_ALLOC\<close> succeeds, \<open>junk\<close> what the new
  memory holds and \<open>setaffinity\<close> what the kernel makes of the bytes it is given.
\<close>

definition GetNumCPUCores :: "int \<Rightarrow> int" where
  "GetNumCPUCores online = signed_take_bit 31 online"

definition AffinitizeThreadToCore ::
    "int \<Rightarrow> bool \<Rightarrow> (nat \<Rightarrow> u8) \<Rightarrow> (u8 list \<Rightarrow> int) \<Rightarrow> int \<Rightarrow> int outcome" where
  "AffinitizeThreadToCore online ok junk setaffinity core =
     (let n = signed_take_bit 31 online in
      if core < 0 \<or> n \<le> core then Ok (- 1)
      else if \<not> ok then Ok (- 1)
      else case CPU_ZERO_S (nat n) (map junk [0..<CPU_ALLOC_SIZE (nat n)]) of
             None \<Rightarrow> Fault
           | Some cmask \<Rightarrow>
               (case CPU_SET_S (nat core) (nat n) cmask of
                  None \<Rightarrow> Fault
                | Some cmask \<Rightarrow>
                    (case mem_read (Some cmask) (nat n) of
                       None \<Rightarrow> Fault
                     | Some bytes \<Rightarrow> Ok (setaffinity bytes))))"

text \<open>A set for that many processors has that many bytes only up to eight of them.\<close>

lemma cpu_alloc_size_iff: "n \<le> CPU_ALLOC_SIZE n \<longleftrightarrow> n \<le> 8"
proof
  assume a: "n \<le> CPU_ALLOC_SIZE n"
  moreover have "(n + 63) div 64 * 64 \<le> n + 63" by simp
  ultimately have "8 * n \<le> n + 63" unfolding CPU_ALLOC_SIZE_def by simp
  then have "n \<noteq> 9 \<Longrightarrow> n \<le> 8" by simp
  moreover have "n \<noteq> 9" using a by (auto simp: CPU_ALLOC_SIZE_def)
  ultimately show "n \<le> 8" by simp
next
  assume "n \<le> 8"
  then have "n = 0 \<or> (n + 63) div 64 = 1" by (auto intro: div_nat_eqI)
  with \<open>n \<le> 8\<close> show "n \<le> CPU_ALLOC_SIZE n" by (auto simp: CPU_ALLOC_SIZE_def)
qed

lemma affinity_outside: "core < 0 \<or> signed_take_bit 31 online \<le> core \<Longrightarrow>
    AffinitizeThreadToCore online ok junk setaffinity core = Ok (- 1)"
  by (auto simp: AffinitizeThreadToCore_def Let_def)

lemma affinity_overflow:
  assumes "0 \<le> core" "core < signed_take_bit 31 online" "8 < signed_take_bit 31 online"
  shows "AffinitizeThreadToCore online True junk setaffinity core = Fault"
proof -
  have "\<not> nat (signed_take_bit 31 online) \<le> CPU_ALLOC_SIZE (nat (signed_take_bit 31 online))"
    using assms(3) by (simp add: cpu_alloc_size_iff)
  with assms(1,2) show ?thesis by (simp add: AffinitizeThreadToCore_def CPU_ZERO_S_def Let_def)
qed

lemma affinity_inside:
  assumes "0 \<le> core" "core < signed_take_bit 31 online" "signed_take_bit 31 online \<le> 8"
  shows "AffinitizeThreadToCore online True junk setaffinity core =
    Ok (setaffinity (push_bit (nat core) 1 # replicate (nat (signed_take_bit 31 online) - 1) 0))"
proof -
  define n where "n = nat (signed_take_bit 31 online)"
  have n: "nat core < n" "n \<le> 8" "nat core < 8" "0 < n" using assms by (auto simp: n_def)
  define z where "z = replicate n (0 :: u8) @ drop n (map junk [0..<CPU_ALLOC_SIZE n])"
  have "n \<le> CPU_ALLOC_SIZE n" using n(2) by (simp add: cpu_alloc_size_iff)
  then have zero: "CPU_ZERO_S n (map junk [0..<CPU_ALLOC_SIZE n]) = Some z"
    by (simp add: CPU_ZERO_S_def z_def)
  obtain k where k: "n = Suc k" using n(4) by (cases n) auto
  have z: "z = 0 # replicate k 0 @ drop n (map junk [0..<CPU_ALLOC_SIZE n])" by (simp add: z_def k)
  have set: "CPU_SET_S (nat core) n z = Some (z[0 := push_bit (nat core) 1])"
    using n by (simp add: CPU_SET_S_def z)
  have "mem_read (Some (z[0 := push_bit (nat core) 1])) n = Some (push_bit (nat core) 1 # replicate k 0)"
    by (simp add: mem_read_def z k)
  with zero set assms(1,2) show ?thesis
    by (simp add: AffinitizeThreadToCore_def Let_def n_def [symmetric] k)
qed

end
