(* ===== verification/Epsub.thy ===== *)
theory Epsub
  imports Tool_Types Cpu
begin

text \<open>
  The subscribing load generator \<open>tools/epsub.c\<close>: a thread per core opens its share of the
  connections, subscribes on each and counts the messages until every connection has got
  \<open>flows_per_con\<close> of them.  libmosquitto is not part of the repository: the results of its
  functions, and the callbacks it calls meanwhile, are inputs of the model.  A
  \<open>struct mosquitto_var *\<close> is an index into the allocated variables of the thread; a freed one
  is \<^const>\<open>None\<close>, and reading it is \<^const>\<open>Fault\<close>.
\<close>

section \<open>Data\<close>

record sub_stat =
  ss_waits :: u64
  ss_events :: u64
  ss_connects :: u64
  ss_rcv_msgs :: u64
  ss_completes :: u64
  ss_errors :: u64
  ss_sum_rcv_time :: u64
  ss_min_rcv_time :: u64
  ss_max_rcv_time :: u64

definition sub_stat0 :: sub_stat where
  "sub_stat0 = \<lparr>ss_waits = 0, ss_events = 0, ss_connects = 0, ss_rcv_msgs = 0, ss_completes = 0,
     ss_errors = 0, ss_sum_rcv_time = 0, ss_min_rcv_time = 0, ss_max_rcv_time = 0\<rparr>"

record sub_context =
  sc_core :: nat
  sc_target :: nat
  sc_started :: nat
  sc_errors :: nat
  sc_done :: nat
  sc_stat :: sub_stat
  sc_sum_con_time :: u64
  sc_min_con_time :: u64
  sc_max_con_time :: u64
  sc_sum_rcv_con_time :: u64
  sc_min_rcv_con_time :: u64
  sc_max_rcv_con_time :: u64

text \<open>\<open>sv_name\<close> is the client identifier that libmosquitto has been given for the connection.\<close>

record sub_var =
  sv_fd :: int
  sv_state :: mosquitto_state
  sv_msg_count :: u32
  sv_topic :: "u8 list"
  sv_name :: "u8 list"
  sv_id :: int
  sv_is_recv_st :: bool

text \<open>
  A thread: its context, its variables, and for every variable registered with the epoll
  instance whether \<open>EPOLLIN\<close> and \<open>EPOLLOUT\<close> are asked for.  \<open>st_stop\<close> is \<open>done[core]\<close>.
\<close>

record sub_thread =
  st_ctx :: sub_context
  st_vars :: "nat \<Rightarrow> sub_var option"
  st_next :: nat
  st_interest :: "nat \<Rightarrow> (bool \<times> bool) option"
  st_stop :: bool

abbreviation upd_ctx :: "(sub_context \<Rightarrow> sub_context) \<Rightarrow> sub_thread \<Rightarrow> sub_thread" where
  "upd_ctx f t \<equiv> t\<lparr>st_ctx := f (st_ctx t)\<rparr>"

abbreviation upd_stat :: "(sub_stat \<Rightarrow> sub_stat) \<Rightarrow> sub_thread \<Rightarrow> sub_thread" where
  "upd_stat f t \<equiv> t\<lparr>st_ctx := (st_ctx t)\<lparr>sc_stat := f (sc_stat (st_ctx t))\<rparr>\<rparr>"

definition put_var :: "nat \<Rightarrow> sub_var \<Rightarrow> sub_thread \<Rightarrow> sub_thread" where
  "put_var a v t = t\<lparr>st_vars := (st_vars t)(a \<mapsto> v)\<rparr>"

definition watch_var :: "nat \<Rightarrow> bool \<times> bool \<Rightarrow> sub_thread \<Rightarrow> sub_thread" where
  "watch_var a m t = t\<lparr>st_interest := (st_interest t)(a \<mapsto> m)\<rparr>"

section \<open>Callbacks\<close>

datatype sub_callback = On_connect int | On_message mosquitto_message timeval

definition sub_connect_callback :: "nat \<Rightarrow> int \<Rightarrow> sub_thread \<Rightarrow> sub_thread outcome" where
  "sub_connect_callback a result t =
     obind (deref (st_vars t) (Some a)) (\<lambda>v.
       if result = 0 then
         Ok (watch_var a (True, True)
              (upd_stat (\<lambda>s. s\<lparr>ss_connects := ss_connects s + 1\<rparr>) (put_var a (v\<lparr>sv_state := conacked\<rparr>) t)))
       else Ok t)"

text \<open>A message with a time stamp, at the time \<open>cur\<close>.\<close>

definition count_message :: "u8 list \<Rightarrow> timeval \<Rightarrow> sub_var \<Rightarrow> sub_context \<Rightarrow> (sub_var \<times> sub_context) outcome" where
  "count_message payload cur v c =
     (if length payload < sizeof_timeval then Fault
      else let d = time_diff cur (tv_of_bytes payload);
               s = sc_stat c;
               s = s\<lparr>ss_rcv_msgs := ss_rcv_msgs s + 1, ss_min_rcv_time := lower (ss_min_rcv_time s) d,
                     ss_max_rcv_time := higher (ss_max_rcv_time s) d,
                     ss_sum_rcv_time := ss_sum_rcv_time s + d\<rparr>;
               v = v\<lparr>sv_msg_count := sv_msg_count v + 1\<rparr>;
               c = c\<lparr>sc_stat := s\<rparr>
           in if sv_is_recv_st v then
                (if length payload < 2 * sizeof_timeval then Fault
                 else let d = time_diff cur (tv_of_bytes (drop sizeof_timeval payload))
                      in Ok (v\<lparr>sv_is_recv_st := False\<rparr>,
                             c\<lparr>sc_min_rcv_con_time := lower (sc_min_rcv_con_time c) d,
                               sc_max_rcv_con_time := higher (sc_max_rcv_con_time c) d,
                               sc_sum_rcv_con_time := sc_sum_rcv_con_time c + d\<rparr>))
              else Ok (v, c))"

text \<open>The length is compared as an unsigned number, so that a negative one is large.\<close>

definition sub_message_callback ::
  "config \<Rightarrow> nat \<Rightarrow> mosquitto_message \<Rightarrow> timeval \<Rightarrow> sub_thread \<Rightarrow> sub_thread outcome" where
  "sub_message_callback cf a msg cur t =
     obind (deref (st_vars t) (Some a)) (\<lambda>v.
     obind (if mm_payloadlen msg < 0 \<or> int sizeof_timeval < mm_payloadlen msg then count_message (mm_payload msg) cur v (st_ctx t)
            else Ok (v, st_ctx t)) (\<lambda>(v, c).
       if ucast (sv_msg_count v) = flows_per_con cf then
         Ok (upd_stat (\<lambda>s. s\<lparr>ss_completes := ss_completes s + 1\<rparr>)
              (put_var a (v\<lparr>sv_state := will_disconnect\<rparr>) (t\<lparr>st_ctx := c\<rparr>)))
       else Ok (put_var a v (t\<lparr>st_ctx := c\<rparr>))))"

fun run_callbacks :: "config \<Rightarrow> nat \<Rightarrow> sub_callback list \<Rightarrow> sub_thread \<Rightarrow> sub_thread outcome" where
  "run_callbacks cf a [] t = Ok t"
| "run_callbacks cf a (On_connect r # cs) t = obind (sub_connect_callback a r t) (run_callbacks cf a cs)"
| "run_callbacks cf a (On_message m cur # cs) t =
     obind (sub_message_callback cf a m cur t) (run_callbacks cf a cs)"

section \<open>Connections\<close>

text \<open>\<open>calloc\<close> succeeds.\<close>

definition sub_CreateContext :: "nat \<Rightarrow> sub_context" where
  "sub_CreateContext core = \<lparr>sc_core = core, sc_target = 0, sc_started = 0, sc_errors = 0, sc_done = 0,
     sc_stat = sub_stat0, sc_sum_con_time = 0, sc_min_con_time = 0, sc_max_con_time = 0,
     sc_sum_rcv_con_time = 0, sc_min_rcv_con_time = 0, sc_max_rcv_con_time = 0\<rparr>"

text \<open>What a new connection meets: the result of \<open>mosquitto_connect\<close>, the times before and after, the socket.\<close>

record connect_input =
  ci_ret :: int
  ci_before :: timeval
  ci_after :: timeval
  ci_sock :: int

definition sub_CreateConnection :: "config \<Rightarrow> connect_input \<Rightarrow> sub_thread \<Rightarrow> (int \<times> sub_thread) outcome" where
  "sub_CreateConnection cf ci t =
     (let c = st_ctx t; a = st_next t; i = connection_id cf (sc_core c) (sc_started c)
      in obind (sprintf128 (topic_name_of cf i)) (\<lambda>top.
         obind (sprintf128 (client_name_of ''subscriber'' cf i)) (\<lambda>name.
           let v = \<lparr>sv_fd = 0, sv_state = closed, sv_msg_count = 0, sv_topic = top, sv_name = name,
                    sv_id = int i, sv_is_recv_st = False\<rparr>;
               t = (put_var a v t)\<lparr>st_next := a + 1\<rparr>
           in if ci_ret ci \<noteq> MOSQ_ERR_SUCCESS then Ok (-1, t)
              else
                let d = time_diff (ci_after ci) (ci_before ci);
                    c = c\<lparr>sc_min_con_time := lower (sc_min_con_time c) d,
                          sc_max_con_time := higher (sc_max_con_time c) d,
                          sc_sum_con_time := sc_sum_con_time c + d, sc_started := sc_started c + 1\<rparr>;
                    v = v\<lparr>sv_is_recv_st := True, sv_state := connected\<rparr>;
                    t = (put_var a v t)\<lparr>st_ctx := c\<rparr>
                in if ci_sock ci < 0 then Ok (-1, t)
                   else Ok (ci_sock ci,
                     watch_var a (True, False) (put_var a (v\<lparr>sv_fd := ci_sock ci\<rparr>) t)))))"

definition sub_CloseConnection :: "nat \<Rightarrow> sub_thread \<Rightarrow> sub_thread outcome" where
  "sub_CloseConnection a t =
     obind (deref (st_vars t) (Some a)) (\<lambda>v.
       Ok (upd_ctx (\<lambda>c. c\<lparr>sc_done := sc_done c + 1\<rparr>)
             (t\<lparr>st_interest := (st_interest t)(a := None), st_vars := (st_vars t)(a := None)\<rparr>)))"

section \<open>Statistics\<close>

record sub_total =
  to_waits :: u64
  to_events :: u64
  to_rcv_msgs :: u64
  to_errors :: u64
  to_min :: u64
  to_max :: u64
  to_avg :: u64

definition sub_total0 :: sub_total where
  "sub_total0 = \<lparr>to_waits = 0, to_events = 0, to_rcv_msgs = 0, to_errors = 0, to_min = 0, to_max = 0, to_avg = 0\<rparr>"

text \<open>One round of the loop of \<open>PrintStats\<close>; the thread's statistics are cleared.\<close>

definition add_stat :: "sub_stat \<Rightarrow> sub_total \<times> sub_stat \<Rightarrow> sub_total \<times> sub_stat" where
  "add_stat st = (\<lambda>(tot, acc).
     (tot\<lparr>to_waits := to_waits tot + ss_waits st, to_events := to_events tot + ss_events st,
          to_rcv_msgs := to_rcv_msgs tot + ss_rcv_msgs st, to_errors := to_errors tot + ss_errors st,
          to_min := lower (to_min tot) (ss_min_rcv_time st), to_max := higher (to_max tot) (ss_max_rcv_time st),
          to_avg := to_avg tot + (if ss_rcv_msgs st \<noteq> 0 then ss_sum_rcv_time st div ss_rcv_msgs st else 0)\<rparr>,
      acc\<lparr>ss_connects := ss_connects acc + ss_connects st, ss_rcv_msgs := ss_rcv_msgs acc + ss_rcv_msgs st,
          ss_completes := ss_completes acc + ss_completes st, ss_errors := ss_errors acc + ss_errors st\<rparr>))"

text \<open>
  \<open>PrintStats\<close> over the statistics of the \<open>core_limit\<close> threads: the totals printed, the
  statistics left behind and the accumulated ones.  It divides by \<open>core_limit\<close>.
\<close>

definition sub_PrintStats :: "sub_stat list \<Rightarrow> sub_stat \<Rightarrow> (sub_total \<times> sub_stat list \<times> sub_stat) outcome" where
  "sub_PrintStats sts acc =
     (case fold add_stat sts (sub_total0, acc) of
        (tot, acc) \<Rightarrow>
          if sts = [] then Fault
          else Ok (tot\<lparr>to_avg := to_avg tot div of_nat (length sts)\<rparr>, map (\<lambda>_. sub_stat0) sts, acc))"

section \<open>The thread\<close>

text \<open>
  An event: the variable, the bits, what \<open>mosquitto_loop_read\<close> does and returns, and the results of
  \<open>mosquitto_subscribe\<close>, with the message identifier it stores, and \<open>mosquitto_loop_write\<close>.
\<close>

record sub_event =
  se_var :: nat
  se_err :: bool
  se_in :: bool
  se_out :: bool
  se_other :: bool
  se_calls :: "sub_callback list"
  se_read :: int
  se_subscribe :: int
  se_mid :: int
  se_write :: int

definition sub_handle_in :: "config \<Rightarrow> sub_event \<Rightarrow> sub_thread \<Rightarrow> sub_thread outcome" where
  "sub_handle_in cf ev t =
     (let a = se_var ev
      in obind (deref (st_vars t) (Some a)) (\<lambda>_.
         obind (run_callbacks cf a (se_calls ev) t) (\<lambda>t.
         obind (if se_read ev \<noteq> MOSQ_ERR_SUCCESS
                then sub_CloseConnection a (upd_stat (\<lambda>s. s\<lparr>ss_errors := ss_errors s + 1\<rparr>) t) else Ok t) (\<lambda>t.
         obind (deref (st_vars t) (Some a)) (\<lambda>v.
           if sv_state v = will_disconnect then sub_CloseConnection a t else Ok t)))))"

definition sub_handle_out :: "sub_event \<Rightarrow> sub_thread \<Rightarrow> sub_thread outcome" where
  "sub_handle_out ev t =
     (let a = se_var ev
      in obind (deref (st_vars t) (Some a)) (\<lambda>v.
           if sv_state v = connecting then Ok t
           else let t = put_var a (v\<lparr>sv_id := se_mid ev\<rparr>) t;
                    ret = (if se_subscribe ev = MOSQ_ERR_SUCCESS then se_write ev else se_subscribe ev)
                in if ret \<noteq> MOSQ_ERR_SUCCESS
                   then sub_CloseConnection a (upd_stat (\<lambda>s. s\<lparr>ss_errors := ss_errors s + 1\<rparr>) t)
                   else Ok (watch_var a (True, False) t)))"

text \<open>The last branch is \<open>assert(0)\<close>.\<close>

definition sub_handle_event :: "config \<Rightarrow> sub_event \<Rightarrow> sub_thread \<Rightarrow> sub_thread outcome" where
  "sub_handle_event cf ev t =
     (if se_err ev then
        obind (deref (st_vars t) (Some (se_var ev))) (\<lambda>_.
        obind (sub_CloseConnection (se_var ev)
                 (upd_ctx (\<lambda>c. c\<lparr>sc_errors := sc_errors c + 1\<rparr>)
                    (upd_stat (\<lambda>s. s\<lparr>ss_errors := ss_errors s + 1\<rparr>) t))) (\<lambda>t.
        obind (deref (st_vars t) (Some (se_var ev))) (\<lambda>v. Ok t)))
      else if se_in ev then sub_handle_in cf ev t
      else if se_out ev \<and> \<not> se_other ev then sub_handle_out ev t
      else Fault)"

fun sub_handle_events :: "config \<Rightarrow> sub_event list \<Rightarrow> sub_thread \<Rightarrow> sub_thread outcome" where
  "sub_handle_events cf [] t = Ok t"
| "sub_handle_events cf (ev # evs) t = obind (sub_handle_event cf ev t) (sub_handle_events cf evs)"

text \<open>The loop that starts connections, over what they meet.\<close>

fun sub_create_loop :: "config \<Rightarrow> connect_input list \<Rightarrow> sub_thread \<Rightarrow> sub_thread outcome" where
  "sub_create_loop cf [] t = (if sc_started (st_ctx t) < sc_target (st_ctx t) then Blocked else Ok t)"
| "sub_create_loop cf (ci # cis) t =
     (if sc_started (st_ctx t) < sc_target (st_ctx t) then
        obind (sub_CreateConnection cf ci t) (\<lambda>(r, t).
          if r < 0 then Ok (t\<lparr>st_stop := True\<rparr>) else sub_create_loop cf cis t)
      else Ok t)"

text \<open>
  A pass of the loop of \<open>RunMain\<close>: whether \<open>PrintStats\<close> has cleared the statistics since the
  last one, the new connections, and the events, \<^const>\<open>None\<close> when \<open>epoll_wait\<close> fails.
\<close>

record sub_pass =
  sp_cleared :: bool
  sp_connects :: "connect_input list"
  sp_events :: "sub_event list option"

fun sub_loop :: "config \<Rightarrow> sub_pass list \<Rightarrow> sub_thread \<Rightarrow> sub_thread outcome" where
  "sub_loop cf [] t = Ok t"
| "sub_loop cf (p # ps) t =
     (if st_stop t then Ok t
      else
        let t = (if sp_cleared p then upd_stat (\<lambda>_. sub_stat0) t else t)
        in obind (sub_create_loop cf (sp_connects p) t) (\<lambda>t.
           case sp_events p of None \<Rightarrow> Ok (t\<lparr>st_stop := True\<rparr>)
           | Some evs \<Rightarrow>
               obind (sub_handle_events cf evs
                        (upd_stat (\<lambda>s. s\<lparr>ss_events := ss_events s + of_nat (length evs)\<rparr>) t)) (\<lambda>t.
                 if sc_target (st_ctx t) \<le> sc_done (st_ctx t) then Ok t else sub_loop cf ps t)))"

definition sub_RunMain :: "config \<Rightarrow> nat \<Rightarrow> sub_pass list \<Rightarrow> sub_thread outcome" where
  "sub_RunMain cf core ps =
     (let c = sub_CreateContext core; n = concurs cf core;
          t = \<lparr>st_ctx = c, st_vars = (\<lambda>_. None), st_next = 0, st_interest = (\<lambda>_. None), st_stop = False\<rparr>
      in if n = 0 then Ok t
         else sub_loop cf ps (t\<lparr>st_ctx := c\<lparr>sc_target := n, sc_started := 0, sc_done := 0, sc_errors := 0\<rparr>\<rparr>))"

text \<open>A thread first pins itself to its core; what comes back is not looked at.\<close>

definition sub_app_thread :: "int \<Rightarrow> bool \<Rightarrow> (nat \<Rightarrow> u8) \<Rightarrow> (u8 list \<Rightarrow> int) \<Rightarrow> config \<Rightarrow> nat \<Rightarrow>
    sub_pass list \<Rightarrow> sub_thread outcome" where
  "sub_app_thread online ok set_junk setaffinity cf core ps =
     obind (AffinitizeThreadToCore online ok set_junk setaffinity (int core)) (\<lambda>_. sub_RunMain cf core ps)"

section \<open>main\<close>

text \<open>The times printed at the end; the averages are over all connections.\<close>

definition con_times :: "(u64 \<times> u64 \<times> u64) list \<Rightarrow> u64 \<Rightarrow> (u64 \<times> u64 \<times> u64) outcome" where
  "con_times ts conns =
     (case fold (\<lambda>(s, mn, mx) (sm, lo, hi). (sm + s, lower lo mn, higher hi mx)) ts (0, 0, 0) of
        (sm, lo, hi) \<Rightarrow> if conns = 0 then Fault else Ok (sm div conns, lo, hi))"

record sub_options =
  so_limit :: int
  so_total :: u64
  so_topic :: "u8 list option"
  so_unique :: bool
  so_client :: "u8 list option"
  so_outfile :: "u8 list option"

text \<open>
  The loop over the options: each argument but the last is looked at, with the next one as its
  value.  \<^const>\<open>None\<close> is a return from \<open>main\<close>.
\<close>

fun sub_options_loop :: "int \<Rightarrow> u8 list list \<Rightarrow> sub_options \<Rightarrow> sub_options option" where
  "sub_options_loop cores (o1 # v # rest) opts =
     (if o1 = ascii ''-N'' then
        (if cores < atoi v then None else sub_options_loop cores (v # rest) (opts\<lparr>so_limit := atoi v\<rparr>))
      else if o1 = ascii ''-p'' then sub_options_loop cores (v # rest) (opts\<lparr>so_total := of_int (atoi v)\<rparr>)
      else if o1 = ascii ''-t'' then sub_options_loop cores (v # rest) (opts\<lparr>so_topic := Some v\<rparr>)
      else if o1 = ascii ''-u'' then sub_options_loop cores (v # rest) (opts\<lparr>so_unique := True\<rparr>)
      else if o1 = ascii ''-c'' then sub_options_loop cores (v # rest) (opts\<lparr>so_client := Some v\<rparr>)
      else if o1 = ascii ''-o'' then
        (if 128 < length v then None else sub_options_loop cores (v # rest) (opts\<lparr>so_outfile := Some v\<rparr>))
      else sub_options_loop cores (v # rest) opts)"
| "sub_options_loop cores _ opts = Some opts"

text \<open>
  \<open>main\<close> up to the start of the threads, \<open>args\<close> being \<open>argv\<close> without the program's name;
  the result is the parameters, or \<^const>\<open>None\<close> for a return.
\<close>

definition sub_setup :: "int \<Rightarrow> u8 list list \<Rightarrow> config option outcome" where
  "sub_setup cores args =
     (case args of
        host # flows # rest \<Rightarrow>
          (let f = (of_int (atoi flows) :: u64)
           in if f \<le> 0 then Ok None
              else case sub_options_loop cores rest \<lparr>so_limit = cores, so_total = 0, so_topic = None,
                       so_unique = False, so_client = None, so_outfile = None\<rparr> of
                None \<Rightarrow> Ok None
              | Some op \<Rightarrow>
                  (case so_topic op of None \<Rightarrow> Ok None
                   | Some tp \<Rightarrow>
                       obind (start_cores (so_total op) (so_limit op)) (\<lambda>(lim, conc, arr).
                         Ok (Some \<lparr>core_limit = lim, concurrency = conc, concurs = arr, flows_per_con = f,
                           topic = tp, is_unique = so_unique op, client_id = so_client op, size_opt = 0\<rparr>))))
      | _ \<Rightarrow> Ok None)"

end
