(* ===== verification/Eppub.thy ===== *)
theory Eppub
  imports Tool_Types Cpu
begin

text \<open>
  The publishing load generator \<open>tools/eppub.c\<close>: a thread per core opens its share of the
  connections and publishes on each until \<open>flows_per_con\<close> messages are out.  As for
  \<open>epsub.c\<close>, the results of libmosquitto and the callbacks it calls are inputs, and a
  \<open>struct mosquitto_var *\<close> is an index into the variables of the thread.  The payloads handed to
  \<open>mosquitto_publish\<close> are recorded.
\<close>

section \<open>Data\<close>

record pub_stat =
  ps_waits :: u64
  ps_events :: u64
  ps_connects :: u64
  ps_snd_msgs :: u64
  ps_completes :: u64
  ps_errors :: u64
  ps_timedout :: u64

definition pub_stat0 :: pub_stat where
  "pub_stat0 = \<lparr>ps_waits = 0, ps_events = 0, ps_connects = 0, ps_snd_msgs = 0, ps_completes = 0,
     ps_errors = 0, ps_timedout = 0\<rparr>"

record pub_context =
  pc_core :: nat
  pc_target :: nat
  pc_started :: nat
  pc_errors :: nat
  pc_done :: nat
  pc_payload :: "u8 list option"
  pc_stat :: pub_stat
  pc_sum_con_time :: u64
  pc_min_con_time :: u64
  pc_max_con_time :: u64

record pub_var =
  pv_fd :: int
  pv_state :: mosquitto_state
  pv_msg_count :: u32
  pv_topic :: "u8 list"
  pv_name :: "u8 list"
  pv_connect_time :: timeval
  pv_is_publish_st :: bool

record pub_thread =
  pt_ctx :: pub_context
  pt_vars :: "nat \<Rightarrow> pub_var option"
  pt_next :: nat
  pt_interest :: "nat \<Rightarrow> (bool \<times> bool) option"
  pt_stop :: bool
  pt_message :: "u8 list"
  pt_sent :: "(nat \<times> u8 list \<times> u8 list) list"

abbreviation upd_pctx :: "(pub_context \<Rightarrow> pub_context) \<Rightarrow> pub_thread \<Rightarrow> pub_thread" where
  "upd_pctx f t \<equiv> t\<lparr>pt_ctx := f (pt_ctx t)\<rparr>"

abbreviation upd_pstat :: "(pub_stat \<Rightarrow> pub_stat) \<Rightarrow> pub_thread \<Rightarrow> pub_thread" where
  "upd_pstat f t \<equiv> t\<lparr>pt_ctx := (pt_ctx t)\<lparr>pc_stat := f (pc_stat (pt_ctx t))\<rparr>\<rparr>"

definition put_pvar :: "nat \<Rightarrow> pub_var \<Rightarrow> pub_thread \<Rightarrow> pub_thread" where
  "put_pvar a v t = t\<lparr>pt_vars := (pt_vars t)(a \<mapsto> v)\<rparr>"

definition watch_pvar :: "nat \<Rightarrow> bool \<times> bool \<Rightarrow> pub_thread \<Rightarrow> pub_thread" where
  "watch_pvar a m t = t\<lparr>pt_interest := (pt_interest t)(a \<mapsto> m)\<rparr>"

section \<open>Callbacks\<close>

datatype pub_callback = P_connect int | P_publish

definition pub_connect_callback :: "nat \<Rightarrow> int \<Rightarrow> pub_thread \<Rightarrow> pub_thread outcome" where
  "pub_connect_callback a result t =
     obind (deref (pt_vars t) (Some a)) (\<lambda>v.
       if result = 0 then
         Ok (watch_pvar a (True, True)
              (upd_pstat (\<lambda>s. s\<lparr>ps_connects := ps_connects s + 1\<rparr>) (put_pvar a (v\<lparr>pv_state := conacked\<rparr>) t)))
       else Ok t)"

definition pub_publish_callback :: "config \<Rightarrow> nat \<Rightarrow> pub_thread \<Rightarrow> pub_thread outcome" where
  "pub_publish_callback cf a t =
     obind (deref (pt_vars t) (Some a)) (\<lambda>v.
       let v = v\<lparr>pv_msg_count := pv_msg_count v + 1\<rparr>;
           t = upd_pstat (\<lambda>s. s\<lparr>ps_snd_msgs := ps_snd_msgs s + 1\<rparr>) t
       in if ucast (pv_msg_count v) < flows_per_con cf then Ok (watch_pvar a (True, True) (put_pvar a v t))
          else Ok (upd_pstat (\<lambda>s. s\<lparr>ps_completes := ps_completes s + 1\<rparr>)
                     (put_pvar a (v\<lparr>pv_state := will_disconnect\<rparr>) t)))"

fun run_pub_callbacks :: "config \<Rightarrow> nat \<Rightarrow> pub_callback list \<Rightarrow> pub_thread \<Rightarrow> pub_thread outcome" where
  "run_pub_callbacks cf a [] t = Ok t"
| "run_pub_callbacks cf a (P_connect r # cs) t = obind (pub_connect_callback a r t) (run_pub_callbacks cf a cs)"
| "run_pub_callbacks cf a (P_publish # cs) t = obind (pub_publish_callback cf a t) (run_pub_callbacks cf a cs)"

section \<open>Connections\<close>

definition pub_CreateContext :: "nat \<Rightarrow> pub_context" where
  "pub_CreateContext core = \<lparr>pc_core = core, pc_target = 0, pc_started = 0, pc_errors = 0, pc_done = 0,
     pc_payload = None, pc_stat = pub_stat0, pc_sum_con_time = 0, pc_min_con_time = 0, pc_max_con_time = 0\<rparr>"

record pub_connect_input =
  pi_ret :: int
  pi_before :: timeval
  pi_after :: timeval
  pi_sock :: int

definition pub_CreateConnection :: "config \<Rightarrow> pub_connect_input \<Rightarrow> pub_thread \<Rightarrow> (int \<times> pub_thread) outcome" where
  "pub_CreateConnection cf ci t =
     (let c = pt_ctx t; a = pt_next t; i = connection_id cf (pc_core c) (pc_started c)
      in obind (sprintf128 (topic_name_of cf i)) (\<lambda>top.
         obind (sprintf128 (client_name_of ''publisher'' cf i)) (\<lambda>name.
           let v = \<lparr>pv_fd = 0, pv_state = closed, pv_msg_count = 0, pv_topic = top, pv_name = name,
                    pv_connect_time = \<lparr>tv_sec = 0, tv_usec = 0\<rparr>, pv_is_publish_st = False\<rparr>;
               t = (put_pvar a v t)\<lparr>pt_next := a + 1\<rparr>
           in if pi_ret ci \<noteq> MOSQ_ERR_SUCCESS then Ok (-1, t)
              else
                let d = time_diff (pi_after ci) (pi_before ci);
                    c = c\<lparr>pc_min_con_time := lower (pc_min_con_time c) d,
                          pc_max_con_time := higher (pc_max_con_time c) d,
                          pc_sum_con_time := pc_sum_con_time c + d, pc_started := pc_started c + 1\<rparr>;
                    v = v\<lparr>pv_connect_time := pi_before ci, pv_is_publish_st := True, pv_state := connected\<rparr>;
                    t = (put_pvar a v t)\<lparr>pt_ctx := c\<rparr>
                in if pi_sock ci < 0 then Ok (-1, t)
                   else Ok (pi_sock ci,
                     watch_pvar a (True, False) (put_pvar a (v\<lparr>pv_fd := pi_sock ci\<rparr>) t)))))"

definition pub_CloseConnection :: "nat \<Rightarrow> pub_thread \<Rightarrow> pub_thread outcome" where
  "pub_CloseConnection a t =
     obind (deref (pt_vars t) (Some a)) (\<lambda>v.
       Ok (upd_pctx (\<lambda>c. c\<lparr>pc_done := pc_done c + 1\<rparr>)
             (t\<lparr>pt_interest := (pt_interest t)(a := None), pt_vars := (pt_vars t)(a := None)\<rparr>)))"

section \<open>Statistics\<close>

record pub_total =
  pto_waits :: u64
  pto_events :: u64
  pto_snd_msgs :: u64
  pto_errors :: u64

definition add_pub_stat :: "pub_stat \<Rightarrow> pub_total \<times> pub_stat \<Rightarrow> pub_total \<times> pub_stat" where
  "add_pub_stat st = (\<lambda>(tot, acc).
     (tot\<lparr>pto_waits := pto_waits tot + ps_waits st, pto_events := pto_events tot + ps_events st,
          pto_snd_msgs := pto_snd_msgs tot + ps_snd_msgs st, pto_errors := pto_errors tot + ps_errors st\<rparr>,
      acc\<lparr>ps_connects := ps_connects acc + ps_connects st, ps_snd_msgs := ps_snd_msgs acc + ps_snd_msgs st,
          ps_completes := ps_completes acc + ps_completes st, ps_errors := ps_errors acc + ps_errors st\<rparr>))"

definition pub_PrintStats :: "pub_stat list \<Rightarrow> pub_stat \<Rightarrow> pub_total \<times> pub_stat list \<times> pub_stat" where
  "pub_PrintStats sts acc =
     (case fold add_pub_stat sts (\<lparr>pto_waits = 0, pto_events = 0, pto_snd_msgs = 0, pto_errors = 0\<rparr>, acc) of
        (tot, acc) \<Rightarrow> (tot, map (\<lambda>_. pub_stat0) sts, acc))"

section \<open>The thread\<close>

text \<open>
  An event: the variable and the bits; the callbacks and the result of \<open>mosquitto_loop_read\<close>;
  the time, and the callbacks and results of \<open>mosquitto_publish\<close> and \<open>mosquitto_loop_write\<close>.
\<close>

record pub_event =
  pe_var :: nat
  pe_err :: bool
  pe_in :: bool
  pe_out :: bool
  pe_other :: bool
  pe_calls :: "pub_callback list"
  pe_read :: int
  pe_now :: timeval
  pe_pub_calls :: "pub_callback list"
  pe_publish :: int
  pe_write_calls :: "pub_callback list"
  pe_write :: int

text \<open>\<open>memcpy\<close> into the payload: \<^const>\<open>Fault\<close> when it is missing or too short.\<close>

definition write_payload :: "nat \<Rightarrow> u8 list \<Rightarrow> u8 list option \<Rightarrow> u8 list outcome" where
  "write_payload i bs p =
     (case p of None \<Rightarrow> Fault
      | Some d \<Rightarrow> if length d < i + length bs then Fault else Ok (take i d @ bs @ drop (i + length bs) d))"

definition stamp_payload :: "timeval \<Rightarrow> pub_var \<Rightarrow> u8 list option \<Rightarrow> (u8 list \<times> pub_var) outcome" where
  "stamp_payload now v p =
     obind (write_payload 0 (bytes_of_tv now) p) (\<lambda>d.
       if pv_is_publish_st v then
         obind (write_payload sizeof_timeval (bytes_of_tv (pv_connect_time v)) (Some d)) (\<lambda>d.
           Ok (d, v\<lparr>pv_is_publish_st := False\<rparr>))
       else Ok (d, v))"

definition pub_handle_out :: "config \<Rightarrow> pub_event \<Rightarrow> pub_thread \<Rightarrow> pub_thread outcome" where
  "pub_handle_out cf ev t =
     (let a = pe_var ev
      in obind (deref (pt_vars t) (Some a)) (\<lambda>v.
         if pv_state v = connecting then Ok t
         else
           obind (stamp_payload (pe_now ev) v (pc_payload (pt_ctx t))) (\<lambda>(d, v).
           let t = (put_pvar a v (upd_pctx (\<lambda>c. c\<lparr>pc_payload := Some d\<rparr>) t))
                     \<lparr>pt_sent := pt_sent t @ [(a, pv_topic v, take (nat (size_opt cf)) d)]\<rparr>
           in obind (run_pub_callbacks cf a (pe_pub_calls ev) t) (\<lambda>t.
              obind (if pe_publish ev = MOSQ_ERR_SUCCESS then run_pub_callbacks cf a (pe_write_calls ev) t else Ok t) (\<lambda>t.
              let ret = (if pe_publish ev = MOSQ_ERR_SUCCESS then pe_write ev else pe_publish ev)
              in if ret \<noteq> MOSQ_ERR_SUCCESS
                 then pub_CloseConnection a (upd_pstat (\<lambda>s. s\<lparr>ps_errors := ps_errors s + 1\<rparr>) t)
                 else obind (deref (pt_vars t) (Some a)) (\<lambda>v.
                        if pv_state v = will_disconnect then pub_CloseConnection a t else Ok t))))))"

definition pub_handle_event :: "config \<Rightarrow> pub_event \<Rightarrow> pub_thread \<Rightarrow> pub_thread outcome" where
  "pub_handle_event cf ev t =
     (let a = pe_var ev
      in if pe_err ev then
           pub_CloseConnection a (upd_pctx (\<lambda>c. c\<lparr>pc_errors := pc_errors c + 1\<rparr>)
             (upd_pstat (\<lambda>s. s\<lparr>ps_errors := ps_errors s + 1\<rparr>) t))
         else if pe_in ev then
           obind (deref (pt_vars t) (Some a)) (\<lambda>_.
           obind (run_pub_callbacks cf a (pe_calls ev) t) (\<lambda>t.
             if pe_read ev \<noteq> MOSQ_ERR_SUCCESS
             then pub_CloseConnection a (upd_pstat (\<lambda>s. s\<lparr>ps_errors := ps_errors s + 1\<rparr>) t)
             else Ok t))
         else if pe_out ev \<and> \<not> pe_other ev then pub_handle_out cf ev t
         else Fault)"

fun pub_handle_events :: "config \<Rightarrow> pub_event list \<Rightarrow> pub_thread \<Rightarrow> pub_thread outcome" where
  "pub_handle_events cf [] t = Ok t"
| "pub_handle_events cf (ev # evs) t = obind (pub_handle_event cf ev t) (pub_handle_events cf evs)"

fun pub_create_loop :: "config \<Rightarrow> pub_connect_input list \<Rightarrow> pub_thread \<Rightarrow> pub_thread outcome" where
  "pub_create_loop cf [] t = (if pc_started (pt_ctx t) < pc_target (pt_ctx t) then Blocked else Ok t)"
| "pub_create_loop cf (ci # cis) t =
     (if pc_started (pt_ctx t) < pc_target (pt_ctx t) then
        obind (pub_CreateConnection cf ci t) (\<lambda>(r, t).
          if r < 0 then Ok (t\<lparr>pt_stop := True\<rparr>) else pub_create_loop cf cis t)
      else Ok t)"

record pub_pass =
  pp_cleared :: bool
  pp_connects :: "pub_connect_input list"
  pp_events :: "pub_event list option"

fun pub_loop :: "config \<Rightarrow> pub_pass list \<Rightarrow> pub_thread \<Rightarrow> pub_thread outcome" where
  "pub_loop cf [] t = Ok t"
| "pub_loop cf (p # ps) t =
     (if pt_stop t then Ok t
      else
        let t = (if pp_cleared p then upd_pstat (\<lambda>_. pub_stat0) t else t)
        in obind (pub_create_loop cf (pp_connects p) t) (\<lambda>t.
           let t = upd_pstat (\<lambda>s. s\<lparr>ps_waits := ps_waits s + 1\<rparr>) t
           in case pp_events p of None \<Rightarrow> Ok (t\<lparr>pt_stop := True\<rparr>)
           | Some evs \<Rightarrow>
               obind (pub_handle_events cf evs
                        (upd_pstat (\<lambda>s. s\<lparr>ps_events := ps_events s + of_nat (length evs)\<rparr>) t)) (\<lambda>t.
                 if pc_target (pt_ctx t) \<le> pc_done (pt_ctx t) then Ok t else pub_loop cf ps t)))"

text \<open>
  \<open>RunMain\<close>.  \<open>junk\<close> is what the memory of the payload holds after \<open>malloc\<close>: the call of \<open>memcpy\<close>
  copies it over the message, not the message into it.
\<close>

definition pub_RunMain :: "config \<Rightarrow> nat \<Rightarrow> u8 list \<Rightarrow> u8 list \<Rightarrow> pub_pass list \<Rightarrow> pub_thread outcome" where
  "pub_RunMain cf core msg junk ps =
     (let c = pub_CreateContext core; n = concurs cf core;
          t = \<lparr>pt_ctx = c, pt_vars = (\<lambda>_. None), pt_next = 0, pt_interest = (\<lambda>_. None), pt_stop = False,
               pt_message = msg, pt_sent = []\<rparr>
      in if n = 0 then Ok t
         else
           let c = c\<lparr>pc_target := n\<rparr>;
               t = (if 0 < size_opt cf
                    then t\<lparr>pt_ctx := c\<lparr>pc_payload := Some junk\<rparr>, pt_message := junk\<rparr>
                    else t\<lparr>pt_ctx := c\<rparr>)
           in pub_loop cf ps (upd_pctx (\<lambda>c. c\<lparr>pc_started := 0, pc_done := 0, pc_errors := 0\<rparr>) t))"

text \<open>A thread first pins itself to its core; what comes back is not looked at.\<close>

definition pub_app_thread :: "int \<Rightarrow> bool \<Rightarrow> (nat \<Rightarrow> u8) \<Rightarrow> (u8 list \<Rightarrow> int) \<Rightarrow> config \<Rightarrow> nat \<Rightarrow>
    u8 list \<Rightarrow> u8 list \<Rightarrow> pub_pass list \<Rightarrow> pub_thread outcome" where
  "pub_app_thread online ok set_junk setaffinity cf core msg junk ps =
     obind (AffinitizeThreadToCore online ok set_junk setaffinity (int core))
       (\<lambda>_. pub_RunMain cf core msg junk ps)"

section \<open>main\<close>

record pub_options =
  po_limit :: int
  po_total :: u64
  po_topic :: "u8 list option"
  po_size :: int
  po_unique :: bool
  po_client :: "u8 list option"
  po_outfile :: "u8 list option"

fun pub_options_loop :: "int \<Rightarrow> u8 list list \<Rightarrow> pub_options \<Rightarrow> pub_options option" where
  "pub_options_loop cores (o1 # v # rest) opts =
     (if o1 = ascii ''-N'' then
        (if cores < atoi v then None else pub_options_loop cores (v # rest) (opts\<lparr>po_limit := atoi v\<rparr>))
      else if o1 = ascii ''-p'' then pub_options_loop cores (v # rest) (opts\<lparr>po_total := of_int (atoi v)\<rparr>)
      else if o1 = ascii ''-t'' then pub_options_loop cores (v # rest) (opts\<lparr>po_topic := Some v\<rparr>)
      else if o1 = ascii ''-s'' then pub_options_loop cores (v # rest) (opts\<lparr>po_size := atoi v\<rparr>)
      else if o1 = ascii ''-u'' then pub_options_loop cores (v # rest) (opts\<lparr>po_unique := True\<rparr>)
      else if o1 = ascii ''-c'' then pub_options_loop cores (v # rest) (opts\<lparr>po_client := Some v\<rparr>)
      else if o1 = ascii ''-i'' then pub_options_loop cores (v # rest) opts
      else if o1 = ascii ''-o'' then
        (if 128 < length v then None else pub_options_loop cores (v # rest) (opts\<lparr>po_outfile := Some v\<rparr>))
      else pub_options_loop cores (v # rest) opts)"
| "pub_options_loop cores _ opts = Some opts"

text \<open>
  The message: room for a time stamp, then random characters, \<open>rs\<close> being the results of
  \<open>rand\<close>.  A negative size makes \<open>malloc\<close> fail, which is not tested.
\<close>

definition make_message :: "int \<Rightarrow> (nat \<Rightarrow> nat) \<Rightarrow> u8 list outcome" where
  "make_message sz rs =
     (if sz < 0 then Fault
      else Ok (map (\<lambda>i. if i < sizeof_timeval then 0 else of_nat (rs (i - sizeof_timeval) mod 73 + 48)) [0..<nat sz]))"

definition pub_setup :: "int \<Rightarrow> (nat \<Rightarrow> nat) \<Rightarrow> u8 list list \<Rightarrow> (config \<times> u8 list) option outcome" where
  "pub_setup cores rs args =
     (case args of
        host # flows # rest \<Rightarrow>
          (let f = (of_int (atoi flows) :: u64)
           in if f \<le> 0 then Ok None
              else case pub_options_loop cores rest \<lparr>po_limit = cores, po_total = 0, po_topic = None, po_size = 32,
                       po_unique = False, po_client = None, po_outfile = None\<rparr> of
                None \<Rightarrow> Ok None
              | Some op \<Rightarrow>
                  obind (make_message (po_size op) rs) (\<lambda>msg.
                    case po_topic op of None \<Rightarrow> Ok None
                    | Some tp \<Rightarrow>
                        obind (start_cores (po_total op) (po_limit op)) (\<lambda>(lim, conc, arr).
                          Ok (Some (\<lparr>core_limit = lim, concurrency = conc, concurs = arr, flows_per_con = f,
                            topic = tp, is_unique = po_unique op, client_id = po_client op,
                            size_opt = po_size op\<rparr>, msg)))))
      | _ \<Rightarrow> Ok None)"

definition pub_con_times :: "(u64 \<times> u64 \<times> u64) list \<Rightarrow> u64 \<Rightarrow> (u64 \<times> u64 \<times> u64) outcome" where
  "pub_con_times ts conns =
     (case fold (\<lambda>(s, mn, mx) (sm, lo, hi). (sm + s, lower lo mn, higher hi mx)) ts (0, 0, 0) of
        (sm, lo, hi) \<Rightarrow> if conns = 0 then Fault else Ok (sm div conns, lo, hi))"

end
