(* ===== verification/Tool_Facts.thy ===== *)
theory Tool_Facts
  imports Epsub Eppub
begin

text \<open>
  The load generators: the connections of all cores together are numbered without gaps or
  repetitions, the publisher sends and the subscriber counts \<open>flows_per_con\<close> messages per
  connection, the time stamps survive the transport, and what the printed figures mean.
\<close>

section \<open>Numbers of connections\<close>

lemma fill_concurs_at: "fill_concurs conc rem n i = (if i < n then (if i < rem then conc + 1 else conc) else 0)"
  by (induction n) auto

lemma start_cores_ok:
  assumes "start_cores conns limit = Ok (lim, conc, arr)" "0 < conns"
  obtains rem where "unat conns = lim * conc + rem" "rem < lim" "arr = fill_concurs conc rem lim" "lim \<le> 16"
proof -
  define l where "l = (if conns < of_int limit then conns else of_int limit)"
  have eq: "lim = unat l" "conc = unat (conns div l)" "arr = fill_concurs (unat (conns div l)) (unat (conns mod l)) (unat l)"
      "l \<noteq> 0" "unat l \<le> 16"
    using assms by (auto simp: start_cores_def plan_def Let_def l_def split: if_splits)
  have "0 < unat l" using eq(4) by (simp add: unat_gt_0)
  then show thesis
    using that [of "unat (conns mod l)"] eq by (simp add: unat_div unat_mod)
qed

definition numbered :: "config \<Rightarrow> (nat \<times> nat) set" where
  "numbered cf = {(c, s). c < core_limit cf \<and> s < concurs cf c}"

lemma connection_id_full:
  assumes "concurs cf = fill_concurs (concurrency cf) rem (core_limit cf)" "rem < core_limit cf"
    and "c < core_limit cf" "s < concurs cf c"
  shows "connection_id cf c s = (if s = concurrency cf then core_limit cf * concurrency cf + c
      else c * concurrency cf + s)"
    and "s = concurrency cf \<longrightarrow> c < rem" "s \<le> concurrency cf"
  using assms by (auto simp: connection_id_def fill_concurs_at split: if_splits)

lemma div_mod_pair: "s < q \<Longrightarrow> (c * q + s) div q = c \<and> (c * q + s) mod q = (s :: nat)"
  by (cases "q = 0") simp_all

lemma connection_low:
  assumes "c < core_limit cf" "s < concurrency cf"
  shows "c * concurrency cf + s < core_limit cf * concurrency cf"
proof -
  have "c * concurrency cf + s < (c + 1) * concurrency cf" using assms(2) by simp
  also have "\<dots> \<le> core_limit cf * concurrency cf" using assms(1) by (intro mult_le_mono1) simp
  finally show ?thesis .
qed

lemma connection_id_inj:
  assumes arr: "concurs cf = fill_concurs (concurrency cf) rem (core_limit cf)" and rem: "rem < core_limit cf"
  shows "inj_on (\<lambda>(c, s). connection_id cf c s) (numbered cf)"
proof (rule inj_onI, clarify)
  fix c s c' s'
  assume a: "(c, s) \<in> numbered cf" "(c', s') \<in> numbered cf" "connection_id cf c s = connection_id cf c' s'"
  then have i: "c < core_limit cf" "s < concurs cf c" "c' < core_limit cf" "s' < concurs cf c'"
    by (auto simp: numbered_def)
  note 1 = connection_id_full [OF arr rem i(1,2)] and 2 = connection_id_full [OF arr rem i(3,4)]
  show "c = c' \<and> s = s'"
  proof (cases "s = concurrency cf"; cases "s' = concurrency cf")
    assume "s \<noteq> concurrency cf" "s' \<noteq> concurrency cf"
    with 1 2 a(3) have "s < concurrency cf" "s' < concurrency cf"
      "c * concurrency cf + s = c' * concurrency cf + s'" by auto
    then show ?thesis by (metis div_mod_pair)
  next
    assume "s = concurrency cf" "s' \<noteq> concurrency cf"
    with 1 2 a(3) connection_low [of c' cf s'] i show ?thesis by auto
  next
    assume "s \<noteq> concurrency cf" "s' = concurrency cf"
    with 1 2 a(3) connection_low [of c cf s] i show ?thesis by auto
  qed (use 1 2 a(3) in auto)
qed

lemma connection_id_bound:
  assumes arr: "concurs cf = fill_concurs (concurrency cf) rem (core_limit cf)" and rem: "rem < core_limit cf"
    and "(c, s) \<in> numbered cf"
  shows "connection_id cf c s < core_limit cf * concurrency cf + rem"
proof -
  have i: "c < core_limit cf" "s < concurs cf c" using assms(3) by (auto simp: numbered_def)
  from connection_id_full [OF arr rem i] connection_low [of c cf s] i(1) show ?thesis
    by (cases "s = concurrency cf") auto
qed

lemma connection_id_onto:
  assumes arr: "concurs cf = fill_concurs (concurrency cf) rem (core_limit cf)" and rem: "rem < core_limit cf"
    and n: "n < core_limit cf * concurrency cf + rem"
  obtains c s where "(c, s) \<in> numbered cf" "connection_id cf c s = n"
proof (cases "n < core_limit cf * concurrency cf")
  case True
  then have q: "0 < concurrency cf" by (cases "concurrency cf = 0") auto
  have "n div concurrency cf < core_limit cf" using True q by (simp add: less_mult_imp_div_less)
  moreover have "n mod concurrency cf < concurrency cf" using q by simp
  moreover from calculation have "n mod concurrency cf < concurs cf (n div concurrency cf)"
    by (simp add: arr fill_concurs_at)
  ultimately show thesis
    using connection_id_full(1) [OF arr rem, of "n div concurrency cf" "n mod concurrency cf"]
    by (intro that [of "n div concurrency cf" "n mod concurrency cf"]) (auto simp: numbered_def)
next
  case False
  let ?c = "n - core_limit cf * concurrency cf"
  have c: "?c < rem" using n False by auto
  then have "concurrency cf < concurs cf ?c" using rem by (simp add: arr fill_concurs_at)
  with c rem connection_id_full(1) [OF arr rem, of ?c "concurrency cf"] False show thesis
    by (intro that [of ?c "concurrency cf"]) (auto simp: numbered_def)
qed

lemma connection_id_bij:
  assumes arr: "concurs cf = fill_concurs (concurrency cf) rem (core_limit cf)" and rem: "rem < core_limit cf"
  shows "bij_betw (\<lambda>(c, s). connection_id cf c s) (numbered cf) {0..<core_limit cf * concurrency cf + rem}"
proof -
  have "n \<in> (\<lambda>(c, s). connection_id cf c s) ` numbered cf" if n: "n < core_limit cf * concurrency cf + rem" for n
    using connection_id_onto [OF arr rem n] by (metis (mono_tags, lifting) case_prod_conv image_eqI)
  then show ?thesis unfolding bij_betw_def using connection_id_inj [OF arr rem] connection_id_bound [OF arr rem] by auto
qed

section \<open>Names\<close>

lemma client_names: "client_name_of fallback cf m = client_name_of fallback cf n \<longleftrightarrow> m = n"
  by (simp add: client_name_of_def inj_decimal)

section \<open>Time stamps\<close>

lemma le64_bytes: "le64 (bytes_of_u64 w @ rest) = w"
proof (rule bit_word_eqI)
  fix n assume n: "n < LENGTH(64)"
  have b: "bit (ucast (drop_bit k w :: u64) :: u8) i \<longleftrightarrow> i < 8 \<and> bit w (k + i)" for k i
    by (auto simp: bit_simps)
  have "[0..<8] = [0, 1, 2, 3, 4, 5, 6, 7 :: nat]" by (simp add: upt_rec)
  note l = this
  have "n < 8 \<or> 8 \<le> n \<and> n < 16 \<or> 16 \<le> n \<and> n < 24 \<or> 24 \<le> n \<and> n < 32 \<or> 32 \<le> n \<and> n < 40 \<or>
      40 \<le> n \<and> n < 48 \<or> 48 \<le> n \<and> n < 56 \<or> 56 \<le> n \<and> n < 64" using n by auto
  then show "bit (le64 (bytes_of_u64 w @ rest)) n \<longleftrightarrow> bit w n"
    unfolding le64_def bytes_of_u64_def l
    by (elim disjE; simp add: bit_or_iff bit_push_bit_iff bit_ucast_iff bit_drop_bit_eq less_diff_conv2)
qed

definition tv_range :: "timeval \<Rightarrow> bool" where
  "tv_range tv \<longleftrightarrow> - (2 ^ 63) \<le> tv_sec tv \<and> tv_sec tv < 2 ^ 63 \<and> - (2 ^ 63) \<le> tv_usec tv \<and> tv_usec tv < 2 ^ 63"

lemma length_bytes_of_tv [simp]: "length (bytes_of_tv tv) = 16"
  by (simp add: bytes_of_tv_def bytes_of_u64_def)

lemma tv_bytes:
  assumes "tv_range tv"
  shows "tv_of_bytes (bytes_of_tv tv @ rest) = tv"
proof -
  have s: "sint (of_int i :: u64) = i" if "- (2 ^ 63) \<le> i" "i < 2 ^ 63" for i
    using that by (simp add: sint_sbintrunc' signed_take_bit_int_eq_self_iff)
  have "drop 8 (bytes_of_tv tv @ rest) = bytes_of_u64 (of_int (tv_usec tv)) @ rest"
    by (simp add: bytes_of_tv_def bytes_of_u64_def)
  moreover have "bytes_of_tv tv @ rest = bytes_of_u64 (of_int (tv_sec tv)) @ bytes_of_u64 (of_int (tv_usec tv)) @ rest"
    by (simp add: bytes_of_tv_def)
  ultimately have "tv_of_bytes (bytes_of_tv tv @ rest) =
      \<lparr>tv_sec = sint (of_int (tv_sec tv) :: u64), tv_usec = sint (of_int (tv_usec tv) :: u64)\<rparr>"
    by (simp only: tv_of_bytes_def le64_bytes)
  then show ?thesis using assms s by (simp add: tv_range_def)
qed

section \<open>The subscriber\<close>

definition stamped :: "mosquitto_message \<Rightarrow> bool" where
  "stamped m \<longleftrightarrow> 32 \<le> length (mm_payload m) \<and> mm_payloadlen m = int (length (mm_payload m))"

lemma count_message_ok:
  assumes "32 \<le> length p"
  obtains c' where "count_message p cur v c =
      Ok (v\<lparr>sv_msg_count := sv_msg_count v + 1, sv_is_recv_st := False\<rparr>, c')"
    "ss_rcv_msgs (sc_stat c') = ss_rcv_msgs (sc_stat c) + 1"
    "ss_sum_rcv_time (sc_stat c') = ss_sum_rcv_time (sc_stat c) + time_diff cur (tv_of_bytes p)"
    "ss_completes (sc_stat c') = ss_completes (sc_stat c)" "sc_done c' = sc_done c"
  using assms by (cases "sv_is_recv_st v") (auto simp: count_message_def Let_def)

lemma message_callback_ok:
  assumes "st_vars t a = Some v" "stamped m"
  obtains t' v' where "sub_message_callback cf a m cur t = Ok t'" "st_vars t' = (st_vars t)(a \<mapsto> v')"
    "sv_msg_count v' = sv_msg_count v + 1"
    "sv_state v' = (if ucast (sv_msg_count v + 1) = flows_per_con cf then will_disconnect else sv_state v)"
    "ss_rcv_msgs (sc_stat (st_ctx t')) = ss_rcv_msgs (sc_stat (st_ctx t)) + 1"
    "ss_completes (sc_stat (st_ctx t')) = ss_completes (sc_stat (st_ctx t)) +
       (if ucast (sv_msg_count v + 1) = flows_per_con cf then 1 else 0)"
    "ss_sum_rcv_time (sc_stat (st_ctx t')) =
       ss_sum_rcv_time (sc_stat (st_ctx t)) + time_diff cur (tv_of_bytes (mm_payload m))"
    "sc_done (st_ctx t') = sc_done (st_ctx t)"
proof -
  obtain c where c: "count_message (mm_payload m) cur v (st_ctx t) =
      Ok (v\<lparr>sv_msg_count := sv_msg_count v + 1, sv_is_recv_st := False\<rparr>, c)"
    "ss_rcv_msgs (sc_stat c) = ss_rcv_msgs (sc_stat (st_ctx t)) + 1"
    "ss_sum_rcv_time (sc_stat c) = ss_sum_rcv_time (sc_stat (st_ctx t)) + time_diff cur (tv_of_bytes (mm_payload m))"
    "ss_completes (sc_stat c) = ss_completes (sc_stat (st_ctx t))" "sc_done c = sc_done (st_ctx t)"
    by (rule count_message_ok [of "mm_payload m" cur v "st_ctx t"]) (use assms(2) in \<open>auto simp: stamped_def\<close>)
  have l: "mm_payloadlen m > 16" using assms(2) by (simp add: stamped_def)
  show thesis
  proof (cases "ucast (sv_msg_count v + 1) = flows_per_con cf")
    case True
    with assms(1) c l show thesis
      by (intro that [of _ "v\<lparr>sv_msg_count := sv_msg_count v + 1, sv_is_recv_st := False, sv_state := will_disconnect\<rparr>"])
        (simp add: sub_message_callback_def put_var_def, simp_all add: put_var_def)
  next
    case False
    with assms(1) c l show thesis
      by (intro that [of _ "v\<lparr>sv_msg_count := sv_msg_count v + 1, sv_is_recv_st := False\<rparr>"])
        (simp add: sub_message_callback_def put_var_def, simp_all add: put_var_def)
  qed
qed

end
