(* ===== verification/Tool_Runs.thy ===== *)
theory Tool_Runs
  imports Tool_Facts
begin

text \<open>
  What events do to a connection of the load generators: the messages of one
  \<open>mosquitto_loop_read\<close> at the subscriber, and writable events at the publisher.
\<close>

section \<open>The subscriber\<close>

abbreviation messages :: "(mosquitto_message \<times> timeval) list \<Rightarrow> sub_callback list" where
  "messages ms \<equiv> map (\<lambda>(m, cur). On_message m cur) ms"

definition latency :: "mosquitto_message \<times> timeval \<Rightarrow> u64" where
  "latency = (\<lambda>(m, cur). time_diff cur (tv_of_bytes (mm_payload m)))"

lemma unat_ucast_u64: "unat (ucast (w :: u32) :: u64) = unat w"
proof -
  have "unat w < 18446744073709551616" using unat_u32_less [of w] by linarith
  then show ?thesis by (simp only: unsigned_ucast_eq take_bit_eq_mod) simp
qed

lemma unat_count: "unat c + n < 4294967296 \<Longrightarrow> unat (c + of_nat n :: u32) = unat c + n"
  by (simp add: unat_word_ariths unat_of_nat_u32)

lemma count_eq_flows: "unat (c :: u32) + 1 < 4294967296 \<Longrightarrow> ucast (c + 1) = (f :: u64) \<longleftrightarrow> unat c + 1 = unat f"
proof -
  assume "unat c + 1 < 4294967296"
  then have "unat (c + 1) = unat c + 1" using unat_count [of c 1] by simp
  then have "unat (ucast (c + 1) :: u64) = unat c + 1" by (simp add: unat_ucast_u64)
  then show ?thesis by (metis word_unat_eq_iff)
qed

lemma run_messages:
  assumes "st_vars t a = Some v" "\<forall>(m, cur) \<in> set ms. stamped m"
    and "unat (sv_msg_count v) + length ms < 4294967296"
  shows "\<exists>t' v'. run_callbacks cf a (messages ms) t = Ok t' \<and> st_vars t' = (st_vars t)(a \<mapsto> v') \<and>
    unat (sv_msg_count v') = unat (sv_msg_count v) + length ms \<and>
    (let reached = unat (sv_msg_count v) < unat (flows_per_con cf) \<and>
           unat (flows_per_con cf) \<le> unat (sv_msg_count v) + length ms
     in sv_state v' = (if reached then will_disconnect else sv_state v) \<and>
        ss_completes (sc_stat (st_ctx t')) = ss_completes (sc_stat (st_ctx t)) + (if reached then 1 else 0)) \<and>
    ss_rcv_msgs (sc_stat (st_ctx t')) = ss_rcv_msgs (sc_stat (st_ctx t)) + of_nat (length ms) \<and>
    ss_sum_rcv_time (sc_stat (st_ctx t')) = ss_sum_rcv_time (sc_stat (st_ctx t)) + sum_list (map latency ms) \<and>
    sc_done (st_ctx t') = sc_done (st_ctx t)"
  using assms
proof (induction ms arbitrary: t v)
  case Nil
  then show ?case by (intro exI [of _ t] exI [of _ v]) (auto simp: fun_upd_idem)
next
  case (Cons mc ms)
  obtain m cur where mc: "mc = (m, cur)" by (cases mc)
  with Cons.prems have m: "stamped m" by auto
  have c1: "unat (sv_msg_count v) + 1 < 4294967296" using Cons.prems(3) by simp
  obtain t1 v1 where 1: "sub_message_callback cf a m cur t = Ok t1" "st_vars t1 = (st_vars t)(a \<mapsto> v1)"
    "sv_msg_count v1 = sv_msg_count v + 1"
    "sv_state v1 = (if unat (sv_msg_count v) + 1 = unat (flows_per_con cf) then will_disconnect else sv_state v)"
    "ss_rcv_msgs (sc_stat (st_ctx t1)) = ss_rcv_msgs (sc_stat (st_ctx t)) + 1"
    "ss_completes (sc_stat (st_ctx t1)) = ss_completes (sc_stat (st_ctx t)) +
       (if unat (sv_msg_count v) + 1 = unat (flows_per_con cf) then 1 else 0)"
    "ss_sum_rcv_time (sc_stat (st_ctx t1)) = ss_sum_rcv_time (sc_stat (st_ctx t)) + latency mc"
    "sc_done (st_ctx t1) = sc_done (st_ctx t)"
    using message_callback_ok [OF Cons.prems(1) m, of cf cur thesis] count_eq_flows [OF c1]
    by (simp add: latency_def mc)
  have u: "unat (sv_msg_count v1) = unat (sv_msg_count v) + 1" using unat_count [of "sv_msg_count v" 1] c1 1(3) by simp
  have "st_vars t1 a = Some v1" "\<forall>(m, cur) \<in> set ms. stamped m"
    "unat (sv_msg_count v1) + length ms < 4294967296" using 1(2) Cons.prems u by auto
  from Cons.IH [OF this] obtain t' v' where 2:
    "run_callbacks cf a (messages ms) t1 = Ok t'" "st_vars t' = (st_vars t1)(a \<mapsto> v')"
    "unat (sv_msg_count v') = unat (sv_msg_count v1) + length ms"
    "sv_state v' = (if unat (sv_msg_count v1) < unat (flows_per_con cf) \<and>
           unat (flows_per_con cf) \<le> unat (sv_msg_count v1) + length ms then will_disconnect else sv_state v1)"
    "ss_completes (sc_stat (st_ctx t')) = ss_completes (sc_stat (st_ctx t1)) +
       (if unat (sv_msg_count v1) < unat (flows_per_con cf) \<and>
           unat (flows_per_con cf) \<le> unat (sv_msg_count v1) + length ms then 1 else 0)"
    "ss_rcv_msgs (sc_stat (st_ctx t')) = ss_rcv_msgs (sc_stat (st_ctx t1)) + of_nat (length ms)"
    "ss_sum_rcv_time (sc_stat (st_ctx t')) = ss_sum_rcv_time (sc_stat (st_ctx t1)) + sum_list (map latency ms)"
    "sc_done (st_ctx t') = sc_done (st_ctx t1)" unfolding Let_def by blast
  let ?k = "unat (sv_msg_count v)" and ?f = "unat (flows_per_con cf)"
  have st: "sv_state v' = (if ?k < ?f \<and> ?f \<le> ?k + length (mc # ms) then will_disconnect else sv_state v)"
    using 1(4) 2(4) u by (cases "?k + 1 = ?f") auto
  have co: "ss_completes (sc_stat (st_ctx t')) = ss_completes (sc_stat (st_ctx t)) +
      (if ?k < ?f \<and> ?f \<le> ?k + length (mc # ms) then 1 else 0)"
    using 1(6) 2(5) u by (cases "?k + 1 = ?f") auto
  have "run_callbacks cf a (messages (mc # ms)) t = Ok t'" using 1(1) 2(1) by (simp add: mc)
  moreover have "st_vars t' = (st_vars t)(a \<mapsto> v')" using 1(2) 2(2) by simp
  ultimately show ?case
    using st co 1(5,7,8) 2(3,6-8) u unfolding Let_def
    by (intro exI [of _ t'] exI [of _ v'] conjI) (simp_all add: algebra_simps)
qed

lemma sub_close: "st_vars t a = Some v \<Longrightarrow> sub_CloseConnection a t =
    Ok (upd_ctx (\<lambda>c. c\<lparr>sc_done := sc_done c + 1\<rparr>)
      (t\<lparr>st_interest := (st_interest t)(a := None), st_vars := (st_vars t)(a := None)\<rparr>))"
  by (simp add: sub_CloseConnection_def)

lemma sub_close_gone: "sub_CloseConnection a t = Ok t' \<Longrightarrow> st_vars t' a = None"
  by (auto simp: sub_CloseConnection_def obind_eq_Ok)

section \<open>The publisher\<close>

lemma pub_close: "pt_vars t a = Some v \<Longrightarrow> pub_CloseConnection a t =
    Ok (upd_pctx (\<lambda>c. c\<lparr>pc_done := pc_done c + 1\<rparr>)
      (t\<lparr>pt_interest := (pt_interest t)(a := None), pt_vars := (pt_vars t)(a := None)\<rparr>))"
  by (simp add: pub_CloseConnection_def)

lemma pub_events_append:
  "pub_handle_events cf (es @ es') t = obind (pub_handle_events cf es t) (pub_handle_events cf es')"
proof (induction es arbitrary: t)
  case (Cons e es)
  then show ?case by (cases "pub_handle_event cf e t") simp_all
qed simp

text \<open>A writable connection on which one message goes out, its callback coming from either call.\<close>

definition sends_one :: "nat \<Rightarrow> pub_event \<Rightarrow> bool" where
  "sends_one a ev \<longleftrightarrow> pe_var ev = a \<and> \<not> pe_err ev \<and> \<not> pe_in ev \<and> pe_out ev \<and> \<not> pe_other ev \<and>
     pe_publish ev = 0 \<and> pe_write ev = 0 \<and> pe_pub_calls ev @ pe_write_calls ev = [P_publish]"

lemma stamp_ok:
  assumes "32 \<le> length d"
  obtains d' where "stamp_payload now v (Some d) = Ok (d', v\<lparr>pv_is_publish_st := False\<rparr>)"
    "length d' = length d" "take 16 d' = bytes_of_tv now"
  using assms
  by (cases "pv_is_publish_st v") (auto simp: stamp_payload_def write_payload_def)

lemma stamp_fault:
  assumes "p = (if 0 < sz then Some d else None)" "length d = nat sz"
  shows "stamp_payload now v p = Fault \<longleftrightarrow> sz < (if pv_is_publish_st v then 32 else 16)"
  using assms by (auto simp: stamp_payload_def write_payload_def)

lemma publish_callback:
  assumes "pt_vars t a = Some v" "unat (pv_msg_count v) + 1 < 4294967296"
  obtains t' v' where "pub_publish_callback cf a t = Ok t'" "pt_vars t' = (pt_vars t)(a \<mapsto> v')"
    "unat (pv_msg_count v') = unat (pv_msg_count v) + 1" "pv_topic v' = pv_topic v"
    "pv_state v' = (if unat (pv_msg_count v) + 1 < unat (flows_per_con cf) then pv_state v else will_disconnect)"
    "ps_snd_msgs (pc_stat (pt_ctx t')) = ps_snd_msgs (pc_stat (pt_ctx t)) + 1"
    "ps_completes (pc_stat (pt_ctx t')) = ps_completes (pc_stat (pt_ctx t)) +
       (if unat (pv_msg_count v) + 1 < unat (flows_per_con cf) then 0 else 1)"
    "pc_done (pt_ctx t') = pc_done (pt_ctx t)" "pc_payload (pt_ctx t') = pc_payload (pt_ctx t)"
    "pt_sent t' = pt_sent t"
proof -
  have u: "unat (pv_msg_count v + 1) = unat (pv_msg_count v) + 1" using unat_count [of "pv_msg_count v" 1] assms(2) by simp
  then have "unat (ucast (pv_msg_count v + 1) :: u64) = unat (pv_msg_count v) + 1" by (simp add: unat_ucast_u64)
  then have l: "ucast (pv_msg_count v + 1) < flows_per_con cf \<longleftrightarrow> unat (pv_msg_count v) + 1 < unat (flows_per_con cf)"
    by (simp add: word_less_nat_alt)
  show thesis
  proof (cases "unat (pv_msg_count v) + 1 < unat (flows_per_con cf)")
    case True
    with assms(1) u l show thesis
      by (intro that [of _ "v\<lparr>pv_msg_count := pv_msg_count v + 1\<rparr>"])
        (simp add: pub_publish_callback_def Let_def, simp_all add: put_pvar_def watch_pvar_def)
  next
    case False
    with assms(1) u l show thesis
      by (intro that [of _ "v\<lparr>pv_msg_count := pv_msg_count v + 1, pv_state := will_disconnect\<rparr>"])
        (simp add: pub_publish_callback_def Let_def, simp_all add: put_pvar_def)
  qed
qed


text \<open>One such event.\<close>

lemma publish_step:
  fixes cf :: config
  assumes "sends_one a ev" "pt_vars t a = Some v" "pv_state v \<noteq> connecting" "pv_state v \<noteq> will_disconnect"
    and "pc_payload (pt_ctx t) = Some d" "32 \<le> length d"
    and "unat (pv_msg_count v) + 1 < 4294967296"
  defines "again \<equiv> unat (pv_msg_count v) + 1 < unat (flows_per_con cf)"
  shows "\<exists>t' d'. pub_handle_event cf ev t = Ok t' \<and> pc_payload (pt_ctx t') = Some d' \<and> length d' = length d \<and>
    take 16 d' = bytes_of_tv (pe_now ev) \<and> pt_sent t' = pt_sent t @ [(a, pv_topic v, take (nat (size_opt cf)) d')] \<and>
    ps_snd_msgs (pc_stat (pt_ctx t')) = ps_snd_msgs (pc_stat (pt_ctx t)) + 1 \<and>
    ps_completes (pc_stat (pt_ctx t')) = ps_completes (pc_stat (pt_ctx t)) + (if again then 0 else 1) \<and>
    pc_done (pt_ctx t') = pc_done (pt_ctx t) + (if again then 0 else 1) \<and>
    (if again then \<exists>v'. pt_vars t' a = Some v' \<and> unat (pv_msg_count v') = unat (pv_msg_count v) + 1 \<and>
       pv_topic v' = pv_topic v \<and> pv_state v' = pv_state v
     else pt_vars t' a = None)"
proof -
  obtain d' where d': "stamp_payload (pe_now ev) v (Some d) = Ok (d', v\<lparr>pv_is_publish_st := False\<rparr>)"
    "length d' = length d" "take 16 d' = bytes_of_tv (pe_now ev)" by (rule stamp_ok [OF assms(6)])
  define w where "w = v\<lparr>pv_is_publish_st := False\<rparr>"
  define t1 where "t1 = (put_pvar a w (upd_pctx (\<lambda>c. c\<lparr>pc_payload := Some d'\<rparr>) t))
                     \<lparr>pt_sent := pt_sent t @ [(a, pv_topic w, take (nat (size_opt cf)) d')]\<rparr>"
  have t1: "pt_vars t1 a = Some w" "pc_payload (pt_ctx t1) = Some d'" "pc_stat (pt_ctx t1) = pc_stat (pt_ctx t)"
    "pc_done (pt_ctx t1) = pc_done (pt_ctx t)" "pt_sent t1 = pt_sent t @ [(a, pv_topic v, take (nat (size_opt cf)) d')]"
    by (simp_all add: t1_def put_pvar_def w_def)
  have w: "pv_msg_count w = pv_msg_count v" "pv_state w = pv_state v" "pv_topic w = pv_topic v" by (simp_all add: w_def)
  obtain t2 v2 where 2: "pub_publish_callback cf a t1 = Ok t2" "pt_vars t2 = (pt_vars t1)(a \<mapsto> v2)"
    "unat (pv_msg_count v2) = unat (pv_msg_count v) + 1" "pv_topic v2 = pv_topic v"
    "pv_state v2 = (if again then pv_state v else will_disconnect)"
    "ps_snd_msgs (pc_stat (pt_ctx t2)) = ps_snd_msgs (pc_stat (pt_ctx t1)) + 1"
    "ps_completes (pc_stat (pt_ctx t2)) = ps_completes (pc_stat (pt_ctx t1)) + (if again then 0 else 1)"
    "pc_done (pt_ctx t2) = pc_done (pt_ctx t1)" "pc_payload (pt_ctx t2) = pc_payload (pt_ctx t1)" "pt_sent t2 = pt_sent t1"
    using publish_callback [OF t1(1), of cf thesis] assms(7) w unfolding again_def by simp
  have ev: "pe_var ev = a" "\<not> pe_err ev" "\<not> pe_in ev" "pe_out ev" "\<not> pe_other ev" "pe_publish ev = 0" "pe_write ev = 0"
    and calls: "pe_pub_calls ev @ pe_write_calls ev = [P_publish]" using assms(1) by (auto simp: sends_one_def)
  have run: "obind (run_pub_callbacks cf a (pe_pub_calls ev) t1) (run_pub_callbacks cf a (pe_write_calls ev)) = Ok t2"
    using calls 2(1) by (cases "pe_pub_calls ev") auto
  have step: "pub_handle_event cf ev t = obind (obind (run_pub_callbacks cf a (pe_pub_calls ev) t1)
      (run_pub_callbacks cf a (pe_write_calls ev)))
      (\<lambda>t. obind (deref (pt_vars t) (Some a)) (\<lambda>v. if pv_state v = will_disconnect then pub_CloseConnection a t else Ok t))"
    using ev assms(2,3,5) d'(1)
    by (simp add: pub_handle_event_def pub_handle_out_def Let_def obind_assoc t1_def w_def)
  have v2: "pt_vars t2 a = Some v2" using 2(2) by simp
  show ?thesis
  proof (cases again)
    case True
    then have "pub_handle_event cf ev t = Ok t2" using v2 2(5) assms(4) by (simp add: step run)
    with True d'(2,3) 2 t1 v2 show ?thesis by (intro exI [of _ t2] exI [of _ d']) simp
  next
    case False
    then have "pub_handle_event cf ev t = pub_CloseConnection a t2" using v2 2(5) by (simp add: step run)
    moreover obtain t3 where t3: "pub_CloseConnection a t2 = Ok t3" "pt_vars t3 a = None" "pt_sent t3 = pt_sent t2"
      "pc_stat (pt_ctx t3) = pc_stat (pt_ctx t2)" "pc_done (pt_ctx t3) = pc_done (pt_ctx t2) + 1"
      "pc_payload (pt_ctx t3) = pc_payload (pt_ctx t2)"
      using pub_close [OF v2] by simp
    ultimately show ?thesis using False d'(2,3) 2 t1 by (intro exI [of _ t3] exI [of _ d'] conjI) simp_all
  qed
qed

text \<open>Several of them.\<close>

definition sent_by :: "pub_event list \<Rightarrow> nat \<Rightarrow> u8 list \<Rightarrow> (nat \<times> u8 list \<times> u8 list) list \<Rightarrow> bool" where
  "sent_by evs a tp ms \<longleftrightarrow> list_all2 (\<lambda>ev (a', tp', d). a' = a \<and> tp' = tp \<and> take 16 d = bytes_of_tv (pe_now ev)) evs ms"

lemma publish_steps:
  fixes cf :: config
  assumes "\<forall>ev \<in> set evs. sends_one a ev" "pt_vars t a = Some v" "pv_state v \<noteq> connecting" "pv_state v \<noteq> will_disconnect"
    and "pc_payload (pt_ctx t) = Some d" "32 \<le> length d" "size_opt cf = int (length d)"
    and "unat (flows_per_con cf) < 4294967296" "unat (pv_msg_count v) + length evs \<le> unat (flows_per_con cf)" "evs \<noteq> []"
  defines "full \<equiv> unat (pv_msg_count v) + length evs = unat (flows_per_con cf)"
  shows "\<exists>t' ms. pub_handle_events cf evs t = Ok t' \<and> pt_sent t' = pt_sent t @ ms \<and> sent_by evs a (pv_topic v) ms \<and>
    ps_snd_msgs (pc_stat (pt_ctx t')) = ps_snd_msgs (pc_stat (pt_ctx t)) + of_nat (length evs) \<and>
    ps_completes (pc_stat (pt_ctx t')) = ps_completes (pc_stat (pt_ctx t)) + (if full then 1 else 0) \<and>
    pc_done (pt_ctx t') = pc_done (pt_ctx t) + (if full then 1 else 0) \<and>
    (pt_vars t' a = None \<longleftrightarrow> full)"
  using assms(1-10) unfolding full_def
proof (induction evs arbitrary: t v d)
  case (Cons ev evs)
  let ?k = "unat (pv_msg_count v)" and ?f = "unat (flows_per_con cf)"
  have k: "?k + 1 < 4294967296" "sends_one a ev" using Cons.prems by auto
  obtain t1 d1 where 1: "pub_handle_event cf ev t = Ok t1" "pc_payload (pt_ctx t1) = Some d1" "length d1 = length d"
    "take 16 d1 = bytes_of_tv (pe_now ev)" "pt_sent t1 = pt_sent t @ [(a, pv_topic v, take (nat (size_opt cf)) d1)]"
    "ps_snd_msgs (pc_stat (pt_ctx t1)) = ps_snd_msgs (pc_stat (pt_ctx t)) + 1"
    "ps_completes (pc_stat (pt_ctx t1)) = ps_completes (pc_stat (pt_ctx t)) + (if ?k + 1 < ?f then 0 else 1)"
    "pc_done (pt_ctx t1) = pc_done (pt_ctx t) + (if ?k + 1 < ?f then 0 else 1)"
    "if ?k + 1 < ?f then \<exists>v'. pt_vars t1 a = Some v' \<and> unat (pv_msg_count v') = ?k + 1 \<and>
       pv_topic v' = pv_topic v \<and> pv_state v' = pv_state v else pt_vars t1 a = None"
    using publish_step [OF k(2) Cons.prems(2-6) k(1), of cf] by blast
  have sz: "take (nat (size_opt cf)) d1 = d1" using 1(3) Cons.prems(7) by simp
  show ?case
  proof (cases "evs = []")
    case True
    then show ?thesis using 1 Cons.prems(9) sz
      by (intro exI [of _ t1] exI [of _ "[(a, pv_topic v, d1)]"]) (auto simp: sent_by_def split: if_splits)
  next
    case False
    then have m: "?k + 1 < ?f" using Cons.prems(9) by (cases evs) auto
    with 1(9) obtain v1 where v1: "pt_vars t1 a = Some v1" "unat (pv_msg_count v1) = ?k + 1"
      "pv_topic v1 = pv_topic v" "pv_state v1 = pv_state v" by auto
    obtain t' ms where 2: "pub_handle_events cf evs t1 = Ok t'" "pt_sent t' = pt_sent t1 @ ms"
      "sent_by evs a (pv_topic v1) ms"
      "ps_snd_msgs (pc_stat (pt_ctx t')) = ps_snd_msgs (pc_stat (pt_ctx t1)) + of_nat (length evs)"
      "ps_completes (pc_stat (pt_ctx t')) = ps_completes (pc_stat (pt_ctx t1)) +
        (if unat (pv_msg_count v1) + length evs = ?f then 1 else 0)"
      "pc_done (pt_ctx t') = pc_done (pt_ctx t1) + (if unat (pv_msg_count v1) + length evs = ?f then 1 else 0)"
      "pt_vars t' a = None \<longleftrightarrow> unat (pv_msg_count v1) + length evs = ?f"
      using Cons.IH [OF _ v1(1) _ _ 1(2)] Cons.prems v1 1(3) False by auto
    then show ?thesis using 1 v1 m sz
      by (intro exI [of _ t'] exI [of _ "(a, pv_topic v, d1) # ms"]) (auto simp: sent_by_def)
  qed
qed simp

end
