(* ===== verification/Tool_Ledger.thy ===== *)
theory Tool_Ledger
  imports Tool_Runs
begin

text \<open>
  The allocation of the subscriber's connections: every structure a thread allocates is live or
  has been closed exactly once; one is allocated per started connection, and one more when a
  connection fails, which ends the loop.
\<close>

definition ledger :: "sub_thread \<Rightarrow> _" where
  "ledger t = (dom (st_vars t), sc_done (st_ctx t), st_next t, sc_started (st_ctx t), sc_target (st_ctx t), st_stop t)"

definition balanced :: "nat \<Rightarrow> sub_thread \<Rightarrow> bool" where
  "balanced n t \<longleftrightarrow> dom (st_vars t) \<subseteq> {..<st_next t} \<and> card (dom (st_vars t)) + sc_done (st_ctx t) = st_next t \<and>
     sc_started (st_ctx t) \<le> n \<and> sc_target (st_ctx t) = n \<and>
     (st_next t = sc_started (st_ctx t) \<or> st_stop t \<and> st_next t = sc_started (st_ctx t) + 1)"

lemma balanced_ledger: "ledger t' = ledger t \<Longrightarrow> balanced n t' = balanced n t"
  by (simp add: ledger_def balanced_def)

lemma deref_Ok: "deref h p = Ok x \<longleftrightarrow> (\<exists>a. p = Some a \<and> h a = Some x)"
  by (auto simp: deref_def split: option.splits)

lemma ledger_put: "st_vars t a = Some v0 \<Longrightarrow> ledger (put_var a v t) = ledger t"
  by (auto simp: ledger_def put_var_def)

lemma ledger_update [simp]:
  "ledger (watch_var a m t) = ledger t" "ledger (t\<lparr>st_interest := i\<rparr>) = ledger t"
  "ledger (upd_stat f t) = ledger t"
  by (simp_all add: ledger_def watch_var_def)

lemma count_message_ledger:
  "count_message p cur v c = Ok (v', c') \<Longrightarrow> sc_done c' = sc_done c \<and> sc_started c' = sc_started c \<and> sc_target c' = sc_target c"
  by (auto simp: count_message_def Let_def split: if_splits)

lemma message_ledger: "sub_message_callback cf a m cur t = Ok t' \<Longrightarrow> ledger t' = ledger t"
proof -
  assume "sub_message_callback cf a m cur t = Ok t'"
  then obtain v vc where v: "st_vars t a = Some v"
      "(if mm_payloadlen m < 0 \<or> int sizeof_timeval < mm_payloadlen m then count_message (mm_payload m) cur v (st_ctx t) else Ok (v, st_ctx t)) = Ok vc"
      "(case vc of (v, c) \<Rightarrow> if ucast (sv_msg_count v) = flows_per_con cf then
         Ok (upd_stat (\<lambda>s. s\<lparr>ss_completes := ss_completes s + 1\<rparr>)
              (put_var a (v\<lparr>sv_state := will_disconnect\<rparr>) (t\<lparr>st_ctx := c\<rparr>)))
       else Ok (put_var a v (t\<lparr>st_ctx := c\<rparr>))) = Ok t'"
    unfolding sub_message_callback_def obind_eq_Ok deref_Ok by blast
  obtain v' c where vc: "vc = (v', c)" by (cases vc)
  have c: "sc_done c = sc_done (st_ctx t)" "sc_started c = sc_started (st_ctx t)" "sc_target c = sc_target (st_ctx t)"
    using v(2) count_message_ledger unfolding vc by (auto split: if_splits)
  have d: "insert a (dom (st_vars t)) = dom (st_vars t)" using v(1) by auto
  show ?thesis
  proof (cases "ucast (sv_msg_count v') = flows_per_con cf")
    case True
    with v(3) have "t' = upd_stat (\<lambda>s. s\<lparr>ss_completes := ss_completes s + 1\<rparr>)
              (put_var a (v'\<lparr>sv_state := will_disconnect\<rparr>) (t\<lparr>st_ctx := c\<rparr>))" by (simp add: vc)
    then show ?thesis using c d by (simp add: ledger_def put_var_def)
  next
    case False
    with v(3) have "t' = put_var a v' (t\<lparr>st_ctx := c\<rparr>)" by (simp add: vc)
    then show ?thesis using c d by (simp add: ledger_def put_var_def)
  qed
qed

lemma connect_ledger: "sub_connect_callback a r t = Ok t' \<Longrightarrow> ledger t' = ledger t"
  by (auto simp: sub_connect_callback_def obind_eq_Ok deref_Ok ledger_put split: if_splits)

lemma callbacks_ledger: "run_callbacks cf a cs t = Ok t' \<Longrightarrow> ledger t' = ledger t"
  by (induction cf a cs t rule: run_callbacks.induct) (auto simp: obind_eq_Ok dest!: message_ledger connect_ledger)

lemma close_balanced:
  assumes "sub_CloseConnection a t = Ok t'" "balanced n t"
  shows "balanced n t'"
proof -
  obtain v where v: "st_vars t a = Some v" and t': "t' = upd_ctx (\<lambda>c. c\<lparr>sc_done := sc_done c + 1\<rparr>)
      (t\<lparr>st_interest := (st_interest t)(a := None), st_vars := (st_vars t)(a := None)\<rparr>)"
    using assms(1) by (auto simp: sub_CloseConnection_def obind_eq_Ok deref_Ok)
  have "finite (dom (st_vars t))" using assms(2) finite_subset by (auto simp: balanced_def)
  moreover have "a \<in> dom (st_vars t)" using v by auto
  ultimately have "card (dom (st_vars t) - {a}) + 1 = card (dom (st_vars t))"
    by (metis card_Suc_Diff1 Suc_eq_plus1)
  then show ?thesis using assms(2) by (auto simp: t' balanced_def)
qed

lemma event_balanced:
  assumes "sub_handle_event cf ev t = Ok t'" "balanced n t"
  shows "balanced n t'"
proof -
  have st: "balanced n (upd_stat f s) = balanced n s" for f s by (rule balanced_ledger) simp
  have w: "balanced n (watch_var a m s) = balanced n s" for a m s by (rule balanced_ledger) simp
  have p: "st_vars s a = Some v0 \<Longrightarrow> balanced n (put_var a v s) = balanced n s" for a v0 v s
    by (rule balanced_ledger) (rule ledger_put)
  have cb: "run_callbacks cf a cs s = Ok s' \<Longrightarrow> balanced n s' = balanced n s" for a cs s s'
    by (rule balanced_ledger) (rule callbacks_ledger)
  show ?thesis
  proof (cases "se_err ev")
    case True
    then show ?thesis using assms(1)
      by (auto simp: sub_handle_event_def obind_eq_Ok deref_Ok dest!: sub_close_gone)
  next
    case err: False
    show ?thesis
    proof (cases "se_in ev")
      case True
      with err assms(1) have h: "sub_handle_in cf ev t = Ok t'" by (simp add: sub_handle_event_def)
      then obtain t1 t2 v where t1: "run_callbacks cf (se_var ev) (se_calls ev) t = Ok t1"
        "(if se_read ev \<noteq> MOSQ_ERR_SUCCESS
          then sub_CloseConnection (se_var ev) (upd_stat (\<lambda>s. s\<lparr>ss_errors := ss_errors s + 1\<rparr>) t1) else Ok t1) = Ok t2"
        "st_vars t2 (se_var ev) = Some v"
        "(if sv_state v = will_disconnect then sub_CloseConnection (se_var ev) t2 else Ok t2) = Ok t'"
        unfolding sub_handle_in_def Let_def obind_eq_Ok deref_Ok by blast
      have "balanced n t1" using cb [OF t1(1)] assms(2) by simp
      then have "balanced n t2" using t1(2) close_balanced st by (metis outcome.inject)
      then show ?thesis using t1(4) close_balanced by (metis outcome.inject)
    next
      case False
      with err assms(1) have o: "sub_handle_out ev t = Ok t'"
        by (auto simp: sub_handle_event_def split: if_splits)
      then obtain v where v: "st_vars t (se_var ev) = Some v" by (auto simp: sub_handle_out_def Let_def obind_eq_Ok deref_Ok)
      define t1 where "t1 = put_var (se_var ev) (v\<lparr>sv_id := se_mid ev\<rparr>) t"
      have b: "balanced n t1" using p [OF v] assms(2) by (simp add: t1_def)
      from o v have "t' = t \<or> t' = watch_var (se_var ev) (True, False) t1 \<or>
          sub_CloseConnection (se_var ev) (upd_stat (\<lambda>s. s\<lparr>ss_errors := ss_errors s + 1\<rparr>) t1) = Ok t'"
        by (auto simp: sub_handle_out_def Let_def t1_def split: if_splits)
      then show ?thesis
      proof (elim disjE)
        assume "sub_CloseConnection (se_var ev) (upd_stat (\<lambda>s. s\<lparr>ss_errors := ss_errors s + 1\<rparr>) t1) = Ok t'"
        then show ?thesis by (rule close_balanced) (simp only: st b)
      qed (simp_all only: assms(2) b w)
    qed
  qed
qed

lemma events_balanced: "sub_handle_events cf evs t = Ok t' \<Longrightarrow> balanced n t \<Longrightarrow> balanced n t'"
  by (induction evs arbitrary: t) (auto simp: obind_eq_Ok dest: event_balanced)

text \<open>Starting connections, as long as the thread is not stopped.\<close>

definition running :: "nat \<Rightarrow> sub_thread \<Rightarrow> bool" where
  "running n t \<longleftrightarrow> balanced n t \<and> \<not> st_stop t"

lemma create_balanced:
  assumes "sub_CreateConnection cf ci t = Ok (r, t')" "running n t" "sc_started (st_ctx t) < sc_target (st_ctx t)"
  shows "if r < 0 then balanced n (t'\<lparr>st_stop := True\<rparr>) else running n t'"
proof -
  have f: "finite (dom (st_vars t))" "st_next t \<notin> dom (st_vars t)"
    using assms(2) finite_subset by (auto simp: running_def balanced_def)
  then have c: "card (insert (st_next t) (dom (st_vars t))) = card (dom (st_vars t)) + 1" by simp
  have d: "insert (st_next t) (dom (st_vars t)) \<subseteq> {..<Suc (st_next t)}"
    using assms(2) by (auto simp: running_def balanced_def)
  show ?thesis
  proof (cases "ci_ret ci \<noteq> 0 \<or> ci_sock ci < 0")
    case True
    with assms(1) have "r = -1" "dom (st_vars t') = insert (st_next t) (dom (st_vars t))" "st_next t' = Suc (st_next t)"
      "sc_done (st_ctx t') = sc_done (st_ctx t)" "sc_target (st_ctx t') = sc_target (st_ctx t)"
      "sc_started (st_ctx t') = sc_started (st_ctx t) \<or> sc_started (st_ctx t') = sc_started (st_ctx t) + 1"
      by (auto simp: sub_CreateConnection_def Let_def obind_eq_Ok put_var_def split: if_splits)
    with assms(2,3) c d show ?thesis by (auto simp: running_def balanced_def)
  next
    case False
    with assms(1) have "r = ci_sock ci" "dom (st_vars t') = insert (st_next t) (dom (st_vars t))" "st_next t' = Suc (st_next t)"
      "sc_done (st_ctx t') = sc_done (st_ctx t)" "sc_target (st_ctx t') = sc_target (st_ctx t)"
      "sc_started (st_ctx t') = sc_started (st_ctx t) + 1" "st_stop t' = st_stop t"
      by (auto simp: sub_CreateConnection_def Let_def obind_eq_Ok put_var_def watch_var_def split: if_splits)
    with False assms(2,3) c d show ?thesis by (auto simp: running_def balanced_def)
  qed
qed

lemma create_loop_balanced: "sub_create_loop cf cis t = Ok t' \<Longrightarrow> running n t \<Longrightarrow> balanced n t'"
proof (induction cis arbitrary: t)
  case (Cons ci cis)
  show ?case
  proof (cases "sc_started (st_ctx t) < sc_target (st_ctx t)")
    case True
    with Cons.prems obtain r t1 where "sub_CreateConnection cf ci t = Ok (r, t1)"
      "(if r < 0 then Ok (t1\<lparr>st_stop := True\<rparr>) else sub_create_loop cf cis t1) = Ok t'"
      by (auto simp: obind_eq_Ok)
    with create_balanced [OF this(1) Cons.prems(2) True] Cons.IH show ?thesis by (auto split: if_splits)
  qed (use Cons.prems in \<open>auto simp: running_def\<close>)
qed (auto simp: running_def split: if_splits)

lemma loop_balanced: "sub_loop cf ps t = Ok t' \<Longrightarrow> balanced n t \<Longrightarrow> balanced n t'"
proof (induction ps arbitrary: t)
  case (Cons p ps)
  have st: "balanced n (upd_stat f s) = balanced n s" for f s by (rule balanced_ledger) simp
  show ?case
  proof (cases "st_stop t")
    case False
    define t1 where "t1 = (if sp_cleared p then upd_stat (\<lambda>_. sub_stat0) t else t)"
    have r: "running n t1" using Cons.prems(2) False st by (cases "sp_cleared p") (auto simp: t1_def running_def balanced_def)
    from Cons.prems(1) False obtain t2 where t2: "sub_create_loop cf (sp_connects p) t1 = Ok t2"
      "(case sp_events p of None \<Rightarrow> Ok (t2\<lparr>st_stop := True\<rparr>)
        | Some evs \<Rightarrow> obind (sub_handle_events cf evs
             (upd_stat (\<lambda>s. s\<lparr>ss_events := ss_events s + of_nat (length evs)\<rparr>) t2)) (\<lambda>t.
           if sc_target (st_ctx t) \<le> sc_done (st_ctx t) then Ok t else sub_loop cf ps t)) = Ok t'"
      unfolding sub_loop.simps if_not_P [OF False] Let_def t1_def obind_eq_Ok by blast
    have b: "balanced n t2" by (rule create_loop_balanced [OF t2(1) r])
    show ?thesis
    proof (cases "sp_events p")
      case None
      with t2(2) b show ?thesis by (fastforce simp: balanced_def)
    next
      case (Some evs)
      with t2(2) obtain t3 where t3: "sub_handle_events cf evs
          (upd_stat (\<lambda>s. s\<lparr>ss_events := ss_events s + of_nat (length evs)\<rparr>) t2) = Ok t3"
        "(if sc_target (st_ctx t3) \<le> sc_done (st_ctx t3) then Ok t3 else sub_loop cf ps t3) = Ok t'"
        unfolding Some option.case obind_eq_Ok by blast
      have "balanced n t3" by (rule events_balanced [OF t3(1)]) (use b st in simp)
      with t3(2) Cons.IH show ?thesis by (auto split: if_splits)
    qed
  qed (use Cons.prems in simp)
qed simp


definition one_connection :: config where
  "one_connection = \<lparr>core_limit = 1, concurrency = 1, concurs = (\<lambda>_. 1), flows_per_con = 2, topic = ascii ''t'',
      is_unique = False, client_id = Some (ascii ''s''), size_opt = 0\<rparr>"

definition one_pass :: sub_pass where
  "one_pass = \<lparr>sp_cleared = False, sp_connects = [\<lparr>ci_ret = 0, ci_before = \<lparr>tv_sec = 0, tv_usec = 0\<rparr>,
      ci_after = \<lparr>tv_sec = 0, tv_usec = 5\<rparr>, ci_sock = 4\<rparr>], sp_events = Some []\<rparr>"


end
