(* ===== verification/Tool_Properties.thy ===== *)
theory Tool_Properties
  imports Tool_Ledger
begin

text \<open>
  The properties of the load generators: the numbers of the connections, the messages sent and
  counted, the time stamps and the printed figures.
\<close>

section \<open>The printed figures\<close>

definition after_zero :: "u64 list \<Rightarrow> u64 list" where
  "after_zero ms = rev (takeWhile (\<lambda>m. m \<noteq> 0) (rev ms))"

lemma after_zero_snoc: "after_zero (ms @ [x]) = (if x = 0 then [] else after_zero ms @ [x])"
  by (simp add: after_zero_def)

lemma lower_zero [simp]: "lower m 0 = 0" "lower 0 m = m"
  by (auto simp: lower_def word_gt_0)

lemma fold_lower: "fold (\<lambda>x m. lower m x) ms 0 = (if after_zero ms = [] then 0 else Min (set (after_zero ms)))"
proof (induction ms rule: rev_induct)
  case Nil
  then show ?case by (simp add: after_zero_def)
next
  case (snoc x ms)
  have nz: "y \<in> set (after_zero ms) \<Longrightarrow> y \<noteq> 0" for y
    by (auto simp: after_zero_def dest: set_takeWhileD)
  show ?case
  proof (cases "x = 0 \<or> after_zero ms = []")
    case True
    then show ?thesis using snoc by (cases "x = 0") (simp_all add: after_zero_snoc)
  next
    case False
    then have m: "Min (set (after_zero ms)) \<noteq> 0" using nz Min_in [of "set (after_zero ms)"] by auto
    have "lower (Min (set (after_zero ms))) x = min x (Min (set (after_zero ms)))"
      using m by (auto simp: lower_def min_def)
    moreover have "Min (set (after_zero ms @ [x])) = min x (Min (set (after_zero ms)))" using False by simp
    ultimately show ?thesis using snoc False by (simp add: after_zero_snoc del: Min_insert)
  qed
qed

lemma fold_add_stat:
  "fold add_stat sts (tot, acc) = (tot', acc') \<Longrightarrow>
     to_rcv_msgs tot' = to_rcv_msgs tot + sum_list (map ss_rcv_msgs sts) \<and>
     to_errors tot' = to_errors tot + sum_list (map ss_errors sts) \<and>
     to_min tot' = fold (\<lambda>x m. lower m x) (map ss_min_rcv_time sts) (to_min tot) \<and>
     ss_rcv_msgs acc' = ss_rcv_msgs acc + sum_list (map ss_rcv_msgs sts) \<and>
     ss_completes acc' = ss_completes acc + sum_list (map ss_completes sts) \<and>
     ss_connects acc' = ss_connects acc + sum_list (map ss_connects sts) \<and>
     ss_errors acc' = ss_errors acc + sum_list (map ss_errors sts)"
proof (induction sts arbitrary: tot acc)
  case (Cons st sts)
  obtain tot1 acc1 where a: "add_stat st (tot, acc) = (tot1, acc1)" by fastforce
  from Cons.IH [of tot1 acc1] Cons.prems a show ?case
    by (auto simp: add_stat_def algebra_simps)
qed simp

section \<open>The properties\<close>


definition example_config :: config where
  "example_config = \<lparr>core_limit = 3, concurrency = 2, concurs = fill_concurs 2 1 3, flows_per_con = 2,
     topic = ascii ''t'', is_unique = False, client_id = None, size_opt = 32\<rparr>"

lemma example_cores: "start_cores 7 3 = Ok (core_limit example_config, concurrency example_config, concurs example_config)"
  by (simp add: start_cores_def plan_def example_config_def Let_def)





definition example_event :: pub_event where
  "example_event = \<lparr>pe_var = 0, pe_err = False, pe_in = False, pe_out = True, pe_other = False, pe_calls = [],
     pe_read = 0, pe_now = \<lparr>tv_sec = 5, tv_usec = 6\<rparr>, pe_pub_calls = [], pe_publish = 0,
     pe_write_calls = [P_publish], pe_write = 0\<rparr>"

definition example_publisher :: pub_thread where
  "example_publisher = \<lparr>pt_ctx = (pub_CreateContext 0)\<lparr>pc_target := 1, pc_started := 1, pc_payload := Some (replicate 32 0)\<rparr>,
     pt_vars = [0 \<mapsto> \<lparr>pv_fd = 4, pv_state = conacked, pv_msg_count = 0, pv_topic = ascii ''t'', pv_name = ascii ''p-0'',
       pv_connect_time = \<lparr>tv_sec = 1, tv_usec = 2\<rparr>, pv_is_publish_st = True\<rparr>],
     pt_next = 1, pt_interest = [0 \<mapsto> (True, True)], pt_stop = False, pt_message = [], pt_sent = []\<rparr>"



definition example_subscriber :: sub_thread where
  "example_subscriber = \<lparr>st_ctx = (sub_CreateContext 0)\<lparr>sc_target := 1, sc_started := 1\<rparr>,
     st_vars = [0 \<mapsto> \<lparr>sv_fd = 4, sv_state = conacked, sv_msg_count = 0, sv_topic = ascii ''t'', sv_name = ascii ''s-0'',
       sv_id = 0, sv_is_recv_st = True\<rparr>],
     st_next = 1, st_interest = [0 \<mapsto> (True, False)], st_stop = False\<rparr>"

definition example_message :: mosquitto_message where
  "example_message = \<lparr>mm_payload = replicate 32 0, mm_payloadlen = 32\<rparr>"


text \<open>C39: An error on a connection of the subscriber is a use after free: after \<open>EPOLLERR\<close> and
  after a failed \<open>mosquitto_loop_read\<close> the connection's structure is freed and then read
  again, whatever the state, so the thread never survives such an event.\<close>

theorem freed_connection_used:
  assumes "se_err ev \<or> se_in ev \<and> se_read ev \<noteq> 0"
  shows "sub_handle_event cf ev t \<noteq> Ok t'"
  using assms
  by (auto simp: sub_handle_event_def sub_handle_in_def Let_def obind_eq_Ok dest!: sub_close_gone)

theorem freed_connection_used_witness:
  "sub_handle_event example_config \<lparr>se_var = 0, se_err = True, se_in = False, se_out = False, se_other = False,
     se_calls = [], se_read = 0, se_subscribe = 0, se_mid = 0, se_write = 0\<rparr> example_subscriber \<noteq> Ok example_subscriber"
  by (rule freed_connection_used) simp





section \<open>The start of a thread\<close>

text \<open>C38: A thread of the tools pins itself to its core, on a machine with at most eight
  processors: the kernel gets the set of exactly this core, one bit in a byte per processor, and
  the thread goes on as \<open>RunMain\<close> says, whatever the kernel answers.  On a larger machine the set
  is cleared beyond its end, and every thread of both programs leaves its memory before it opens
  a connection.\<close>

theorem pinning_needs_eight_cpus:
  assumes "int core < GetNumCPUCores online"
  shows "if GetNumCPUCores online \<le> 8
     then AffinitizeThreadToCore online True junk setaff (int core) =
            Ok (setaff (push_bit core 1 # replicate (nat (GetNumCPUCores online) - 1) 0)) \<and>
          sub_app_thread online True junk setaff cf core ps = sub_RunMain cf core ps \<and>
          pub_app_thread online True junk setaff cf core msg payload qs = pub_RunMain cf core msg payload qs
     else sub_app_thread online True junk setaff cf core ps = Fault \<and>
          pub_app_thread online True junk setaff cf core msg payload qs = Fault"
  using assms affinity_inside [of "int core" online] affinity_overflow [of "int core" online]
  by (simp add: GetNumCPUCores_def sub_app_thread_def pub_app_thread_def)

theorem pinning_needs_eight_cpus_witness:
  "AffinitizeThreadToCore 4 True (\<lambda>_. 0xFF) (\<lambda>bs. if bs = [4, 0, 0, 0] then 0 else - 1) 2 = Ok 0 \<and>
   sub_app_thread 16 True (\<lambda>_. 0) (\<lambda>_. 0) example_config 2 [] = Fault"
  using pinning_needs_eight_cpus [of 2 4 "\<lambda>_. 0xFF" "\<lambda>bs. if bs = [4, 0, 0, 0] then 0 else - 1"]
    pinning_needs_eight_cpus [of 2 16 "\<lambda>_. 0" "\<lambda>_. 0" example_config "[]"]
  by (simp add: GetNumCPUCores_def numeral_eq_Suc)

end
