(* ===== verification/Queue_Threads.thy ===== *)
theory Queue_Threads
  imports Client_Queue
begin

text \<open>
  The packet queue of a client between threads.  The thread of the client runs the sending part
  of \<open>loop_run\<close> (\<open>broker/event_io.c\<close>); meanwhile any thread may append packets, by
  \<open>publish_msg\<close> and \<open>ack_msg\<close>.  A step of the sender ends where the code releases
  \<open>sending_lock\<close> or calls \<open>send\<close>; an append happens under the lock and is one step.
\<close>

section \<open>Steps\<close>

text \<open>
  Where the sender is: outside the loop; at the test of the loop with the number of rounds
  left; in the inner loop; or past a critical error, which ends the connection.
\<close>

datatype sender_pc = Idle | Rounds nat | Sending nat | Removed

text \<open>The state, with what \<open>send\<close> has accepted and the packets ever appended.\<close>

record sending =
  w_client :: client
  w_pc :: sender_pc
  w_wire :: "u8 list"
  w_put :: "packet list"

definition sender_step :: "send_result \<Rightarrow> sending \<Rightarrow> sending outcome" where
  "sender_step r w =
     (let c = w_client w in
      case w_pc w of
        Idle \<Rightarrow> Ok (if num_sending_pack c < 1 then w else w\<lparr>w_pc := Rounds (nat (num_sending_pack c))\<rparr>)
      | Rounds 0 \<Rightarrow> Ok (w\<lparr>w_pc := Idle\<rparr>)
      | Rounds (Suc n) \<Rightarrow> obind (take_packet c) (\<lambda>c. Ok (w\<lparr>w_client := c, w_pc := Sending n\<rparr>))
      | Sending n \<Rightarrow>
          obind (deref (packets c) (sending_cur_packet c)) (\<lambda>p.
            let a = the (sending_cur_packet c) in
            if wcur p < wlen p then
              if length (send_buf p) < unat (wlen p) then Fault
              else let k = (of_int (fst r) :: u32) in
                if k \<le> 0 then Ok (w\<lparr>w_pc := (if snd r then Idle else Removed)\<rparr>)
                else Ok (w\<lparr>w_client := c\<lparr>packets := (packets c)(a \<mapsto> p\<lparr>wcur := wcur p + k\<rparr>)\<rparr>,
                           w_wire := w_wire w @ take (nat (fst r)) (drop (unat (wcur p)) (send_buf p))\<rparr>)
            else Ok (w\<lparr>w_client := finish_packet a p (c\<lparr>snd_num := snd_num c + 1\<rparr>), w_pc := Rounds n\<rparr>))
      | Removed \<Rightarrow> Ok w)"

definition append_step :: "packet \<Rightarrow> sending \<Rightarrow> sending outcome" where
  "append_step pk w =
     obind (enqueue pk (w_client w)) (\<lambda>c. Ok (w\<lparr>w_client := c, w_put := w_put w @ [pk]\<rparr>))"

text \<open>What \<open>publish_msg\<close> and \<open>ack_msg\<close> append, and what \<open>send\<close> may return: some of the bytes offered.\<close>

definition fresh_packet :: "packet \<Rightarrow> bool" where
  "fresh_packet pk \<longleftrightarrow> pnext pk = None \<and> wcur pk = 0 \<and> sized pk"

definition send_accepts :: "send_result \<Rightarrow> sending \<Rightarrow> bool" where
  "send_accepts r w \<longleftrightarrow> (\<forall>n p. w_pc w = Sending n \<longrightarrow> cur_packet (w_client w) = Some p \<longrightarrow> wcur p < wlen p \<longrightarrow>
     0 < fst r \<and> fst r \<le> int (unat (wlen p)) - int (unat (wcur p)))"

inductive sending_step :: "sending \<Rightarrow> sending outcome \<Rightarrow> bool" where
  Append: "fresh_packet pk \<Longrightarrow> sending_step w (append_step pk w)"
| Sender: "send_accepts r w \<Longrightarrow> sending_step w (sender_step r w)"

inductive sending_reach :: "sending \<Rightarrow> sending \<Rightarrow> bool" where
  Start: "sending_reach w w"
| Step: "sending_reach w w' \<Longrightarrow> sending_step w' (Ok w'') \<Longrightarrow> sending_reach w w''"

section \<open>The sender alone\<close>

text \<open>Without other threads the steps are those of \<^const>\<open>flush_client\<close>.\<close>

inductive sender_alone :: "sending \<Rightarrow> sending \<Rightarrow> bool" where
  alone_refl: "sender_alone w w"
| alone_step: "sender_step r w = Ok w' \<Longrightarrow> sender_alone w' w'' \<Longrightarrow> sender_alone w w''"

lemma alone_trans: "sender_alone w w' \<Longrightarrow> sender_alone w' w'' \<Longrightarrow> sender_alone w w''"
  by (induction rule: sender_alone.induct) (auto intro: sender_alone.intros)

lemma send_loop_alone:
  assumes "send_loop rs p = Ok (Sent_all, p', out, rest)"
    and "w_pc w = Sending n" "sending_cur_packet (w_client w) = Some a" "packets (w_client w) a = Some p"
  shows "sender_alone w (w\<lparr>w_client := (w_client w)\<lparr>packets := (packets (w_client w))(a \<mapsto> p')\<rparr>, w_wire := w_wire w @ out\<rparr>)
    \<and> \<not> wcur p' < wlen p'"
  using assms
proof (induction rs arbitrary: p w out)
  case Nil
  then have "\<not> wcur p < wlen p" "p' = p" "out = []"
    by (simp_all add: send_loop.simps [of "[]"] split: if_splits)
  with Nil.prems show ?case by (simp add: fun_upd_idem alone_refl)
next
  case (Cons x rs)
  obtain r again where x: "x = (r, again)" by (cases x)
  show ?case
  proof (cases "wcur p < wlen p")
    case False
    with Cons.prems have "p' = p" "out = []" by (simp_all add: send_loop.simps [of "x # rs"])
    with False Cons.prems show ?thesis by (simp add: fun_upd_idem alone_refl)
  next
    case True
    let ?p = "p\<lparr>wcur := wcur p + of_int r\<rparr>"
    from Cons.prems(1) True have fits: "\<not> length (send_buf p) < unat (wlen p)" and pos: "\<not> (of_int r :: u32) \<le> 0"
      by (auto simp: send_loop.simps [of "_ # _"] x Let_def split: if_splits)
    with Cons.prems(1) True obtain out' where loop: "send_loop rs ?p = Ok (Sent_all, p', out', rest)"
      "out = take (nat r) (drop (unat (wcur p)) (send_buf p)) @ out'"
      by (cases "send_loop rs ?p") (auto simp: send_loop.simps [of "_ # _"] x Let_def)
    define w1 where "w1 = w\<lparr>w_client := (w_client w)\<lparr>packets := (packets (w_client w))(a \<mapsto> ?p)\<rparr>,
      w_wire := w_wire w @ take (nat r) (drop (unat (wcur p)) (send_buf p))\<rparr>"
    have "sender_step x w = Ok w1"
      using Cons.prems(2-4) True fits pos by (simp add: sender_step_def w1_def x Let_def)
    moreover have "w_pc w1 = Sending n" "sending_cur_packet (w_client w1) = Some a" "packets (w_client w1) a = Some ?p"
      using Cons.prems(2,3) by (simp_all add: w1_def)
    note Cons.IH [OF loop(1) this]
    moreover have "w1\<lparr>w_client := (w_client w1)\<lparr>packets := (packets (w_client w1))(a \<mapsto> p')\<rparr>, w_wire := w_wire w1 @ out'\<rparr>
        = w\<lparr>w_client := (w_client w)\<lparr>packets := (packets (w_client w))(a \<mapsto> p')\<rparr>, w_wire := w_wire w @ out\<rparr>"
      by (simp add: w1_def loop(2))
    ultimately show ?thesis by (metis alone_step)
  qed
qed

lemma flush_loop_alone:
  assumes "flush_loop n rs (w_client w) = Ok (Sent_all, c, out, rest)" "w_pc w = Rounds n"
  shows "sender_alone w (w\<lparr>w_client := c, w_pc := Idle, w_wire := w_wire w @ out\<rparr>)"
  using assms
proof (induction n arbitrary: rs w out)
  case 0
  then show ?case by (auto simp: sender_step_def intro!: alone_step [OF _ alone_refl])
next
  case (Suc n)
  from Suc.prems(1) obtain c1 p p' out1 rs1 a where 1: "take_packet (w_client w) = Ok c1"
    "deref (packets c1) (sending_cur_packet c1) = Ok p" "send_loop rs p = Ok (Sent_all, p', out1, rs1)"
    and a: "sending_cur_packet c1 = Some a" "packets c1 a = Some p"
    and rest: "obind (flush_loop n rs1 (finish_packet a p' (c1\<lparr>packets := (packets c1)(a \<mapsto> p'), snd_num := snd_num c1 + 1\<rparr>)))
      (\<lambda>(e, c, out', rs). Ok (e, c, out1 @ out', rs)) = Ok (Sent_all, c, out, rest)"
    by (auto simp: obind_eq_Ok deref_def Let_def split: if_splits option.splits)
  define w1 where "w1 = w\<lparr>w_client := c1, w_pc := Sending n\<rparr>"
  define w2 where "w2 = w1\<lparr>w_client := c1\<lparr>packets := (packets c1)(a \<mapsto> p')\<rparr>, w_wire := w_wire w @ out1\<rparr>"
  define w3 where "w3 = w2\<lparr>w_client := finish_packet a p' ((w_client w2)\<lparr>snd_num := snd_num c1 + 1\<rparr>), w_pc := Rounds n\<rparr>"
  have s1: "sender_step r w = Ok w1" for r using Suc.prems(2) 1(1) by (simp add: sender_step_def w1_def Let_def)
  have s2: "sender_alone w1 w2" "\<not> wcur p' < wlen p'"
    using send_loop_alone [OF 1(3), of w1 n a] a by (simp_all add: w1_def w2_def)
  then have s3: "sender_step r w2 = Ok w3" for r
    using a by (simp add: sender_step_def w2_def w1_def w3_def Let_def)
  from rest obtain out' where "flush_loop n rs1 (w_client w3) = Ok (Sent_all, c, out', rest)" "out = out1 @ out'"
    by (auto simp: obind_eq_Ok w3_def w2_def)
  with Suc.IH [of rs1 w3 out'] have "sender_alone w3 (w3\<lparr>w_client := c, w_pc := Idle, w_wire := w_wire w3 @ out'\<rparr>)"
    by (simp add: w3_def)
  moreover have "w3\<lparr>w_client := c, w_pc := Idle, w_wire := w_wire w3 @ out'\<rparr> = w\<lparr>w_client := c, w_pc := Idle, w_wire := w_wire w @ out\<rparr>"
    using \<open>out = out1 @ out'\<close> by (simp add: w3_def w2_def w1_def)
  ultimately show ?case using s1 s2(1) s3 by (metis alone_step alone_trans)
qed

lemma flush_client_alone:
  assumes "flush_client rs (w_client w) = Ok (Sent_all, c, out, rest)" "w_pc w = Idle"
  shows "sender_alone w (w\<lparr>w_client := c, w_wire := w_wire w @ out\<rparr>)"
proof (cases "num_sending_pack (w_client w) < 1")
  case True
  with assms have "c = w_client w" "out = []" by (simp_all add: flush_client_def)
  then show ?thesis by (simp add: alone_refl)
next
  case False
  let ?n = "nat (num_sending_pack (w_client w))" let ?w = "w\<lparr>w_pc := Rounds (nat (num_sending_pack (w_client w)))\<rparr>"
  from False assms have "flush_loop ?n rs (w_client ?w) = Ok (Sent_all, c, out, rest)"
    by (simp add: flush_client_def)
  from flush_loop_alone [OF this] have "sender_alone ?w (w\<lparr>w_client := c, w_wire := w_wire w @ out\<rparr>)"
    using assms(2) by (cases w) simp
  moreover have "sender_step r w = Ok ?w" for r using assms(2) False by (simp add: sender_step_def Let_def)
  ultimately show ?thesis by (blast intro: alone_step)
qed

section \<open>The invariant\<close>

text \<open>
  The queue holds the packets still to be taken, and the counter their number, but for the
  rounds that the sender has left; what was sent and what is still to be sent is what was
  appended.
\<close>

definition bufs :: "packet list \<Rightarrow> u8 list" where
  "bufs pks = concat (map send_buf pks)"

definition unsent :: "sending \<Rightarrow> u8 list" where
  "unsent w = (case cur_packet (w_client w) of None \<Rightarrow> [] | Some p \<Rightarrow> drop (unat (wcur p)) (send_buf p))"

definition sending_with :: "sending \<Rightarrow> packet list \<Rightarrow> bool" where
  "sending_with w qs \<longleftrightarrow> queued (w_client w) qs \<and> (\<forall>q \<in> set qs. fresh_packet q) \<and>
     num_sending_pack (w_client w) = int (length qs) \<and>
     w_wire w @ unsent w @ bufs qs = bufs (w_put w) \<and>
     (case w_pc w of Idle \<Rightarrow> sending_cur_packet (w_client w) = None
      | Rounds n \<Rightarrow> sending_cur_packet (w_client w) = None \<and> n \<le> length qs
      | Sending n \<Rightarrow> n \<le> length qs \<and> (\<exists>p. cur_packet (w_client w) = Some p \<and> sized p \<and> wcur p \<le> wlen p)
      | Removed \<Rightarrow> False)"

definition sending_ok :: "sending \<Rightarrow> bool" where
  "sending_ok w \<longleftrightarrow> (\<exists>qs. sending_with w qs)"

lemma bufs_simps [simp]: "bufs [] = []" "bufs (p # ps) = send_buf p @ bufs ps" "bufs (ps @ qs) = bufs ps @ bufs qs"
  by (simp_all add: bufs_def)

lemma unsent_idle: "sending_cur_packet (w_client w) = None \<Longrightarrow> unsent w = []"
  by (simp add: unsent_def cur_packet_def)

lemma unsent_cong: "cur_packet (w_client w') = cur_packet (w_client w) \<Longrightarrow> unsent w' = unsent w"
  by (simp add: unsent_def)

lemma append_step_ok:
  assumes "sending_ok w" "fresh_packet pk"
  shows "\<exists>w'. append_step pk w = Ok w' \<and> sending_ok w'"
proof -
  from assms(1) obtain qs where w: "sending_with w qs" by (auto simp: sending_ok_def)
  then have q: "queued (w_client w) qs" by (simp add: sending_with_def)
  have "pnext pk = None" using assms(2) by (simp add: fresh_packet_def)
  from enqueue_queued [OF q this] obtain c where c: "enqueue pk (w_client w) = Ok c" "queued c (qs @ [pk])"
    "cur_packet c = cur_packet (w_client w)" "sending_cur_packet c = sending_cur_packet (w_client w)"
    "num_sending_pack c = num_sending_pack (w_client w) + 1" by blast
  let ?w = "w\<lparr>w_client := c, w_put := w_put w @ [pk]\<rparr>"
  have u: "unsent ?w = unsent w" by (rule unsent_cong) (simp add: c(3))
  have "sending_with ?w (qs @ [pk])" unfolding sending_with_def u
    using w c assms(2) by (auto simp: sending_with_def split: sender_pc.splits)
  then show ?thesis using c(1) by (auto simp: append_step_def sending_ok_def)
qed

text \<open>One call of \<open>send\<close>.\<close>

lemma take_part:
  "n + k \<le> length xs \<Longrightarrow> take k (drop n xs) @ drop (n + k) xs = drop n xs"
  by (metis append_take_drop_id drop_drop add.commute)

lemma of_int_part:
  assumes "0 < r" "r \<le> int (unat (l :: u32)) - int (unat (i :: u32))"
  shows "unat (i + of_int r) = unat i + nat r" "(of_int r :: u32) \<noteq> 0"
proof -
  have l: "unat l < 4294967296" by (rule unat_u32_less)
  then have r: "nat r < 4294967296" "unat i + nat r < 4294967296" using assms by linarith+
  have "(of_int r :: u32) = of_nat (nat r)" using assms(1) by simp
  then have u: "unat (of_int r :: u32) = nat r" using r(1) by (simp only: unat_of_nat_u32 mod_less)
  show "unat (i + of_int r) = unat i + nat r" using r(2) by (simp add: unat_word_ariths u)
  show "(of_int r :: u32) \<noteq> 0" using u assms(1) by (metis unat_0 zero_less_nat_eq less_irrefl)
qed

text \<open>The steps of the sender: entering the loop and leaving it, taking a packet, a call of
  \<open>send\<close>, and finishing a packet.\<close>

lemma sender_outside:
  assumes "sending_with w qs" "w_pc w = Idle \<or> w_pc w = Rounds 0"
  shows "\<exists>w'. sender_step r w = Ok w' \<and> sending_with w' qs"
proof -
  have u: "unsent (w\<lparr>w_pc := st\<rparr>) = unsent w" for st by (rule unsent_cong) simp
  then have "sending_with (w\<lparr>w_pc := Rounds (length qs)\<rparr>) qs" "sending_with (w\<lparr>w_pc := Idle\<rparr>) qs"
    using assms unfolding sending_with_def u by auto
  moreover have "num_sending_pack (w_client w) = int (length qs)" using assms(1) by (simp add: sending_with_def)
  ultimately show ?thesis using assms by (auto simp: sender_step_def Let_def)
qed

lemma sender_takes:
  assumes "sending_with w qs" "w_pc w = Rounds (Suc m)"
  shows "\<exists>w' qs'. sender_step r w = Ok w' \<and> sending_with w' qs'"
proof -
  have cur: "sending_cur_packet (w_client w) = None" using assms by (simp add: sending_with_def)
  obtain pk qs' where qs: "qs = pk # qs'" "m \<le> length qs'"
    using assms by (cases qs) (auto simp: sending_with_def)
  have q: "queued (w_client w) (pk # qs')" using assms(1) qs(1) by (simp add: sending_with_def)
  from take_packet_next [OF q cur] obtain c where c: "take_packet (w_client w) = Ok c"
    "queued c qs'" "cur_packet c = Some pk" "num_sending_pack c = num_sending_pack (w_client w) - 1" by blast
  have f: "sized pk" "wcur pk = 0" using assms(1) qs(1) by (auto simp: sending_with_def fresh_packet_def)
  let ?w = "w\<lparr>w_client := c, w_pc := Sending m\<rparr>"
  have "unsent ?w = send_buf pk" "unsent w = []"
    using c(3) f(2) unsent_idle [OF cur] by (simp_all add: unsent_def)
  then have "sending_with ?w qs'"
    using assms(1) c qs f by (simp add: sending_with_def word_le_nat_alt)
  then show ?thesis using assms(2) c(1) by (auto simp: sender_step_def)
qed

lemma sender_current:
  assumes "sending_with w qs" "w_pc w = Sending n"
  obtains a p where "sending_cur_packet (w_client w) = Some a" "packets (w_client w) a = Some p"
    "cur_packet (w_client w) = Some (p\<lparr>pnext := None\<rparr>)" "sized p" "wcur p \<le> wlen p"
    "unsent w = drop (unat (wcur p)) (send_buf p)"
proof -
  obtain p' where p': "cur_packet (w_client w) = Some p'" "sized p'" "wcur p' \<le> wlen p'"
    using assms by (auto simp: sending_with_def)
  then obtain a p where p: "sending_cur_packet (w_client w) = Some a" "packets (w_client w) a = Some p"
    "p' = p\<lparr>pnext := None\<rparr>" by (auto simp: cur_packet_def split: option.splits)
  have "sized p" "wcur p \<le> wlen p" "unsent w = drop (unat (wcur p)) (send_buf p)"
    using p' p(3) by (simp_all add: sized_def unsent_def)
  with p p'(1) show thesis by (intro that [of a p]) simp_all
qed

lemma sender_sends:
  assumes "sending_with w qs" "w_pc w = Sending n" "sending_cur_packet (w_client w) = Some a"
    and p: "packets (w_client w) a = Some p" "sized p" "unsent w = drop (unat (wcur p)) (send_buf p)"
    and r: "wcur p < wlen p" "0 < fst r" "fst r \<le> int (unat (wlen p)) - int (unat (wcur p))"
  shows "\<exists>w'. sender_step r w = Ok w' \<and> sending_with w' qs"
proof -
  let ?c = "w_client w" and ?p = "p\<lparr>wcur := wcur p + of_int (fst r)\<rparr>"
  let ?w = "w\<lparr>w_client := ?c\<lparr>packets := (packets ?c)(a \<mapsto> ?p)\<rparr>,
    w_wire := w_wire w @ take (nat (fst r)) (drop (unat (wcur p)) (send_buf p))\<rparr>"
  note o = of_int_part [OF r(2,3)]
  have q: "queued ?c qs" "w_wire w @ unsent w @ bufs qs = bufs (w_put w)" using assms(1) by (simp_all add: sending_with_def)
  have step: "sender_step r w = Ok ?w"
    using assms(2,3) p(1,2) r(1) o(2) by (simp add: sender_step_def Let_def sized_def)
  have cur: "cur_packet (w_client ?w) = Some (?p\<lparr>pnext := None\<rparr>)" by (simp add: cur_packet_def assms(3))
  have fits: "unat (wcur p) + nat (fst r) \<le> length (send_buf p)" using r p(2) unfolding sized_def by linarith
  have "unsent ?w = drop (unat (wcur p) + nat (fst r)) (send_buf p)" using cur o(1) by (simp add: unsent_def)
  then have "w_wire ?w @ unsent ?w @ bufs qs = bufs (w_put ?w)"
    using q(2) p(3) by (simp add: take_part [OF fits, THEN arg_cong [of _ _ "\<lambda>x. x @ bufs qs"], unfolded append_assoc])
  moreover have "sized (?p\<lparr>pnext := None\<rparr>)" "wcur (?p\<lparr>pnext := None\<rparr>) \<le> wlen (?p\<lparr>pnext := None\<rparr>)"
    using p(2) o(1) fits by (simp_all add: sized_def word_le_nat_alt)
  moreover have "queued (w_client ?w) qs" using queued_cur_update(1) [OF q(1) assms(3)] by simp
  ultimately have "sending_with ?w qs" using assms(1,2) cur by (simp add: sending_with_def)
  with step show ?thesis by blast
qed

lemma sender_finishes:
  assumes "sending_with w qs" "w_pc w = Sending n" "sending_cur_packet (w_client w) = Some a"
    and p: "packets (w_client w) a = Some p" "sized p" "unsent w = drop (unat (wcur p)) (send_buf p)" "wcur p = wlen p"
  shows "\<exists>w'. sender_step r w = Ok w' \<and> sending_with w' qs"
proof -
  let ?c = "w_client w"
  let ?d = "?c\<lparr>packets := (packets ?c)(a := None), sending_cur_packet := None\<rparr>"
  let ?w = "w\<lparr>w_client := ?d\<lparr>snd_num := snd_num ?c + 1\<rparr>, w_pc := Rounds n\<rparr>"
  have q: "queued ?c qs" "w_wire w @ unsent w @ bufs qs = bufs (w_put w)" using assms(1) by (simp_all add: sending_with_def)
  have step: "sender_step r w = Ok ?w"
    using assms(2,3) p(1,4) by (simp add: sender_step_def Let_def finish_packet_def)
  have "unsent w = []" using p(2-4) by (simp add: sized_def)
  then have "w_wire ?w @ unsent ?w @ bufs qs = bufs (w_put ?w)" using q(2) unsent_idle [of ?w] by simp
  moreover have "queued (w_client ?w) qs" using queued_cur_update(2) [OF q(1) assms(3)] by (simp add: queued_frame)
  ultimately have "sending_with ?w qs" using assms(1,2) by (simp add: sending_with_def)
  with step show ?thesis by blast
qed

lemma sender_ok_step:
  assumes "sending_ok w" "send_accepts r w"
  shows "\<exists>w'. sender_step r w = Ok w' \<and> sending_ok w'"
proof -
  from assms(1) obtain qs where w: "sending_with w qs" by (auto simp: sending_ok_def)
  consider "w_pc w = Idle \<or> w_pc w = Rounds 0" | m where "w_pc w = Rounds (Suc m)" | n where "w_pc w = Sending n"
    using w by (cases "w_pc w") (auto simp: sending_with_def, metis not0_implies_Suc)
  then show ?thesis
  proof cases
    case 1
    then show ?thesis using sender_outside [OF w] by (fastforce simp: sending_ok_def)
  next
    case 2
    then show ?thesis using sender_takes [OF w] by (fastforce simp: sending_ok_def)
  next
    case 3
    obtain a p where p: "sending_cur_packet (w_client w) = Some a" "packets (w_client w) a = Some p"
      "cur_packet (w_client w) = Some (p\<lparr>pnext := None\<rparr>)" "sized p" "wcur p \<le> wlen p"
      "unsent w = drop (unat (wcur p)) (send_buf p)" by (rule sender_current [OF w 3])
    have "\<exists>w'. sender_step r w = Ok w' \<and> sending_with w' qs"
    proof (cases "wcur p < wlen p")
      case True
      then have "0 < fst r" "fst r \<le> int (unat (wlen p)) - int (unat (wcur p))"
        using assms(2) 3 p(3) by (auto simp: send_accepts_def)
      then show ?thesis by (rule sender_sends [OF w 3 p(1,2,4,6) True])
    next
      case False
      with p(5) have "wcur p = wlen p" by simp
      then show ?thesis by (rule sender_finishes [OF w 3 p(1,2,4,6)])
    qed
    then show ?thesis by (auto simp: sending_ok_def)
  qed
qed

lemma sending_reach_ok: "sending_reach w w' \<Longrightarrow> sending_ok w \<Longrightarrow> sending_ok w'"
proof (induction rule: sending_reach.induct)
  case (Step w w' w'')
  from Step.hyps(2) Step.IH Step.prems show ?case
  proof (cases rule: sending_step.cases)
    case (Append pk)
    then show ?thesis using append_step_ok Step.IH Step.prems by fastforce
  next
    case (Sender r)
    then show ?thesis using sender_ok_step Step.IH Step.prems by fastforce
  qed
qed

text \<open>A client with waiting packets, before its thread looks at it.\<close>

definition waiting :: "client \<Rightarrow> packet list \<Rightarrow> sending" where
  "waiting c pks = \<lparr>w_client = c, w_pc = Idle, w_wire = [], w_put = pks\<rparr>"

lemma waiting_ok:
  assumes "queued c pks" "sending_cur_packet c = None" "num_sending_pack c = int (length pks)" "\<forall>p \<in> set pks. fresh_packet p"
  shows "sending_ok (waiting c pks)"
  unfolding sending_ok_def using assms unsent_idle [of "waiting c pks"]
  by (intro exI [of _ pks]) (simp add: waiting_def sending_with_def)



end
