(* ===== verification/Tree_Writes.thy ===== *)
theory Tree_Writes
  imports Substree_Facts "HOL-Library.Multiset" "HOL-Library.Sublist"
begin

text \<open>
  How other threads see the subscription tree change.  A thread in \<open>mqtt3_sub_add\<close> holds
  \<open>root_lock\<close>, so there is one writer, but \<open>_sub_search\<close> does not take this lock: it sees the
  tree after every single store of a pointer or of a QoS.  The theory breaks \<open>mqtt3_sub_add\<close>
  into these stores and shows what they leave unchanged.  Stores are seen in the order of the
  code, as on the machine the broker is written for.
\<close>

section \<open>Stores\<close>

text \<open>Below the first level: a new last child, a new last leaf, another QoS.\<close>

inductive node_write :: "subhier \<Rightarrow> subhier \<Rightarrow> bool" where
  New_child: "t \<notin> sh_topic ` set cs \<Longrightarrow> node_write (Subhier x ls cs) (Subhier x ls (cs @ [Subhier t [] []]))"
| New_leaf: "node_write (Subhier x ls cs) (Subhier x (ls @ [l]) cs)"
| Set_qos: "i < length ls \<Longrightarrow> node_write (Subhier x ls cs) (Subhier x (ls[i := (ls ! i)\<lparr>l_qos := q\<rparr>]) cs)"
| Below: "i < length cs \<Longrightarrow> node_write (cs ! i) b \<Longrightarrow> node_write (Subhier x ls cs) (Subhier x ls (cs[i := b]))"

text \<open>The root: a new first child, or a store below it.\<close>

inductive root_write :: "subhier \<Rightarrow> subhier \<Rightarrow> bool" where
  New_top: "t \<notin> sh_topic ` set cs \<Longrightarrow> root_write (Subhier x ls cs) (Subhier x ls (Subhier t [] [] # cs))"
| Below_root: "i < length cs \<Longrightarrow> node_write (cs ! i) b \<Longrightarrow> root_write (Subhier x ls cs) (Subhier x ls (cs[i := b]))"

abbreviation later :: "subhier \<Rightarrow> subhier \<Rightarrow> bool" where "later \<equiv> root_write\<^sup>*\<^sup>*"

section \<open>Subscribing is a sequence of stores\<close>

lemma below_star:
  assumes "node_write\<^sup>*\<^sup>* b b'" "i < length cs" "cs ! i = b"
  shows "node_write\<^sup>*\<^sup>* (Subhier x ls cs) (Subhier x ls (cs[i := b']))"
    "root_write\<^sup>*\<^sup>* (Subhier x ls cs) (Subhier x ls (cs[i := b']))"
proof -
  have "node_write\<^sup>*\<^sup>* (Subhier x ls cs) (Subhier x ls (cs[i := b'])) \<and>
      root_write\<^sup>*\<^sup>* (Subhier x ls cs) (Subhier x ls (cs[i := b']))"
    using assms
  proof (induction rule: rtranclp_induct)
    case (step y z)
    have "node_write (Subhier x ls (cs[i := y])) (Subhier x ls ((cs[i := y])[i := z]))"
      "root_write (Subhier x ls (cs[i := y])) (Subhier x ls ((cs[i := y])[i := z]))"
      using step.hyps(2) step.prems Below [of i "cs[i := y]" z] Below_root [of i "cs[i := y]" z] by simp_all
    with step show ?case by (auto intro: rtranclp.rtrancl_into_rtrancl)
  qed auto
  then show "node_write\<^sup>*\<^sup>* (Subhier x ls cs) (Subhier x ls (cs[i := b']))"
    "root_write\<^sup>*\<^sup>* (Subhier x ls cs) (Subhier x ls (cs[i := b']))" by simp_all
qed

lemma leaf_update_at:
  "leaf_update st ctx qos ls = Some ls' \<Longrightarrow> \<exists>i < length ls. ls' = ls[i := (ls ! i)\<lparr>l_qos := qos\<rparr>]"
proof (induction ls arbitrary: ls')
  case (Cons l ls)
  show ?case
  proof (cases "same_id st (l_context l) ctx")
    case True
    with Cons.prems show ?thesis by (intro exI [of _ 0]) simp
  next
    case False
    with Cons obtain i ls1 where "i < length ls" "ls1 = ls[i := (ls ! i)\<lparr>l_qos := qos\<rparr>]" "ls' = l # ls1" by auto
    then show ?thesis by (intro exI [of _ "Suc i"]) simp
  qed
qed simp

lemma sub_add_writes:
  assumes "sub_add ctx qos path toks st h al = (rc, st', h', al')"
  shows "node_write\<^sup>*\<^sup>* h h'"
  using assms
proof (induction toks arbitrary: path h al rc st' h' al')
  case Nil
  obtain x ls cs where h: "h = Subhier x ls cs" by (cases h)
  from Nil have "sub_add_leaf ctx qos path st h al = (rc, st', h', al')" by simp
  then have "h' = h \<or> h' = Subhier x (upsert st ctx qos ls) cs"
    using sub_add_leaf_any(3) h by (metis subhier.sel)
  moreover have "node_write h (Subhier x (upsert st ctx qos ls) cs)"
    by (cases "leaf_update st ctx qos ls") (auto simp: upsert_def h New_leaf Set_qos dest!: leaf_update_at)
  ultimately show ?case by auto
next
  case (Cons t ts)
  obtain x ls cs where h: "h = Subhier x ls cs" by (cases h)
  from Cons.prems show ?case
  proof (cases rule: sub_add_cases)
    case (old b)
    then show ?thesis using below_star(1) [OF Cons.IH [OF old(2)], of "branch_pos t cs" cs x ls] h by simp
  next
    case (fresh a b)
    have "node_write h (Subhier x ls (cs @ [Subhier t [] []]))" using fresh(1) h by (simp add: New_child)
    moreover have "node_write\<^sup>*\<^sup>* (Subhier x ls (cs @ [Subhier t [] []])) (Subhier x ls ((cs @ [Subhier t [] []])[length cs := b]))"
      by (rule below_star(1) [OF Cons.IH [OF fresh(2)]]) simp_all
    ultimately show ?thesis using fresh(3) h by (simp add: converse_rtranclp_into_rtranclp)
  qed simp
qed

text \<open>Whatever allocations fail.\<close>

lemma mqtt3_sub_add_writes:
  assumes "mqtt3_sub_add bro ctx sub qos = Ok (rc, bro')"
  shows "later (root bro) (root bro')"
  using assms
proof (cases rule: mqtt3_sub_add_cases)
  case (old t toks a st h al)
  then show ?thesis
    using below_star(2) [OF sub_add_writes [OF old(4)], of "branch_pos t (subs_children bro)" "subs_children bro" "[]" "[]"]
    by (simp add: root_def)
next
  case (fresh t toks a st h al)
  have "root_write (root bro) (Subhier [] [] (Subhier t [] [] # subs_children bro))"
    using fresh(3) by (simp add: root_def New_top)
  moreover have "later (Subhier [] [] (Subhier t [] [] # subs_children bro))
      (Subhier [] [] ((Subhier t [] [] # subs_children bro)[0 := h]))"
    by (rule below_star(2) [OF sub_add_writes [OF fresh(4)]]) simp_all
  ultimately show ?thesis using fresh(5) by (simp add: root_def converse_rtranclp_into_rtranclp)
qed (simp_all add: root_def)

section \<open>What the stores keep\<close>

text \<open>The topics of the children of a node, and the clients of its leaves.\<close>

fun kids :: "subhier \<Rightarrow> token list \<Rightarrow> token list" where
  "kids h [] = map sh_topic (sh_children h)"
| "kids h (t # p) = (let cs = sh_children h; i = branch_pos t cs in if i < length cs then kids (cs ! i) p else [])"

definition ctxs :: "subhier \<Rightarrow> token list \<Rightarrow> slot list" where
  "ctxs h p = map l_context (hier_leaves h p)"

lemma ctxs_simps [simp]:
  "ctxs h [] = map l_context (sh_subs h)"
  "ctxs h (t # p) = (let cs = sh_children h; i = branch_pos t cs in if i < length cs then ctxs (cs ! i) p else [])"
  by (simp_all add: ctxs_def Let_def)

lemma new_node [simp]: "kids (Subhier t [] []) p = []" "ctxs (Subhier t [] []) p = []"
  by (cases p; simp add: branch_pos_def ctxs_def Let_def)+

lemma child_view:
  assumes "i < length cs" "sh_topic b = sh_topic (cs ! i)" "distinct (map sh_topic cs)"
  shows "kids (Subhier x ls (cs[i := b])) (t # p) =
      (if t = sh_topic (cs ! i) then kids b p else kids (Subhier x ls cs) (t # p))"
    "ctxs (Subhier x ls (cs[i := b])) (t # p) =
      (if t = sh_topic (cs ! i) then ctxs b p else ctxs (Subhier x ls cs) (t # p))"
    "kids (Subhier x ls cs) (sh_topic (cs ! i) # p) = kids (cs ! i) p"
    "ctxs (Subhier x ls cs) (sh_topic (cs ! i) # p) = ctxs (cs ! i) p"
proof -
  have i: "branch_pos (sh_topic (cs ! i)) cs = i"
    using assms(1,3) branch_pos_unique [OF assms(3), of "cs ! i"] branch_pos_less [of "sh_topic (cs ! i)" cs]
    by (metis distinct_conv_nth image_eqI length_map nth_map nth_mem)
  have ne: "t \<noteq> sh_topic (cs ! i) \<Longrightarrow> branch_pos t cs < length cs \<Longrightarrow> branch_pos t cs \<noteq> i"
    using branch_pos_topic [of t cs] by auto
  show "kids (Subhier x ls (cs[i := b])) (t # p) =
      (if t = sh_topic (cs ! i) then kids b p else kids (Subhier x ls cs) (t # p))"
    "ctxs (Subhier x ls (cs[i := b])) (t # p) =
      (if t = sh_topic (cs ! i) then ctxs b p else ctxs (Subhier x ls cs) (t # p))"
    "kids (Subhier x ls cs) (sh_topic (cs ! i) # p) = kids (cs ! i) p"
    "ctxs (Subhier x ls cs) (sh_topic (cs ! i) # p) = ctxs (cs ! i) p"
    using assms(1,2) i ne by (auto simp: Let_def simp del: branch_pos_less)
qed

definition grown :: "subhier \<Rightarrow> subhier \<Rightarrow> bool" where
  "grown h h' \<longleftrightarrow> sh_topic h' = sh_topic h \<and>
     (\<forall>p. prefix (kids h p) (kids h' p) \<and> prefix (ctxs h p) (ctxs h' p))"

lemma grown_refl [simp]: "grown h h"
  by (simp add: grown_def)

lemma node_write_grown: "node_write h h' \<Longrightarrow> hier_ok h \<Longrightarrow> grown h h' \<and> hier_ok h'"
proof (induction rule: node_write.induct)
  case (New_child t cs x ls)
  have "prefix (kids (Subhier x ls cs) p) (kids (Subhier x ls (cs @ [Subhier t [] []])) p) \<and>
      prefix (ctxs (Subhier x ls cs) p) (ctxs (Subhier x ls (cs @ [Subhier t [] []])) p)" for p
    using New_child.hyps by (cases p) (auto simp: Let_def branch_pos_append nth_append)
  then show ?case using New_child by (simp add: grown_def)
next
  case (New_leaf x ls cs l)
  have "prefix (kids (Subhier x ls cs) p) (kids (Subhier x (ls @ [l]) cs) p) \<and>
      prefix (ctxs (Subhier x ls cs) p) (ctxs (Subhier x (ls @ [l]) cs) p)" for p
    by (cases p) (simp_all add: Let_def)
  then show ?case using New_leaf by (simp add: grown_def)
next
  case (Set_qos i ls x cs q)
  have "map l_context (ls[i := (ls ! i)\<lparr>l_qos := q\<rparr>]) = map l_context ls"
    using Set_qos.hyps by (simp add: map_update list_update_same_conv)
  then have "prefix (kids (Subhier x ls cs) p) (kids (Subhier x (ls[i := (ls ! i)\<lparr>l_qos := q\<rparr>]) cs) p) \<and>
      prefix (ctxs (Subhier x ls cs) p) (ctxs (Subhier x (ls[i := (ls ! i)\<lparr>l_qos := q\<rparr>]) cs) p)" for p
    by (cases p) (simp_all add: Let_def)
  then show ?case using Set_qos by (simp add: grown_def)
next
  case (Below i cs b x ls)
  then have d: "distinct (map sh_topic cs)" and g: "grown (cs ! i) b" "hier_ok b" by auto
  then have t: "sh_topic b = sh_topic (cs ! i)" by (simp add: grown_def)
  note v = child_view [OF Below.hyps(1) t d]
  have "prefix (kids (Subhier x ls cs) p) (kids (Subhier x ls (cs[i := b])) p) \<and>
      prefix (ctxs (Subhier x ls cs) p) (ctxs (Subhier x ls (cs[i := b])) p)" for p
  proof (cases p)
    case (Cons u q)
    show ?thesis
    proof (cases "u = sh_topic (cs ! i)")
      case True
      with g show ?thesis unfolding Cons v(1,2) True v(3,4) by (simp add: grown_def)
    next
      case False
      then show ?thesis unfolding Cons v(1,2) by simp
    qed
  qed (use t Below.hyps(1) in \<open>simp add: map_topic_update\<close>)
  moreover have "hier_ok (Subhier x ls (cs[i := b]))"
    using Below.prems g(2) t Below.hyps(1) set_update_subset_insert [of cs i b] by (auto simp: map_topic_update)
  ultimately show ?case by (simp add: grown_def)
qed

text \<open>At the root children come in front.\<close>

definition grown_root :: "subhier \<Rightarrow> subhier \<Rightarrow> bool" where
  "grown_root h h' \<longleftrightarrow> (\<forall>p. prefix (ctxs h p) (ctxs h' p) \<and>
     (if p = [] then suffix (kids h p) (kids h' p) else prefix (kids h p) (kids h' p)))"

lemma grown_root_refl [simp]: "grown_root h h"
  by (simp add: grown_root_def)

lemma grown_root_trans: "grown_root a b \<Longrightarrow> grown_root b c \<Longrightarrow> grown_root a c"
  unfolding grown_root_def by (metis (mono_tags, lifting) prefix_order.trans suffix_order.trans)

lemma root_write_grown: "root_write h h' \<Longrightarrow> hier_ok h \<Longrightarrow> grown_root h h' \<and> hier_ok h'"
proof (induction rule: root_write.induct)
  case (New_top t cs x ls)
  have "prefix (ctxs (Subhier x ls cs) p) (ctxs (Subhier x ls (Subhier t [] [] # cs)) p) \<and>
     (if p = [] then suffix (kids (Subhier x ls cs) p) (kids (Subhier x ls (Subhier t [] [] # cs)) p)
      else prefix (kids (Subhier x ls cs) p) (kids (Subhier x ls (Subhier t [] [] # cs)) p))" for p
    using New_top.hyps by (cases p) (auto simp: Let_def branch_pos_Cons suffix_ConsI)
  moreover have "hier_ok (Subhier x ls (Subhier t [] [] # cs))" using New_top by simp
  ultimately show ?case unfolding grown_root_def by blast
next
  case (Below_root i cs b x ls)
  from node_write_grown [OF Below [OF Below_root.hyps] Below_root.prems]
  have g: "grown (Subhier x ls cs) (Subhier x ls (cs[i := b]))" "hier_ok (Subhier x ls (cs[i := b]))" by simp_all
  have "grown (cs ! i) b" using node_write_grown [OF Below_root.hyps(2)] Below_root.hyps(1) Below_root.prems by simp
  then have "kids (Subhier x ls (cs[i := b])) [] = kids (Subhier x ls cs) []"
    using Below_root.hyps(1) by (simp add: map_topic_update grown_def)
  with g show ?case by (simp add: grown_root_def grown_def)
qed

lemma later_grown: "later h h' \<Longrightarrow> hier_ok h \<Longrightarrow> grown_root h h' \<and> hier_ok h'"
  by (induction rule: rtranclp_induct) (auto dest: root_write_grown intro: grown_root_trans)

lemma kids_distinct: "hier_ok h \<Longrightarrow> distinct (kids h p)"
proof (induction p arbitrary: h)
  case Nil
  then show ?case by (cases h) simp
next
  case (Cons t p)
  then have "\<forall>c \<in> set (sh_children h). hier_ok c" by (cases h) simp
  with Cons.IH show ?case by (simp add: Let_def branch_pos_in)
qed

end
