(* ===== verification/Tree_Threads.thy ===== *)
theory Tree_Threads
  imports Tree_Writes
begin

text \<open>
  Publishing while other threads subscribe.  The relations below are \<open>_subs_process\<close>,
  \<open>_sub_search\<close> and the loop of \<open>mqtt3_sub_tree_process\<close> (\<open>broker/substree.c\<close>) with the tree
  changing between any two reads: \<open>T\<close> is the tree when the pointer at hand was read, the last
  argument the tree at the end.  A pointer to a node is its path.  The result is the list of
  the clients of the leaves met; each gets the callback if it is subscribed at that time.
\<close>

declare kids.simps(2) [simp del] ctxs_simps(2) [simp del]

section \<open>Reading pointers\<close>

definition first_kid :: "subhier \<Rightarrow> token list \<Rightarrow> token option" where
  "first_kid T p = (case kids T p of [] \<Rightarrow> None | t # _ \<Rightarrow> Some t)"

text \<open>The element after \<open>t\<close>.\<close>

fun after :: "'a \<Rightarrow> 'a list \<Rightarrow> 'a option" where
  "after t [] = None"
| "after t [u] = None"
| "after t (u # v # vs) = (if u = t then Some v else after t (v # vs))"

definition next_kid :: "subhier \<Rightarrow> token list \<Rightarrow> token \<Rightarrow> token option" where
  "next_kid T p t = after t (kids T p)"

section \<open>The search between other threads\<close>

inductive leaf_walk :: "token list \<Rightarrow> nat \<Rightarrow> subhier \<Rightarrow> slot list \<Rightarrow> subhier \<Rightarrow> bool" where
  Leaf_null: "length (ctxs T p) \<le> j \<Longrightarrow> leaf_walk p j T [] T"
| Leaf: "j < length (ctxs T p) \<Longrightarrow> later T T1 \<Longrightarrow> leaf_walk p (j + 1) T1 D T2 \<Longrightarrow>
    leaf_walk p j T (ctxs T p ! j # D) T2"

abbreviation takes :: "token list \<Rightarrow> token \<Rightarrow> bool" where
  "takes toks t \<equiv> toks \<noteq> [] \<and> (t = hd toks \<or> t = plus_tok)"

inductive node_search :: "token list \<Rightarrow> token list \<Rightarrow> token option \<Rightarrow> subhier \<Rightarrow> slot list \<Rightarrow> subhier \<Rightarrow> bool" where
  Null: "node_search toks p None T [] T"
| Match: "takes toks t \<Longrightarrow> later T T1 \<Longrightarrow>
    node_search (tl toks) (p @ [t]) (first_kid T1 (p @ [t])) T1 D1 T2 \<Longrightarrow> later T2 T3 \<Longrightarrow>
    (if tl toks = [] then leaf_walk (p @ [t]) 0 T3 D2 T4 else D2 = [] \<and> T4 = T3) \<Longrightarrow> later T4 T5 \<Longrightarrow>
    node_search toks p (next_kid T5 p t) T5 D3 T6 \<Longrightarrow>
    node_search toks p (Some t) T (D1 @ D2 @ D3) T6"
| Hash: "\<not> takes toks t \<Longrightarrow> t = hash_tok \<Longrightarrow> later T T1 \<Longrightarrow> kids T1 (p @ [t]) = [] \<Longrightarrow> later T1 T2 \<Longrightarrow>
    leaf_walk (p @ [t]) 0 T2 D1 T3 \<Longrightarrow> later T3 T4 \<Longrightarrow>
    node_search toks p (next_kid T4 p t) T4 D2 T5 \<Longrightarrow>
    node_search toks p (Some t) T (D1 @ D2) T5"
| Skip: "\<not> takes toks t \<Longrightarrow> later T T1 \<Longrightarrow> t \<noteq> hash_tok \<or> kids T1 (p @ [t]) \<noteq> [] \<Longrightarrow> later T1 T2 \<Longrightarrow>
    node_search toks p (next_kid T2 p t) T2 D T3 \<Longrightarrow>
    node_search toks p (Some t) T D T3"

inductive top_search :: "token list \<Rightarrow> token option \<Rightarrow> subhier \<Rightarrow> slot list \<Rightarrow> subhier \<Rightarrow> bool" where
  Top_null: "top_search toks None T [] T"
| Top: "later T T1 \<Longrightarrow>
    (if t = hd toks then node_search toks [t] (first_kid T1 [t]) T1 D1 T2 else D1 = [] \<and> T2 = T1) \<Longrightarrow>
    later T2 T3 \<Longrightarrow> top_search toks (next_kid T3 [] t) T3 D2 T4 \<Longrightarrow>
    top_search toks (Some t) T (D1 @ D2) T4"

definition concurrent_publish :: "token \<Rightarrow> subhier \<Rightarrow> slot list \<Rightarrow> subhier \<Rightarrow> bool" where
  "concurrent_publish topic T D T' \<longleftrightarrow>
     (\<exists>T1. later T T1 \<and> top_search (topic_tokens topic) (first_kid T1 []) T1 D T')"

section \<open>Growing lists\<close>

definition onward :: "'a option \<Rightarrow> 'a list \<Rightarrow> 'a list" where
  "onward cur ks = (case cur of None \<Rightarrow> [] | Some t \<Rightarrow> dropWhile (\<lambda>x. x \<noteq> t) ks)"

lemma onward_None [simp]: "onward None ks = []"
  by (simp add: onward_def)

lemma after_in: "after t ks = Some u \<Longrightarrow> u \<in> set ks"
  by (induction t ks rule: after.induct) (auto split: if_splits)

lemma onward_Cons: "onward (Some t) (u # ks) = (if u = t then u # ks else onward (Some t) ks)"
  by (simp add: onward_def)

lemma onward_split: "t \<in> set ks \<Longrightarrow> distinct ks \<Longrightarrow> onward (Some t) ks = t # onward (after t ks) ks"
proof (induction t ks rule: after.induct)
  case (3 t u v vs)
  show ?case
  proof (cases "u = t")
    case True
    with 3 show ?thesis by (simp add: onward_Cons)
  next
    case False
    then have "onward (after t (v # vs)) (u # v # vs) = onward (after t (v # vs)) (v # vs)"
      using after_in [of t "v # vs"] 3 by (cases "after t (v # vs)") (auto simp: onward_Cons)
    with 3 False show ?thesis by (simp add: onward_Cons [of _ u])
  qed
qed (auto simp: onward_Cons)

lemma onward_set: "mset (onward cur ks) \<subseteq># mset ks"
proof (cases cur)
  case (Some t)
  have "suffix (onward cur ks) ks" by (simp add: Some onward_def suffix_dropWhile)
  then obtain zs where "ks = zs @ onward cur ks" by (auto simp: suffix_def)
  then show ?thesis by (metis mset_append mset_subset_eq_add_right)
qed simp

definition extends :: "'a list \<Rightarrow> 'a list \<Rightarrow> bool" where
  "extends ks ks' \<longleftrightarrow> prefix ks ks' \<or> suffix ks ks'"

lemma after_append:
  "after t ks = Some u \<Longrightarrow> after t (ks @ zs) = Some u"
  by (induction t ks rule: after.induct) (auto split: if_splits)

lemma after_front: "t \<notin> set ys \<Longrightarrow> after t (ys @ ks) = after t ks"
proof (induction ys)
  case (Cons y ys)
  then show ?case by (cases "ys @ ks") auto
qed simp

lemma onward_extends:
  assumes "extends ks ks'" "t \<in> set ks" "distinct ks'"
  shows "mset (onward (Some t) ks) \<subseteq># mset (onward (Some t) ks')"
    "mset (t # onward (after t ks) ks') \<subseteq># mset (onward (Some t) ks')"
proof -
  have t': "t \<in> set ks'" using assms(1,2) by (auto simp: extends_def dest: set_mono_prefix set_mono_suffix)
  note sp = onward_split [OF t' assms(3)]
  show "mset (onward (Some t) ks) \<subseteq># mset (onward (Some t) ks')"
    using assms by (auto simp: extends_def prefix_def suffix_def onward_def dropWhile_append)
  show "mset (t # onward (after t ks) ks') \<subseteq># mset (onward (Some t) ks')"
  proof (cases "after t ks")
    case (Some u)
    have "t \<notin> set ys" if "ks' = ys @ ks" for ys using that assms(2,3) by auto
    then have "after t ks' = Some u"
      using assms(1) Some by (auto simp: extends_def prefix_def suffix_def after_append after_front)
    with sp Some show ?thesis by simp
  qed (simp add: sp)
qed

section \<open>What a search meets in one tree\<close>

function visits :: "subhier \<Rightarrow> token list \<Rightarrow> token list \<Rightarrow> token \<Rightarrow> slot multiset" where
  "visits T toks p t =
     (if takes toks t then
        (\<Sum>u\<leftarrow>kids T (p @ [t]). visits T (tl toks) (p @ [t]) u) + (if tl toks = [] then mset (ctxs T (p @ [t])) else {#})
      else if t = hash_tok \<and> kids T (p @ [t]) = [] then mset (ctxs T (p @ [t])) else {#})"
  by pat_completeness auto
termination
  by (relation "measure (\<lambda>(_, toks, _, _). length toks)") auto

declare visits.simps [simp del]

definition view_all :: "(token \<Rightarrow> slot multiset) \<Rightarrow> token list \<Rightarrow> slot multiset" where
  "view_all f ts = (\<Sum>t\<leftarrow>ts. f t)"

lemma view_all_simps [simp]:
  "view_all f [] = {#}" "view_all f (t # ts) = f t + view_all f ts" "view_all f (ts @ us) = view_all f ts + view_all f us"
  by (simp_all add: view_all_def)

abbreviation visits_all :: "subhier \<Rightarrow> token list \<Rightarrow> token list \<Rightarrow> token list \<Rightarrow> slot multiset" where
  "visits_all T toks p \<equiv> view_all (visits T toks p)"

lemma visits_takes:
  "takes toks t \<Longrightarrow> visits T toks p t =
     visits_all T (tl toks) (p @ [t]) (kids T (p @ [t])) + (if tl toks = [] then mset (ctxs T (p @ [t])) else {#})"
  by (subst visits.simps) (simp only: view_all_def if_True simp_thms)

lemma visits_not_takes:
  "\<not> takes toks t \<Longrightarrow> visits T toks p t = (if t = hash_tok \<and> kids T (p @ [t]) = [] then mset (ctxs T (p @ [t])) else {#})"
  by (subst visits.simps) (simp only: if_False)

lemma view_all_sub:
  assumes "mset ts \<subseteq># mset ts'"
  shows "view_all f ts \<subseteq># view_all f ts'"
proof -
  have eq: "view_all f ts = \<Sum>\<^sub># (image_mset f (mset ts))" for ts by (induction ts) simp_all
  obtain M where "mset ts' = mset ts + M" using assms by (auto simp: mset_subset_eq_exists_conv)
  then show ?thesis by (simp add: eq)
qed

text \<open>No node below a multi-level wildcard.\<close>

definition hash_leaf :: "subhier \<Rightarrow> bool" where
  "hash_leaf T \<longleftrightarrow> (\<forall>q. kids T (q @ [hash_tok]) = [])"

lemma grown_kids: "grown_root T T' \<Longrightarrow> prefix (kids T (p @ [t])) (kids T' (p @ [t]))"
  by (simp add: grown_root_def)

lemma grown_ctxs: "grown_root T T' \<Longrightarrow> mset (ctxs T p) \<subseteq># mset (ctxs T' p)"
  by (auto simp: grown_root_def prefix_def dest!: spec [of _ p])

lemma grown_extends: "grown_root T T' \<Longrightarrow> extends (kids T p) (kids T' p)"
  by (auto simp: grown_root_def extends_def dest!: spec [of _ p] split: if_splits)

lemma hash_leaf_before: "grown_root T T' \<Longrightarrow> hash_leaf T' \<Longrightarrow> hash_leaf T"
  unfolding hash_leaf_def using grown_kids by (metis prefix_bot.extremum_uniqueI)

lemma visits_mono:
  assumes "grown_root T T'" "hash_leaf T'"
  shows "visits T toks p t \<subseteq># visits T' toks p t"
proof (induction toks arbitrary: p t)
  case Nil
  then show ?case using assms hash_leaf_before [OF assms] grown_ctxs [OF assms(1)]
    by (simp add: visits_not_takes hash_leaf_def)
next
  case (Cons k toks)
  show ?case
  proof (cases "takes (k # toks) t")
    case True
    obtain zs where zs: "kids T' (p @ [t]) = kids T (p @ [t]) @ zs"
      using grown_kids [OF assms(1)] by (auto simp: prefix_def)
    have "visits_all T toks (p @ [t]) ts \<subseteq># visits_all T' toks (p @ [t]) ts" for ts
      by (induction ts) (auto intro: subset_mset.add_mono Cons.IH)
    moreover have "visits_all T' toks (p @ [t]) (kids T (p @ [t])) \<subseteq># visits_all T' toks (p @ [t]) (kids T' (p @ [t]))"
      by (rule view_all_sub) (simp add: zs)
    ultimately have "visits_all T toks (p @ [t]) (kids T (p @ [t])) \<subseteq># visits_all T' toks (p @ [t]) (kids T' (p @ [t]))"
      by (rule subset_mset.order_trans)
    with grown_ctxs [OF assms(1), of "p @ [t]"] show ?thesis
      unfolding visits_takes [OF True] by (auto intro: subset_mset.add_mono)
  next
    case False
    then show ?thesis using assms hash_leaf_before [OF assms] grown_ctxs [OF assms(1)]
      by (simp add: visits_not_takes hash_leaf_def)
  qed
qed

section \<open>Between the tree before and the tree after\<close>

lemma leaf_walk_later: "leaf_walk p j T D T' \<Longrightarrow> later T T'"
  by (induction rule: leaf_walk.induct) auto

lemma leaf_walk_between:
  "leaf_walk p j T D T' \<Longrightarrow> hier_ok T \<Longrightarrow>
    prefix (drop j (ctxs T p)) D \<and> prefix D (drop j (ctxs T' p))"
proof (induction rule: leaf_walk.induct)
  case (Leaf j T p T1 D T2)
  have g: "grown_root T T1" "hier_ok T1" using later_grown [OF Leaf.hyps(2) Leaf.prems] by simp_all
  have g2: "grown_root T T2"
    using g later_grown [OF leaf_walk_later [OF Leaf.hyps(3)] g(2)] grown_root_trans by blast
  obtain zs zs2 where z: "ctxs T1 p = ctxs T p @ zs" "ctxs T2 p = ctxs T p @ zs2"
    using g(1) g2 by (force simp: grown_root_def prefix_def)
  have d: "drop j (ctxs T p) = ctxs T p ! j # drop (j + 1) (ctxs T p)"
    using Leaf.hyps(1) by (simp add: Cons_nth_drop_Suc)
  have "drop (j + 1) (ctxs T1 p) = drop (j + 1) (ctxs T p) @ zs" "drop j (ctxs T2 p) = ctxs T p ! j # drop (j + 1) (ctxs T2 p)"
    using Leaf.hyps(1) d by (simp_all add: z)
  with Leaf.IH [OF g(2)] show ?case unfolding d by (auto dest: append_prefixD)
qed simp

lemma node_search_later: "node_search toks p cur T D T' \<Longrightarrow> later T T'"
  by (induction rule: node_search.induct)
    (auto split: if_splits dest!: leaf_walk_later intro: rtranclp_trans)

lemma next_kid_in: "next_kid T p t = Some u \<Longrightarrow> u \<in> set (kids T p)"
  by (simp add: next_kid_def after_in)

lemma onward_first: "onward (first_kid T p) (kids T p) = kids T p"
  by (simp add: first_kid_def onward_def split: list.splits)

text \<open>The first pointer, read before the children are searched.\<close>

lemma first_kid_in: "first_kid T p = Some u \<Longrightarrow> u \<in> set (kids T p)"
  by (auto simp: first_kid_def split: list.splits)

text \<open>
  What the search of a list of siblings relies on: a branch contributes more when the tree has
  grown.  Then the rest of the siblings contributes at least what it does in the tree in which
  the pointer was read, and at most what it does in the last tree.
\<close>

locale growing_view =
  fixes view :: "subhier \<Rightarrow> token \<Rightarrow> slot multiset"
  assumes view_mono: "grown_root T T' \<Longrightarrow> hash_leaf T' \<Longrightarrow> view T t \<subseteq># view T' t"
begin

lemma view_all_mono:
  assumes "grown_root T T'" "hash_leaf T'" "mset ts \<subseteq># mset ts'"
  shows "view_all (view T) ts \<subseteq># view_all (view T') ts'"
proof -
  have "view_all (view T) ts \<subseteq># view_all (view T') ts"
    by (induction ts) (auto intro: subset_mset.add_mono view_mono [OF assms(1,2)])
  then show ?thesis using view_all_sub [OF assms(3)] by (rule subset_mset.order_trans)
qed

lemma rest_of_siblings:
  assumes "grown_root T T1" "hier_ok T1" "hash_leaf T2" "t \<in> set (kids T p)"
    and "grown_root T1 T2" "hier_ok T2"
    and "view_all (view T1) (onward (next_kid T1 p t) (kids T1 p)) \<subseteq># mset D"
    and "mset D \<subseteq># view_all (view T2) (onward (next_kid T1 p t) (kids T2 p))"
    and "view T t \<subseteq># mset D0" "mset D0 \<subseteq># view T2 t"
  shows "view_all (view T) (onward (Some t) (kids T p)) \<subseteq># mset (D0 @ D)"
    "mset (D0 @ D) \<subseteq># view_all (view T2) (onward (Some t) (kids T2 p))"
proof -
  note d = kids_distinct [OF assms(2), of p] kids_distinct [OF assms(6), of p]
  note e = grown_extends [OF assms(1), of p] grown_extends [OF assms(5), of p]
  have t1: "t \<in> set (kids T1 p)" using e(1) assms(4) by (auto simp: extends_def dest: set_mono_prefix set_mono_suffix)
  have dT: "distinct (kids T p)" using e(1) d(1) by (auto simp: extends_def prefix_def suffix_def)
  have "mset (onward (Some t) (kids T p)) \<subseteq># mset (onward (Some t) (kids T1 p))"
    by (rule onward_extends(1) [OF e(1) assms(4) d(1)])
  then have "mset (onward (after t (kids T p)) (kids T p)) \<subseteq># mset (onward (next_kid T1 p t) (kids T1 p))"
    using onward_split [OF assms(4) dT] onward_split [OF t1 d(1)] by (simp add: next_kid_def)
  from view_all_mono [OF assms(1) hash_leaf_before [OF assms(5,3)] this]
  have "view_all (view T) (onward (after t (kids T p)) (kids T p)) \<subseteq># mset D"
    using assms(7) by (rule subset_mset.order_trans)
  then show "view_all (view T) (onward (Some t) (kids T p)) \<subseteq># mset (D0 @ D)"
    using assms(9) onward_split [OF assms(4) dT] by (simp add: subset_mset.add_mono)
  have "mset (D0 @ D) \<subseteq># view_all (view T2) (t # onward (after t (kids T1 p)) (kids T2 p))"
    using assms(8,10) by (simp add: next_kid_def subset_mset.add_mono)
  also have "\<dots> \<subseteq># view_all (view T2) (onward (Some t) (kids T2 p))"
    by (rule view_all_sub) (rule onward_extends(2) [OF e(2) t1 d(2)])
  finally show "mset (D0 @ D) \<subseteq># view_all (view T2) (onward (Some t) (kids T2 p))" .
qed

end

text \<open>The branches of a node, and those of the root.\<close>

interpretation node_view: growing_view "\<lambda>T. visits T toks p" for toks p
  by unfold_locales (rule visits_mono)

definition top_visits :: "token list \<Rightarrow> subhier \<Rightarrow> token \<Rightarrow> slot multiset" where
  "top_visits toks T t = (if t = hd toks then visits_all T toks [t] (kids T [t]) else {#})"

interpretation top_view: growing_view "top_visits toks" for toks
proof
  fix T T' t
  assume a: "grown_root T T'" "hash_leaf T'"
  have "mset (kids T [t]) \<subseteq># mset (kids T' [t])" using grown_kids [OF a(1), of "[]" t] by (auto simp: prefix_def)
  then show "top_visits toks T t \<subseteq># top_visits toks T' t"
    using node_view.view_all_mono [OF a, of "kids T [t]" "kids T' [t]" toks "[t]"] by (auto simp: top_visits_def)
qed

lemma leaves_between:
  assumes "leaf_walk p 0 T D T'" "hier_ok T" "grown_root T0 T" "grown_root T' T1"
  shows "mset (ctxs T0 p) \<subseteq># mset D" "mset D \<subseteq># mset (ctxs T1 p)"
proof -
  have "prefix (ctxs T p) D" "prefix D (ctxs T' p)" using leaf_walk_between [OF assms(1,2)] by simp_all
  then have "mset (ctxs T p) \<subseteq># mset D" "mset D \<subseteq># mset (ctxs T' p)" by (auto simp: prefix_def)
  with grown_ctxs [OF assms(3), of p] grown_ctxs [OF assms(4), of p]
  show "mset (ctxs T0 p) \<subseteq># mset D" "mset D \<subseteq># mset (ctxs T1 p)"
    by (blast intro: subset_mset.order_trans)+
qed

lemma kids_between:
  assumes "visits_all T toks p (onward (first_kid T p) (kids T p)) \<subseteq># mset D"
    "mset D \<subseteq># visits_all T' toks p (onward (first_kid T p) (kids T' p))"
    "grown_root T0 T" "grown_root T' T1" "hash_leaf T1" "hash_leaf T" "p \<noteq> []"
  shows "visits_all T0 toks p (kids T0 p) \<subseteq># mset D" "mset D \<subseteq># visits_all T1 toks p (kids T1 p)"
proof -
  have k: "mset (kids T0 p) \<subseteq># mset (kids T p)" "mset (kids T' p) \<subseteq># mset (kids T1 p)"
    using assms(3,4,7) by (auto simp: grown_root_def prefix_def dest!: spec [of _ p])
  show "visits_all T0 toks p (kids T0 p) \<subseteq># mset D"
    using node_view.view_all_mono [OF assms(3,6) k(1), of toks p] assms(1) unfolding onward_first
    by (rule subset_mset.order_trans)
  have "mset (onward (first_kid T p) (kids T' p)) \<subseteq># mset (kids T1 p)"
    using onward_set k(2) by (rule subset_mset.order_trans)
  from assms(2) node_view.view_all_mono [OF assms(4,5) this, of toks p]
  show "mset D \<subseteq># visits_all T1 toks p (kids T1 p)" by (rule subset_mset.order_trans)
qed

lemma grown_later: "later T T' \<Longrightarrow> hier_ok T \<Longrightarrow> grown_root T T'"
  and ok_later: "later T T' \<Longrightarrow> hier_ok T \<Longrightarrow> hier_ok T'"
  using later_grown by simp_all

text \<open>The visits at one node that takes the current token: those below it and those at it.\<close>

lemma matched_node:
  assumes "takes toks t" "hier_ok T" "hash_leaf T6"
    and l: "later T T1" "later T1 T2" "later T2 T3" "later T4 T6"
    and walk: "if tl toks = [] then leaf_walk (p @ [t]) 0 T3 D2 T4 else D2 = [] \<and> T4 = T3"
    and below: "visits_all T1 (tl toks) (p @ [t]) (onward (first_kid T1 (p @ [t])) (kids T1 (p @ [t]))) \<subseteq># mset D1"
      "mset D1 \<subseteq># visits_all T2 (tl toks) (p @ [t]) (onward (first_kid T1 (p @ [t])) (kids T2 (p @ [t])))"
  shows "visits T toks p t \<subseteq># mset (D1 @ D2)" "mset (D1 @ D2) \<subseteq># visits T6 toks p t"
proof -
  let ?q = "p @ [t]"
  have l34: "later T3 T4" using walk leaf_walk_later by (auto split: if_splits)
  note ok1 = ok_later [OF l(1) assms(2)] note ok2 = ok_later [OF l(2) ok1]
  note ok3 = ok_later [OF l(3) ok2] note ok4 = ok_later [OF l34 ok3]
  have l': "later T T3" "later T2 T6" "later T1 T6" using l l34 by (meson rtranclp_trans)+
  have leaf: "(if tl toks = [] then mset (ctxs T ?q) else {#}) \<subseteq># mset D2 \<and>
      mset D2 \<subseteq># (if tl toks = [] then mset (ctxs T6 ?q) else {#})"
    using walk leaves_between [of ?q T3 D2 T4 T T6] ok3 grown_later [OF l'(1) assms(2)] grown_later [OF l(4) ok4]
    by (auto split: if_splits)
  have "hash_leaf T1" using hash_leaf_before [OF grown_later [OF l'(3) ok1] assms(3)] .
  with below have "visits_all T (tl toks) ?q (kids T ?q) \<subseteq># mset D1 \<and> mset D1 \<subseteq># visits_all T6 (tl toks) ?q (kids T6 ?q)"
    using kids_between [of T1 "tl toks" ?q D1 T2 T T6] grown_later [OF l(1) assms(2)]
      grown_later [OF l'(2) ok2] assms(3) by simp
  with leaf show "visits T toks p t \<subseteq># mset (D1 @ D2)" "mset (D1 @ D2) \<subseteq># visits T6 toks p t"
    unfolding visits_takes [OF assms(1)] mset_append by (blast intro: subset_mset.add_mono)+
qed

lemma node_search_between:
  "node_search toks p cur T D T' \<Longrightarrow> hier_ok T \<Longrightarrow> hash_leaf T' \<Longrightarrow> (\<forall>t. cur = Some t \<longrightarrow> t \<in> set (kids T p)) \<Longrightarrow>
    visits_all T toks p (onward cur (kids T p)) \<subseteq># mset D \<and>
    mset D \<subseteq># visits_all T' toks p (onward cur (kids T' p))"
proof (induction rule: node_search.induct)
  case (Match toks t T T1 p D1 T2 T3 D2 T4 T5 D3 T6)
  have l34: "later T3 T4" using Match.hyps(5) leaf_walk_later by (auto split: if_splits)
  note l12 = node_search_later [OF Match.hyps(3)] and l56 = node_search_later [OF Match.hyps(7)]
  note ok1 = ok_later [OF Match.hyps(2) Match.prems(1)]
  have l: "later T T5" "later T2 T6" "later T4 T6"
    using Match.hyps(2,4,6) l12 l34 l56 by (meson rtranclp_trans)+
  note ok5 = ok_later [OF l(1) Match.prems(1)] note ok6 = ok_later [OF l56 ok5]
  have "hash_leaf T2" by (rule hash_leaf_before [OF grown_later [OF l(2) ok_later [OF l12 ok1]] Match.prems(2)])
  from Match.IH(1) [OF ok1 this] have
    below: "visits_all T1 (tl toks) (p @ [t]) (onward (first_kid T1 (p @ [t])) (kids T1 (p @ [t]))) \<subseteq># mset D1"
      "mset D1 \<subseteq># visits_all T2 (tl toks) (p @ [t]) (onward (first_kid T1 (p @ [t])) (kids T2 (p @ [t])))"
    using first_kid_in [of T1 "p @ [t]"] by simp_all
  note d0 = matched_node [OF Match.hyps(1) Match.prems(1,2) Match.hyps(2) l12 Match.hyps(4) l(3) Match.hyps(5) below]
  have "visits_all T5 toks p (onward (next_kid T5 p t) (kids T5 p)) \<subseteq># mset D3"
    "mset D3 \<subseteq># visits_all T6 toks p (onward (next_kid T5 p t) (kids T6 p))"
    using Match.IH(2) [OF ok5 Match.prems(2)] next_kid_in [of T5 p t] by simp_all
  from node_view.rest_of_siblings [OF grown_later [OF l(1) Match.prems(1)] ok5 Match.prems(2) _ grown_later [OF l56 ok5] ok6 this d0] Match.prems(3)
  show ?case by simp
next
  case (Hash toks t T T1 p T2 D1 T3 T4 D2 T5)
  let ?q = "p @ [t]"
  note l23 = leaf_walk_later [OF Hash.hyps(6)] and l45 = node_search_later [OF Hash.hyps(8)]
  note ok1 = ok_later [OF Hash.hyps(3) Hash.prems(1)] note ok2 = ok_later [OF Hash.hyps(5) ok1]
  note ok3 = ok_later [OF l23 ok2] note ok4 = ok_later [OF Hash.hyps(7) ok3] note ok5 = ok_later [OF l45 ok4]
  have l: "later T T2" "later T T4" "later T3 T5" "later T T5"
    using Hash.hyps(3,5,7) l23 l45 by (meson rtranclp_trans)+
  note g = l [THEN grown_later]
  have h: "kids T ?q = []" "kids T5 ?q = []"
    using Hash.prems(2) hash_leaf_before [OF g(4) [OF Hash.prems(1)] Hash.prems(2)] Hash.hyps(2) by (simp_all add: hash_leaf_def)
  have d0: "visits T toks p t \<subseteq># mset D1" "mset D1 \<subseteq># visits T5 toks p t"
    using leaves_between [OF Hash.hyps(6) ok2 g(1) [OF Hash.prems(1)] g(3) [OF ok3]] h Hash.hyps(2)
    unfolding visits_not_takes [OF Hash.hyps(1)] by simp_all
  have "visits_all T4 toks p (onward (next_kid T4 p t) (kids T4 p)) \<subseteq># mset D2"
    "mset D2 \<subseteq># visits_all T5 toks p (onward (next_kid T4 p t) (kids T5 p))"
    using Hash.IH [OF ok4 Hash.prems(2)] next_kid_in [of T4 p t] by simp_all
  from node_view.rest_of_siblings [OF g(2) [OF Hash.prems(1)] ok4 Hash.prems(2) _ grown_later [OF l45 ok4] ok5 this d0] Hash.prems(3)
  show ?case by simp
next
  case (Skip toks t T T1 p T2 D T3)
  let ?q = "p @ [t]"
  note l23 = node_search_later [OF Skip.hyps(5)]
  note ok1 = ok_later [OF Skip.hyps(2) Skip.prems(1)] note ok2 = ok_later [OF Skip.hyps(4) ok1]
  note ok3 = ok_later [OF l23 ok2]
  have l: "later T T2" "later T T3" "later T1 T3" using Skip.hyps(2,4) l23 by (meson rtranclp_trans)+
  note g = l [THEN grown_later]
  have "t \<noteq> hash_tok"
    using Skip.hyps(3) hash_leaf_before [OF g(3) [OF ok1] Skip.prems(2)] by (auto simp: hash_leaf_def)
  then have d0: "visits T toks p t \<subseteq># mset []" "mset [] \<subseteq># visits T3 toks p t"
    unfolding visits_not_takes [OF Skip.hyps(1)] by simp_all
  have "visits_all T2 toks p (onward (next_kid T2 p t) (kids T2 p)) \<subseteq># mset D"
    "mset D \<subseteq># visits_all T3 toks p (onward (next_kid T2 p t) (kids T3 p))"
    using Skip.IH [OF ok2 Skip.prems(2)] next_kid_in [of T2 p t] by simp_all
  from node_view.rest_of_siblings [OF g(1) [OF Skip.prems(1)] ok2 Skip.prems(2) _ grown_later [OF l23 ok2] ok3 this d0] Skip.prems(3)
  show ?case by simp
qed simp

lemma top_search_later: "top_search toks cur T D T' \<Longrightarrow> later T T'"
  by (induction rule: top_search.induct)
    (auto split: if_splits dest!: node_search_later intro: rtranclp_trans)

lemma top_search_between:
  "top_search toks cur T D T' \<Longrightarrow> hier_ok T \<Longrightarrow> hash_leaf T' \<Longrightarrow> (\<forall>t. cur = Some t \<longrightarrow> t \<in> set (kids T [])) \<Longrightarrow>
    view_all (top_visits toks T) (onward cur (kids T [])) \<subseteq># mset D \<and>
    mset D \<subseteq># view_all (top_visits toks T') (onward cur (kids T' []))"
proof (induction rule: top_search.induct)
  case (Top T T1 t toks D1 T2 T3 D2 T4)
  have l12: "later T1 T2" using Top.hyps(2) node_search_later by (auto split: if_splits)
  note l34 = top_search_later [OF Top.hyps(4)]
  note ok1 = ok_later [OF Top.hyps(1) Top.prems(1)] note ok2 = ok_later [OF l12 ok1]
  note ok3 = ok_later [OF Top.hyps(3) ok2] note ok4 = ok_later [OF l34 ok3]
  have l: "later T T3" "later T2 T4" "later T1 T4" using Top.hyps(1,3) l12 l34 by (meson rtranclp_trans)+
  note g = l [THEN grown_later]
  have h: "hash_leaf T1" "hash_leaf T2"
    using hash_leaf_before [OF g(3) [OF ok1] Top.prems(2)] hash_leaf_before [OF g(2) [OF ok2] Top.prems(2)] by simp_all
  have d0: "top_visits toks T t \<subseteq># mset D1 \<and> mset D1 \<subseteq># top_visits toks T4 t"
  proof (cases "t = hd toks")
    case True
    with Top.hyps(2) have s: "node_search toks [t] (first_kid T1 [t]) T1 D1 T2" by simp
    note node_search_between [OF s ok1 h(2)]
    then show ?thesis
      using kids_between [of T1 toks "[t]" D1 T2 T T4] first_kid_in [of T1 "[t]"]
        grown_later [OF Top.hyps(1) Top.prems(1)] g(2) [OF ok2] Top.prems(2) h(1) True by (simp add: top_visits_def)
  qed (use Top.hyps(2) in \<open>simp add: top_visits_def\<close>)
  have "view_all (top_visits toks T3) (onward (next_kid T3 [] t) (kids T3 [])) \<subseteq># mset D2"
    "mset D2 \<subseteq># view_all (top_visits toks T4) (onward (next_kid T3 [] t) (kids T4 []))"
    using Top.IH [OF ok3 Top.prems(2)] next_kid_in [of T3 "[]" t] by simp_all
  from top_view.rest_of_siblings [OF g(1) [OF Top.prems(1)] ok3 Top.prems(2) _ grown_later [OF l34 ok3] ok4 this] Top.prems(3) d0
  show ?case by simp
qed simp

end
