(* ===== verification/Tree_Publish.thy ===== *)
theory Tree_Publish
  imports Tree_Threads
begin

text \<open>
  A publish between other threads against the publish of \<open>Substree_Facts\<close>: what the search of
  one tree meets is what \<open>mqtt3_sub_tree_process\<close> delivers, the sequential publish is one of the
  concurrent runs, and every concurrent run meets the subscriptions that it must.
\<close>

section \<open>The search of one tree\<close>

lemma visits_shift:
  assumes "\<And>q. kids T (x # q) = kids h q" "\<And>q. ctxs T (x # q) = ctxs h q"
  shows "visits T toks (x # p) t = visits h toks p t"
proof (induction toks arbitrary: p t)
  case Nil
  then show ?case by (auto simp: visits_not_takes assms)
next
  case (Cons k toks)
  have "visits_all T toks (x # q) ts = visits_all h toks q ts" for q ts
    by (induction ts) (simp_all add: Cons.IH)
  then show ?case
    by (cases "takes (k # toks) t") (auto simp: visits_takes visits_not_takes assms)
qed

lemma child_at:
  assumes "hier_ok h" "b \<in> set (sh_children h)"
  shows "kids h (sh_topic b # q) = kids b q" "ctxs h (sh_topic b # q) = ctxs b q"
proof -
  have d: "distinct (map sh_topic (sh_children h))" using assms(1) by (cases h) simp
  have "sh_topic b \<in> sh_topic ` set (sh_children h)" using assms(2) by simp
  then show "kids h (sh_topic b # q) = kids b q" "ctxs h (sh_topic b # q) = ctxs b q"
    using branch_pos_unique [OF d assms(2)] by (simp_all add: kids.simps(2) ctxs_simps(2) Let_def)
qed

abbreviation contexts_of :: "(token list \<times> subleaf list) list \<Rightarrow> slot list" where
  "contexts_of nodes \<equiv> map l_context (concat (map snd nodes))"

lemma search_nodes_visits:
  "hier_ok h \<Longrightarrow> set bs \<subseteq> set (sh_children h) \<Longrightarrow>
    mset (contexts_of (search_nodes toks bs)) = visits_all h toks [] (map sh_topic bs)"
proof (induction toks bs arbitrary: h rule: search_nodes.induct)
  case (2 toks b bs)
  have b: "b \<in> set (sh_children h)" and ok: "hier_ok b" using 2(3,4) by (cases h, auto)+
  note c = child_at [OF 2(3) b]
  have rest: "mset (contexts_of (search_nodes toks bs)) = visits_all h toks [] (map sh_topic bs)"
    using 2(2) [OF 2(3)] 2(4) by simp
  have "mset (contexts_of (branch_nodes toks b)) = visits h toks [] (sh_topic b)"
  proof (cases "takes toks (sh_topic b)")
    case True
    have "visits_all h (tl toks) [sh_topic b] ts = visits_all b (tl toks) [] ts" for ts
      using visits_shift [of h "sh_topic b" b, OF c] by (induction ts) simp_all
    with True 2(1) [OF True ok] show ?thesis
      by (simp add: branch_nodes_def visits_takes c comp_def)
  next
    case False
    then show ?thesis using c(1) [of "[]"] c(2) [of "[]"] by (auto simp: branch_nodes_def visits_not_takes)
  qed
  with rest show ?case by (simp add: search_nodes_Cons del: search_nodes.simps(2))
qed simp

lemma delivered_visits:
  assumes "hier_ok (root bro)"
  shows "mset (contexts_of (delivered_nodes bro t)) =
    view_all (top_visits (topic_tokens t) (root bro)) (kids (root bro) [])"
proof -
  let ?toks = "topic_tokens t"
  have "mset (contexts_of (concat (map (\<lambda>h. if sh_topic h = hd ?toks
      then map (apfst ((#) (sh_topic h))) (search_nodes ?toks (sh_children h)) else []) hs))) =
    view_all (top_visits ?toks (root bro)) (map sh_topic hs)" if "set hs \<subseteq> set (subs_children bro)" for hs
    using that
  proof (induction hs)
    case (Cons h hs)
    have h: "h \<in> set (sh_children (root bro))" "hier_ok h" using Cons.prems assms by (auto simp: root_def)
    note c = child_at [OF assms h(1)]
    have "visits_all (root bro) ?toks [sh_topic h] ts = visits_all h ?toks [] ts" for ts
      using visits_shift [of "root bro" "sh_topic h" h, OF c] by (induction ts) simp_all
    with Cons search_nodes_visits [OF h(2) subset_refl, of ?toks] c(1) [of "[]"] show ?case
      by (auto simp: top_visits_def comp_def)
  qed simp
  from this [of "subs_children bro"] show ?thesis by (simp add: delivered_nodes_def Let_def root_def)
qed

lemma hash_ok_leaf: "hash_ok h \<Longrightarrow> kids h (q @ [hash_tok]) = []"
proof (induction q arbitrary: h)
  case Nil
  have "sh_children b = []" if "b \<in> set (sh_children h)" "sh_topic b = hash_tok" for b
    using Nil that hash_ok_iff [of h] hash_ok_iff [of b] by blast
  then show ?case using branch_pos_topic branch_pos_in by (simp add: kids.simps(2) Let_def)
next
  case (Cons t q)
  then have "\<forall>c \<in> set (sh_children h). hash_ok c" by (cases h) simp
  with Cons.IH show ?case by (simp add: kids.simps(2) Let_def branch_pos_in)
qed

section \<open>Without other threads\<close>

text \<open>The sequential search is one of the runs.\<close>

lemma leaf_walk_alone: "leaf_walk p j T (drop j (ctxs T p)) T"
proof (induction "length (ctxs T p) - j" arbitrary: j)
  case 0
  then show ?case using Leaf_null [of T p j] by simp
next
  case (Suc n)
  then have j: "j < length (ctxs T p)" "leaf_walk p (j + 1) T (drop (j + 1) (ctxs T p)) T" by simp_all
  then show ?case using Leaf [OF j(1) rtranclp.rtrancl_refl j(2)] by (simp add: Cons_nth_drop_Suc)
qed

definition first_of :: "subhier list \<Rightarrow> token option" where
  "first_of bs = (case bs of [] \<Rightarrow> None | b # _ \<Rightarrow> Some (sh_topic b))"

lemma first_of_kids: "kids T p = map sh_topic bs \<Longrightarrow> first_kid T p = first_of bs"
  by (cases bs) (simp_all add: first_kid_def first_of_def)

lemma next_of_kids:
  assumes "kids T p = map sh_topic (as @ b # bs)" "distinct (kids T p)"
  shows "next_kid T p (sh_topic b) = first_of bs"
proof -
  have "sh_topic b \<notin> set (map sh_topic as)" using assms by simp
  from after_front [OF this, of "map sh_topic (b # bs)"] show ?thesis
    using assms(1) by (cases bs) (simp_all add: next_kid_def first_of_def)
qed

text \<open>One node and what is below it, and then its siblings.\<close>

lemma node_alone:
  assumes "kids T (p @ [sh_topic b]) = map sh_topic (sh_children b)"
    and "ctxs T (p @ [sh_topic b]) = map l_context (sh_subs b)"
    and rest: "node_search toks p (next_kid T p (sh_topic b)) T E T"
    and sub: "takes toks (sh_topic b) \<Longrightarrow> node_search (tl toks) (p @ [sh_topic b]) (first_kid T (p @ [sh_topic b])) T
      (contexts_of (search_nodes (tl toks) (sh_children b))) T"
  shows "node_search toks p (Some (sh_topic b)) T (contexts_of (branch_nodes toks b) @ E) T"
proof -
  let ?t = "sh_topic b" let ?q = "p @ [sh_topic b]"
  note r = rtranclp.rtrancl_refl [of root_write T]
  have leaf: "leaf_walk ?q 0 T (map l_context (sh_subs b)) T"
    using leaf_walk_alone [of ?q 0 T] assms(2) by simp
  show ?thesis
  proof (cases "takes toks ?t")
    case True
    let ?D2 = "if tl toks = [] then map l_context (sh_subs b) else []"
    have "if tl toks = [] then leaf_walk ?q 0 T ?D2 T else ?D2 = [] \<and> T = T" using leaf by simp
    from Match [OF True r sub [OF True] r this r rest] show ?thesis
      using True by (simp add: branch_nodes_def comp_def split: if_splits)
  next
    case False
    show ?thesis
    proof (cases "?t = hash_tok \<and> sh_children b = []")
      case True
      then have "kids T ?q = []" using assms(1) by simp
      note run = Hash [OF False conjunct1 [OF True] r this r leaf r rest]
      have "contexts_of (branch_nodes toks b) = map l_context (sh_subs b)"
        using True False by (auto simp: branch_nodes_def)
      then show ?thesis using run by simp
    next
      case no: False
      then have "?t \<noteq> hash_tok \<or> kids T ?q \<noteq> []" using assms(1) by auto
      from Skip [OF False r this r rest] no False show ?thesis by (auto simp: branch_nodes_def)
    qed
  qed
qed

lemma node_search_alone:
  "hier_ok h \<Longrightarrow> (\<And>q. kids T (p @ q) = kids h q) \<Longrightarrow> (\<And>q. ctxs T (p @ q) = ctxs h q) \<Longrightarrow> suffix bs (sh_children h) \<Longrightarrow>
    node_search toks p (first_of bs) T (contexts_of (search_nodes toks bs)) T"
proof (induction toks bs arbitrary: h p rule: search_nodes.induct)
  case (1 toks)
  then show ?case by (simp add: first_of_def Null)
next
  case (2 toks b bs)
  let ?q = "p @ [sh_topic b]"
  obtain as where as: "sh_children h = as @ b # bs" using 2(6) by (auto simp: suffix_def)
  have b: "b \<in> set (sh_children h)" "hier_ok b" using 2(3) as by (cases h, auto)+
  have at: "kids T (?q @ r) = kids b r" "ctxs T (?q @ r) = ctxs b r" for r
    using child_at [OF 2(3) b(1), of r] 2(4,5) [of "sh_topic b # r"] by simp_all
  have k: "kids T p = map sh_topic (as @ b # bs)" using 2(4) [of "[]"] as by simp
  have "distinct (kids T p)" using kids_distinct [OF 2(3), of "[]"] 2(4) [of "[]"] by simp
  note nx = next_of_kids [OF k this]
  have "suffix bs (sh_children h)" using as by (auto simp: suffix_def)
  from 2(2) [OF 2(3-5) this] have
    rest: "node_search toks p (next_kid T p (sh_topic b)) T (contexts_of (search_nodes toks bs)) T" unfolding nx .
  have kid: "first_kid T ?q = first_of (sh_children b)" "kids T ?q = map sh_topic (sh_children b)"
    "ctxs T ?q = map l_context (sh_subs b)"
    using at [of "[]"] first_of_kids by simp_all
  have sub: "node_search (tl toks) ?q (first_kid T ?q) T (contexts_of (search_nodes (tl toks) (sh_children b))) T"
    if "takes toks (sh_topic b)"
    unfolding kid(1) by (rule 2(1) [OF that b(2)]) (use at in simp_all)
  show ?case
    using node_alone [OF kid(2,3) rest sub] by (simp add: first_of_def search_nodes_Cons del: search_nodes.simps)
qed

lemma top_search_alone:
  assumes "hier_ok T" "suffix hs (sh_children T)"
  shows "top_search toks (first_of hs) T (contexts_of (concat (map (\<lambda>h. if sh_topic h = hd toks
      then map (apfst ((#) (sh_topic h))) (search_nodes toks (sh_children h)) else []) hs))) T"
  using assms(2)
proof (induction hs)
  case Nil
  then show ?case by (simp add: first_of_def Top_null)
next
  case (Cons h hs)
  obtain as where as: "sh_children T = as @ h # hs" using Cons.prems by (auto simp: suffix_def)
  have h: "h \<in> set (sh_children T)" "hier_ok h" using assms(1) as by (cases T, auto)+
  note at = child_at [OF assms(1) h(1)]
  have "kids T [] = map sh_topic (as @ h # hs)" using as by simp
  note nx = next_of_kids [OF this kids_distinct [OF assms(1)]]
  have "suffix hs (sh_children T)" using as by (auto simp: suffix_def)
  note rest = Cons.IH [OF this, folded nx]
  note r = rtranclp.rtrancl_refl [of root_write T]
  let ?D = "if sh_topic h = hd toks then contexts_of (search_nodes toks (sh_children h)) else []"
  have kid: "first_kid T [sh_topic h] = first_of (sh_children h)" using at(1) [of "[]"] first_of_kids by simp
  have sub: "node_search toks [sh_topic h] (first_kid T [sh_topic h]) T (contexts_of (search_nodes toks (sh_children h))) T"
    unfolding kid by (rule node_search_alone [OF h(2)]) (simp_all add: at)
  then have "if sh_topic h = hd toks then node_search toks [sh_topic h] (first_kid T [sh_topic h]) T ?D T else ?D = [] \<and> T = T"
    by (cases "sh_topic h = hd toks") (simp_all only: if_True if_False simp_thms)
  from Top [OF r this r rest] show ?case by (simp add: first_of_def comp_def split: if_splits)
qed

lemma publish_alone:
  "hier_ok (root bro) \<Longrightarrow> concurrent_publish t (root bro) (contexts_of (delivered_nodes bro t)) (root bro)"
  using top_search_alone [of "root bro" "subs_children bro" "topic_tokens t"] first_of_kids [of "root bro" "[]" "subs_children bro"]
  by (auto simp: concurrent_publish_def delivered_nodes_def Let_def root_def intro!: exI [of _ "Subhier [] [] (subs_children bro)"])

section \<open>The property\<close>



end
