(* ===== verification/Dumps.thy ===== *)
theory Dumps
  imports Parser_Facts Broker_Types Printing
begin

text \<open>
  The debugging output of \<open>broker/mqtt.c\<close> and \<open>broker/substree.c\<close>, as the bytes that it prints:
  the texts of the errors, a buffer and a message of the parser, and the subscription tree.
  A dump that would read outside a buffer is \<^const>\<open>Fault\<close>; one of a parsed message never does,
  and the dump of a buffer tells its content.
\<close>

section \<open>Errors\<close>

fun mqtt_error_string :: "mqtt_error \<Rightarrow> string option" where
  "mqtt_error_string MQTT_ERROR_NONE = None"
| "mqtt_error_string MQTT_ERROR_PARSER_INVALID_STATE = Some ''[parser] left in an invalid state''"
| "mqtt_error_string MQTT_ERROR_PARSER_INVALID_REMAINING_LENGTH = Some ''[parser] remaining length field was invalid''"
| "mqtt_error_string MQTT_ERROR_PARSER_INVALID_MESSAGE_ID = Some ''[parser] message id was invalid''"
| "mqtt_error_string MQTT_ERROR_SERIALISER_INVALID_MESSAGE_ID = Some ''[serialiser] message if was invalid''"

section \<open>Buffers\<close>

text \<open>Lengths are printed with \<open>%d\<close>, as signed numbers; the loops count with an \<open>int\<close>.\<close>

definition mqtt_buffer_dump_ascii :: "mqtt_buffer \<Rightarrow> u8 list outcome" where
  "mqtt_buffer_dump_ascii b =
     (case mem_read (bdata b) (unat (blen b)) of None \<Rightarrow> Fault | Some bs \<Rightarrow> Ok bs)"

definition mqtt_buffer_dump_hex :: "mqtt_buffer \<Rightarrow> u8 list outcome" where
  "mqtt_buffer_dump_hex b =
     (case mem_read (bdata b) (unat (blen b)) of None \<Rightarrow> Fault
      | Some bs \<Rightarrow> Ok (concat (map (\<lambda>x. printf_02x x @ ascii '' '') bs)))"

definition unprintable :: "u8 \<Rightarrow> bool" where
  "unprintable x \<longleftrightarrow> x < 0x20 \<or> 0x7e < x"

text \<open>The search for a byte that cannot be printed stops at the first one.\<close>

fun hex_search :: "mqtt_buffer \<Rightarrow> nat \<Rightarrow> nat \<Rightarrow> bool outcome" where
  "hex_search b i 0 = Ok False"
| "hex_search b i (Suc n) =
     (case rd (case bdata b of None \<Rightarrow> [] | Some bs \<Rightarrow> bs) i of
        None \<Rightarrow> Fault
      | Some x \<Rightarrow> if unprintable x then Ok True else hex_search b (i + 1) n)"

definition mqtt_buffer_dump :: "mqtt_buffer \<Rightarrow> u8 list outcome" where
  "mqtt_buffer_dump b =
     obind (hex_search b 0 (unat (blen b))) (\<lambda>hex.
     obind (if hex then mqtt_buffer_dump_hex b else mqtt_buffer_dump_ascii b) (\<lambda>s.
       Ok (ascii ''['' @ printf_d (sint (blen b)) @ ascii ''] '' @ s)))"

section \<open>Messages\<close>

abbreviation (input) newline :: "u8 list" where "newline \<equiv> [10]"

fun print_all :: "u8 list outcome list \<Rightarrow> u8 list outcome" where
  "print_all [] = Ok []"
| "print_all (x # xs) = obind x (\<lambda>s. obind (print_all xs) (\<lambda>r. Ok (s @ r)))"

definition field_line :: "string \<Rightarrow> u8 list \<Rightarrow> u8 list outcome" where
  "field_line label s = Ok (ascii label @ s @ newline)"

definition buffer_line :: "string \<Rightarrow> mqtt_buffer \<Rightarrow> u8 list outcome" where
  "buffer_line label b = print_all [Ok (ascii label), mqtt_buffer_dump b, Ok newline]"

definition truth :: "bool \<Rightarrow> u8 list" where
  "truth b = (if b then ascii ''true'' else ascii ''false'')"

definition mqtt_message_dump :: "mqtt_message \<Rightarrow> u8 list outcome" where
  "mqtt_message_dump m = (let c = m_connect m; f = flags c in print_all (
     [field_line ''message'' [],
      field_line ''  type:              '' (printf_d (sint (m_type m))),
      field_line ''  qos:               '' (printf_d (sint (m_qos m))),
      field_line ''  dup:               '' (truth (m_dup m \<noteq> 0)),
      field_line ''  retain:            '' (truth (m_retain m \<noteq> 0))] @
     (if m_type m = MQTT_TYPE_CONNECT then
       [buffer_line ''  protocol name:     '' (protocol_name c),
        field_line ''  protocol version:  '' (printf_d (int (unat (protocol_version c)))),
        field_line ''  has username:      '' (truth (username_follows f \<noteq> 0)),
        field_line ''  has password:      '' (truth (password_follows f \<noteq> 0)),
        field_line ''  has will:          '' (truth (will f \<noteq> 0)),
        field_line ''  will qos:          '' (printf_d (sint (will_qos f))),
        field_line ''  retains will:      '' (truth (will_retain f \<noteq> 0)),
        field_line ''  clean session:     '' (truth (clean_session f \<noteq> 0)),
        field_line ''  keep alive:        '' (printf_d (int (unat (keep_alive c)))),
        buffer_line ''  client id:         '' (client_id c),
        buffer_line ''  will topic:        '' (will_topic c),
        buffer_line ''  will message:      '' (will_message c),
        buffer_line ''  username:          '' (username c),
        buffer_line ''  password:          '' (password c)]
      else [])))"

section \<open>The log\<close>

text \<open>
  \<open>write_log\<close> formats into an array on its stack before it prints; \<open>text\<close> is what \<open>vsprintf\<close> makes
  of the format and its arguments.  The format of \<open>print_hex\<close> holds no conversion.
\<close>

datatype log_level = ll_error | ll_info | ll_verbose

definition LOG_SIZE :: nat where
  "LOG_SIZE = 1048 * 1048"

definition write_log :: "log_level \<Rightarrow> u8 list \<Rightarrow> u8 list outcome" where
  "write_log ll text =
     (if LOG_SIZE \<le> length text then Fault
      else Ok ((case ll of ll_info \<Rightarrow> ascii ''info: '' | ll_verbose \<Rightarrow> ascii ''debug: ''
                         | ll_error \<Rightarrow> ascii ''error: '') @ text @ newline))"

definition hex_item :: "nat \<Rightarrow> u8 \<Rightarrow> u8 list" where
  "hex_item i x = ascii '' ['' @ printf_d (int i) @ ascii '']'' @ printf_02x x"

fun print_hex_loop :: "u8 list \<Rightarrow> nat \<Rightarrow> nat \<Rightarrow> u8 list \<Rightarrow> u8 list outcome" where
  "print_hex_loop msg i 0 buff = Ok buff"
| "print_hex_loop msg i (Suc n) buff =
     (case rd msg i of None \<Rightarrow> Fault
      | Some x \<Rightarrow>
          let ch = hex_item i x in
          if 32 \<le> length ch \<or> LOG_SIZE \<le> length (buff @ ch) then Fault
          else print_hex_loop msg (i + 1) n (buff @ ch))"

definition print_hex :: "bool \<Rightarrow> u8 list \<Rightarrow> int \<Rightarrow> u8 list outcome" where
  "print_hex is_received msg msg_len =
     obind (print_hex_loop msg 0 (nat msg_len)
              (if is_received then ascii ''received <<<'' else ascii ''sent >>>''))
       (write_log ll_verbose)"

section \<open>The subscription tree\<close>

text \<open>
  Every leaf has a client.  The field \<open>retained\<close> of a node is never set: it is null in the nodes
  that \<open>calloc\<close> makes and any value in those that \<open>malloc\<close> makes, so that whether it is null is
  an input, by the path of the node from the root.
\<close>

definition print_leaf :: "(slot \<Rightarrow> client) \<Rightarrow> subleaf \<Rightarrow> u8 list" where
  "print_leaf st l = ascii '' ('' @ cstr (cid (st (l_context l))) @ ascii '', '' @ printf_d (l_qos l) @ ascii '')''"

fun mqtt3_sub_tree_print :: "(slot \<Rightarrow> client) \<Rightarrow> (token list \<Rightarrow> bool) \<Rightarrow> subhier \<Rightarrow> nat \<Rightarrow> u8 list" where
  "mqtt3_sub_tree_print st retained (Subhier t ls bs) level =
     replicate (level * 2) 32 @ t @ concat (map (print_leaf st) ls) @
     (if retained [] then ascii '' (r)'' else []) @ newline @
     concat (map (\<lambda>b. mqtt3_sub_tree_print st (\<lambda>p. retained (sh_topic b # p)) b (level + 1)) bs)"

section \<open>Dumping a parsed message\<close>

lemma mem_read_rd:
  assumes "mem_read p n = Some bs" "i < n"
  shows "rd (case p of None \<Rightarrow> [] | Some xs \<Rightarrow> xs) i = Some (bs ! i)"
  using assms by (auto simp: mem_read_def rd_def split: option.splits if_splits)

lemma hex_search_run:
  assumes "buf_str b = Some s" "i + n = unat (blen b)"
  shows "hex_search b i n = Ok (\<exists>x \<in> set (drop i s). unprintable x)"
  using assms(2)
proof (induction n arbitrary: i)
  case 0
  have "length s = unat (blen b)" using assms(1) by (auto simp: buf_str_def dest: mem_read_length)
  with 0 show ?case by simp
next
  case (Suc n)
  have l: "length s = unat (blen b)" using assms(1) by (auto simp: buf_str_def dest: mem_read_length)
  then have "drop i s = s ! i # drop (i + 1) s" using Suc.prems by (simp add: Cons_nth_drop_Suc)
  moreover have "rd (case bdata b of None \<Rightarrow> [] | Some bs \<Rightarrow> bs) i = Some (s ! i)"
    using mem_read_rd [of "bdata b" "unat (blen b)" s i] assms(1) Suc.prems by (simp add: buf_str_def)
  ultimately show ?case using Suc.IH [of "i + 1"] Suc.prems by simp
qed

lemma buffer_dump_run:
  assumes "buf_str b = Some s"
  shows "mqtt_buffer_dump b = Ok (ascii ''['' @ printf_d (sint (blen b)) @ ascii ''] '' @
    (if \<exists>x \<in> set s. unprintable x then concat (map (\<lambda>x. printf_02x x @ ascii '' '') s) else s))"
  using hex_search_run [OF assms, of 0 "unat (blen b)"] assms
  by (simp add: mqtt_buffer_dump_def mqtt_buffer_dump_hex_def mqtt_buffer_dump_ascii_def buf_str_def)

lemma print_all_ok: "print_all xs \<noteq> Fault \<and> print_all xs \<noteq> Blocked \<longleftrightarrow> list_all (\<lambda>x. x \<noteq> Fault \<and> x \<noteq> Blocked) xs"
proof (induction xs)
  case (Cons x xs)
  then show ?case by (cases x; cases "print_all xs") auto
qed simp

lemma outcome_ok: "(\<exists>s. x = Ok s) \<longleftrightarrow> x \<noteq> Fault \<and> x \<noteq> Blocked"
  by (cases x) auto

text \<open>The dump of a message, as the parser leaves it, never reads outside its buffers.\<close>

lemma message_dump_inside:
  assumes "msg_bufs_ok m"
  shows "\<exists>s. mqtt_message_dump m = Ok s"
proof -
  have b: "buffer_line label b \<noteq> Fault \<and> buffer_line label b \<noteq> Blocked" if "buf_str b \<noteq> None" for label b
    using that buffer_dump_run by (auto simp: buffer_line_def)
  have "field_line label s \<noteq> Fault \<and> field_line label s \<noteq> Blocked" for label s by (simp add: field_line_def)
  then show ?thesis
    using assms b unfolding mqtt_message_dump_def Let_def outcome_ok print_all_ok
    by (simp add: msg_bufs_ok_def connect_bufs_ok_def)
qed

text \<open>The dump of a buffer tells its content: two buffers with the same dump hold the same bytes.\<close>

lemma is_digit_93: "\<not> is_digit 93"
  by (simp add: is_digit_def)

lemma printf_d_no_bracket: "93 \<notin> set (printf_d n)"
proof -
  have "list_all is_digit (decimal k)" for k using decimal_digits by blast
  then have "x \<in> set (decimal k) \<Longrightarrow> is_digit x" for x k by (auto simp: list_all_iff)
  then have "93 \<notin> set (decimal k)" for k by (metis is_digit_93)
  then show ?thesis by (simp add: printf_d_def ascii_def)
qed

lemma before_bracket: "93 \<notin> set (xs :: u8 list) \<Longrightarrow> 93 \<notin> set ys \<Longrightarrow> xs @ 93 # r = ys @ 93 # t \<longleftrightarrow> xs = ys \<and> r = t"
  by (auto simp: append_eq_append_conv2 append_eq_Cons_conv Cons_eq_append_conv)

lemma printf_d_inj: "printf_d m = printf_d n \<longleftrightarrow> m = n"
proof -
  have "decimal k \<noteq> 45 # r" for k r
    using decimal_digits [of k] by (auto simp: is_digit_def)
  then show ?thesis by (auto simp: printf_d_def ascii_def inj_decimal dest: not_sym)
qed

lemma hex_text_inj: "concat (map (\<lambda>x. printf_02x x @ ascii '' '') s) = concat (map (\<lambda>x. printf_02x x @ ascii '' '') t) \<longleftrightarrow> s = t"
proof (induction s arbitrary: t)
  case (Cons x s)
  then show ?case by (cases t) (use printf_02x_inj in \<open>auto simp: printf_02x_def\<close>)
qed (case_tac t, auto simp: printf_02x_def)

lemma hex_text_length: "length (concat (map (\<lambda>x. printf_02x x @ ascii '' '') s)) = 3 * length s"
  by (induction s) (simp_all add: printf_02x_def ascii_def)

definition byte_text :: "u8 list \<Rightarrow> u8 list" where
  "byte_text s = (if \<exists>x \<in> set s. unprintable x then concat (map (\<lambda>x. printf_02x x @ ascii '' '') s) else s)"

lemma byte_text_length:
  "length (byte_text s) = (if \<exists>x \<in> set s. unprintable x then 3 * length s else length s)"
  unfolding byte_text_def by (cases "\<exists>x \<in> set s. unprintable x") (simp_all only: hex_text_length if_True if_False)

lemma byte_text_inj:
  assumes "length s = length t" "byte_text s = byte_text t"
  shows "s = t"
proof (cases "(\<exists>x \<in> set s. unprintable x) = (\<exists>x \<in> set t. unprintable x)")
  case True
  with assms(2) show ?thesis by (simp add: byte_text_def hex_text_inj split: if_splits)
next
  case False
  have "length (byte_text s) = length (byte_text t)" by (simp only: assms(2))
  with False assms(1) show ?thesis unfolding byte_text_length by (simp split: if_splits)
qed

lemma buffer_dump_injective:
  assumes "buf_str a = Some s" "buf_str b = Some t" "mqtt_buffer_dump a = mqtt_buffer_dump b"
  shows "s = t"
proof -
  have l: "length s = unat (blen a)" "length t = unat (blen b)"
    using assms(1,2) by (auto simp: buf_str_def dest: mem_read_length)
  have "printf_d (sint (blen a)) @ 93 # 32 # byte_text s = printf_d (sint (blen b)) @ 93 # 32 # byte_text t"
    using assms(3) buffer_dump_run [OF assms(1)] buffer_dump_run [OF assms(2)]
    by (simp add: ascii_def byte_text_def [symmetric])
  then have e: "printf_d (sint (blen a)) = printf_d (sint (blen b)) \<and> 32 # byte_text s = 32 # byte_text t"
    by (rule iffD1 [OF before_bracket [OF printf_d_no_bracket printf_d_no_bracket]])
  then have "sint (blen a) = sint (blen b)" by (simp only: printf_d_inj)
  then have "blen a = blen b" by (rule signed_word_eqI)
  with l have "length s = length t" by simp
  then show ?thesis by (rule byte_text_inj) (use e in simp)
qed

section \<open>The log of a packet\<close>

lemma length_decimal: "n < 10 ^ k \<Longrightarrow> 0 < k \<Longrightarrow> length (decimal n) \<le> k"
proof (induction n arbitrary: k rule: decimal.induct)
  case (1 n)
  show ?case
  proof (cases "n < 10")
    case True
    then show ?thesis using 1(3) by (subst decimal.simps) simp
  next
    case False
    with 1(2) obtain j where k: "k = Suc j" "0 < j" by (cases k; cases "k - 1") auto
    with 1(2) have "n div 10 < 10 ^ j" by (simp add: less_mult_imp_div_less)
    from 1(1) [OF False this k(2)] show ?thesis using False k(1) by (subst decimal.simps) simp
  qed
qed

lemma length_hex_item: "i < 100000 \<Longrightarrow> length (hex_item i x) \<le> 10"
  using length_decimal [of i 5] by (simp add: hex_item_def printf_d_def printf_02x_def ascii_def)

lemma print_hex_loop_run:
  assumes "i + n \<le> length msg" "i + n \<le> 100000" "length buff \<le> 12 + 10 * i"
  shows "print_hex_loop msg i n buff = Ok (buff @ concat (map (\<lambda>j. hex_item j (msg ! j)) [i..<i + n]))"
  using assms
proof (induction n arbitrary: i buff)
  case (Suc n)
  have l: "length (hex_item i (msg ! i)) \<le> 10" using Suc.prems by (intro length_hex_item) simp
  then have "length (buff @ hex_item i (msg ! i)) < LOG_SIZE" "length (hex_item i (msg ! i)) < 32"
    using Suc.prems by (simp_all add: LOG_SIZE_def)
  moreover have "[i..<i + Suc n] = i # [i + 1..<i + 1 + n]" by (simp add: upt_conv_Cons del: upt_Suc)
  ultimately show ?case
    using Suc.IH [of "i + 1" "buff @ hex_item i (msg ! i)"] Suc.prems l by (simp add: rd_def Let_def)
qed simp

text \<open>Up to 100000 bytes of a packet fit into the arrays of the log, and all of them are printed.\<close>

lemma print_hex_run:
  assumes "n \<le> length msg" "n \<le> 100000"
  shows "print_hex r msg (int n) = Ok (ascii ''debug: '' @
    (if r then ascii ''received <<<'' else ascii ''sent >>>'') @
    concat (map (\<lambda>j. hex_item j (msg ! j)) [0..<n]) @ newline)"
proof -
  let ?head = "if r then ascii ''received <<<'' else ascii ''sent >>>''"
  have h: "length ?head \<le> 12" by (simp add: ascii_def)
  have "length (concat (map (\<lambda>j. hex_item j (msg ! j)) [0..<m])) \<le> 10 * m" if "m \<le> 100000" for m
    using that
  proof (induction m)
    case (Suc m)
    have "length (hex_item m (msg ! m)) \<le> 10" using Suc.prems by (intro length_hex_item) simp
    with Suc show ?case by simp
  qed simp
  from this [OF assms(2)] h assms(2)
  have "length (?head @ concat (map (\<lambda>j. hex_item j (msg ! j)) [0..<n])) < LOG_SIZE"
    unfolding length_append LOG_SIZE_def by simp
  then show ?thesis
    using print_hex_loop_run [of 0 n msg ?head] assms h
    by (simp only: print_hex_def nat_int) (simp add: write_log_def)
qed

end
