(* ===== verification/Sockop.thy ===== *)
theory Sockop
  imports Printing
begin

text \<open>
  The little program \<open>broker/getsockop.c\<close>, which prints the options of a fresh socket.  The
  kernel's answer for a level and an option is an input, \<^const>\<open>None\<close> being a failure, after
  which the variable keeps what it holds.  The numbers are those of Linux.
\<close>

abbreviation (input) SOL_SOCKET :: int where "SOL_SOCKET \<equiv> 1"
abbreviation (input) SO_DEBUG :: int where "SO_DEBUG \<equiv> 1"
abbreviation (input) SO_TYPE :: int where "SO_TYPE \<equiv> 3"
abbreviation (input) SO_SNDBUF :: int where "SO_SNDBUF \<equiv> 7"
abbreviation (input) SO_RCVBUF :: int where "SO_RCVBUF \<equiv> 8"
abbreviation (input) TCP_NODELAY :: int where "TCP_NODELAY \<equiv> 1"
abbreviation (input) TCP_CORK :: int where "TCP_CORK \<equiv> 3"

fun option_lines :: "(int \<Rightarrow> int \<Rightarrow> int option) \<Rightarrow> (string \<times> int) list \<Rightarrow> int \<Rightarrow> u8 list" where
  "option_lines getopt [] sendbuff = []"
| "option_lines getopt ((label, opt) # rest) sendbuff =
     (let sendbuff = (case getopt SOL_SOCKET opt of None \<Rightarrow> sendbuff | Some v \<Rightarrow> v)
      in ascii label @ printf_d sendbuff @ [10] @ option_lines getopt rest sendbuff)"

definition getsockop_main :: "int \<Rightarrow> (int \<Rightarrow> int \<Rightarrow> int option) \<Rightarrow> int \<Rightarrow> u8 list" where
  "getsockop_main sockfd getopt junk =
     (if sockfd = - 1 then ascii ''Error'' else []) @
     option_lines getopt
       [(''snd buffer size = '', SO_SNDBUF), (''rcv buffer size = '', SO_RCVBUF),
        (''TCP NO DELAY = '', TCP_NODELAY), (''TCP CROK = '', TCP_CORK)] junk"

text \<open>
  Every option is asked for at the level of sockets.  The two options of TCP have numbers of
  their own level, so that what is printed for them is whether debugging is on and the type of
  the socket.
\<close>

lemma tcp_options_ignored:
  assumes "\<forall>opt. f SOL_SOCKET opt = g SOL_SOCKET opt"
  shows "getsockop_main sockfd f junk = getsockop_main sockfd g junk"
proof -
  have "option_lines f opts b = option_lines g opts b" for opts b
    using assms by (induction f opts b rule: option_lines.induct) (simp_all add: Let_def)
  then show ?thesis unfolding getsockop_main_def by (simp only:)
qed

lemma type_printed_as_cork:
  assumes "f SOL_SOCKET SO_SNDBUF = Some s" "f SOL_SOCKET SO_RCVBUF = Some r"
    "f SOL_SOCKET SO_DEBUG = Some d" "f SOL_SOCKET SO_TYPE = Some t" "sockfd \<noteq> - 1"
  shows "getsockop_main sockfd f junk =
    ascii ''snd buffer size = '' @ printf_d s @ [10] @ ascii ''rcv buffer size = '' @ printf_d r @ [10] @
    ascii ''TCP NO DELAY = '' @ printf_d d @ [10] @ ascii ''TCP CROK = '' @ printf_d t @ [10]"
  using assms by (simp add: getsockop_main_def)

end
