(* ===== verification/Spec2Isabelle.thy ===== *)
theory Spec2Isabelle
  imports Threads_Delivery Threads_Safety Tool_Properties Queue_Threads Tree_Publish Dumps Sockop
begin

text \<open>
  A model of the mumq MQTT broker (\<open>broker/\<close>) and of its two load generators (\<open>tools/\<close>), and what
  makes them correct.

  The broker.  One thread per core runs \<open>loop_run\<close> (\<open>event_io.c\<close>): it accepts connections, reads
  packets with \<open>loop_read\<close>, parses them (\<open>mqtt.c\<close>), handles them (\<open>hand_mqtt.c\<close>) and sends the
  packets that wait in the queues of its clients.  Subscriptions stand in one tree for all
  threads (\<open>substree.c\<close>); publishing walks the tree and puts a packet into the queue of every
  subscriber found.  A client is the slot of its socket in one array (\<open>broker.c\<close>); the clients of
  a thread are also the items of a hash table (\<open>uthash.h\<close>), which the sending part walks.

  The tools.  \<open>epsub.c\<close> opens connections that subscribe and count messages, \<open>eppub.c\<close> opens
  connections that publish; each runs a thread per core over its share of the connections.

  Theories and code of the broker:
  \<^item> \<open>Mumq_Prelude\<close>: machine integers, reads inside an object, C strings, the outcomes of
    \<open>malloc\<close>, the outcome type with memory faults and blocking.
  \<^item> \<open>Utility\<close>: the topic checks of \<open>utility.c\<close> against the syntax of MQTT 3.1.1.
  \<^item> \<open>Mqtt_Types\<close>, \<open>Mqtt_Parser\<close>, \<open>Wire_Format\<close>, \<open>Parser_Facts\<close>: \<open>mqtt.h\<close> and the parser of
    \<open>mqtt.c\<close>; what it decodes, that it stays inside the packet, when it returns.
  \<^item> \<open>Mqtt_Serialiser\<close>, \<open>Serialiser_Facts\<close>: the serialiser of \<open>mqtt.c\<close>; its bounds and the round
    trips with the parser.
  \<^item> \<open>Broker_Types\<close>: the structures of \<open>client.h\<close>, \<open>substree.h\<close>, \<open>event_io.h\<close> and \<open>broker.h\<close>,
    and \<open>init_database\<close>.
  \<^item> \<open>Substree\<close>, \<open>Token_Facts\<close>, \<open>Tree_Facts\<close>, \<open>Substree_Facts\<close>: the subscription tree as a map
    from filters to subscriptions, and publishing as delivery to the matching filters.
  \<^item> \<open>Client_Queue\<close>: the linked packet queue of a client as a first-in first-out queue, and the
    sending loop.
  \<^item> \<open>Hand_Mqtt\<close>, \<open>Hand_Mqtt_Facts\<close>: the handlers, composed of the parts above.
  \<^item> \<open>Event_Io\<close>, \<open>Event_Io_Facts\<close>: \<open>loop_read\<close>, the assembly of a packet from the pieces that the
    socket delivers, and the way of a packet from the socket through parser and handler.
  \<^item> \<open>Uthash\<close>, \<open>Uthash_Facts\<close>, \<open>Uthash_Table\<close>: the hash table of \<open>uthash.h\<close> on a heap of linked
    handles, as an ordered list of items; the locale \<open>ordered_table\<close> is what the broker relies on.
  \<^item> \<open>Event_Loop\<close>, \<open>Event_Loop_Frame\<close>, \<open>Event_Loop_Facts\<close>, \<open>Event_Loop_Properties\<close>,
    \<open>Event_Loop_Safety\<close>: \<open>loop_run\<close> with \<open>clean_context\<close> and \<open>remove_client\<close>; what reading, handling
    and sending leave alone (the locales \<open>collect_frame\<close>, \<open>client_frame\<close>, \<open>sending_frame\<close>), the
    clients of a thread as the items of its table, what a pass of the loop sends, and that every
    event stays inside the memory of the broker.
  \<^item> \<open>Threads\<close>, \<open>Threads_Facts\<close>, \<open>Threads_Delivery\<close>, \<open>Threads_Safety\<close>: the start of the program in
    \<open>broker.c\<close> and of a thread in \<open>event_io.c\<close>, all threads taking turns on one broker, what each may
    rely on, a message on its way from a socket of one thread to the sockets of another, and the
    memory safety of all threads together.
  \<^item> \<open>Printing\<close>, \<open>Dumps\<close>: the formats of \<open>printf\<close>; the texts that the dump functions of \<open>mqtt.c\<close>,
    \<open>mqtt3_sub_tree_print\<close> and the log of \<open>utility.c\<close> print: a dump of a parsed message stays inside
    its buffers and tells their content, and a packet of up to 100000 bytes fits into the log.
  \<^item> \<open>Sockop\<close>: \<open>getsockop.c\<close>, which prints the options of a socket.

  Theories and code of the tools:
  \<^item> \<open>Cpu\<close>: \<open>util/cpu.c\<close>, which pins a thread to a processor, with the size of the set it fills.
  \<^item> \<open>Tool_Types\<close>: what \<open>epsub.c\<close> and \<open>eppub.c\<close> share: times, names and the numbers of connections.
  \<^item> \<open>Epsub\<close>, \<open>Eppub\<close>: the two programs, from the options to the thread and its statistics.
  \<^item> \<open>Tool_Facts\<close>, \<open>Tool_Runs\<close>, \<open>Tool_Ledger\<close>, \<open>Tool_Properties\<close>: the numbering, the messages of
    a connection, the allocation of connections, the printed figures, the start of a thread.

  Conventions.  An operation that may touch memory outside an object has the value \<open>Fault\<close>
  there, one that waits for ever the value \<open>Blocked\<close>.  What the kernel and libmosquitto do (the
  results of \<open>recv\<close>, \<open>send\<close>, \<open>accept\<close>, \<open>epoll_wait\<close>, \<open>malloc\<close>, of the functions of
  \<open>mosquitto.h\<close> and the callbacks these call) is an input of the operation; a list of results
  that is too short means a call that does not return.

  Loops and fuel.  The parser's loop is a \<open>partial_function\<close>, its value \<open>None\<close> meaning that it
  does not return; the theorem \<open>parser_returns_iff\<close> says when that is.  The walks along the
  links of the hash table take the number of items as fuel, which is enough for every table
  built by its operations (\<open>table_refines_list\<close>, \<open>pass_visits_every_client\<close>).  All other loops
  terminate by a measure, or run over a list of inputs.

  Threads.  A step of \<open>system_step\<close> is an event handled or one client served by the sending loop, in
  any order over the threads; the invariant \<open>system_ok\<close> holds after every step.  Inside these
  steps, \<open>Queue_Threads\<close> breaks the sending part of \<open>loop_run\<close> into steps between which other
  threads append packets; \<open>Tree_Writes\<close> breaks \<open>mqtt3_sub_add\<close> into single stores, and
  \<open>Tree_Threads\<close> and \<open>Tree_Publish\<close> let a publish walk the tree while these stores happen.  Stores
  are seen in program order.  The other operations work on what belongs to one thread.

  Not modelled: the build with mTCP (\<open>#if MTCP\<close>), which replaces the socket calls; where the
  broker and the tools write messages for the user; the socket options that the broker
  sets; signals; the array \<open>fds\<close> of \<open>epollop\<close>, which is written and read at
  once; the initialisation of the clients' locks; sorting, selection and the other hash functions
  of \<open>uthash.h\<close>, which the broker never uses.  Of \<open>mosquitto.h\<close> only what the tools read is code of
  this repository's build; the functions it declares belong to a library.
\<close>

end
